(* ===== verification/Prelude.thy ===== *)
theory Prelude
  imports Main "HOL-Library.Word"
begin

text \<open>
  The prelude of the development: the widths of the machine integers, byte strings, the
  big- and little-endian 16- and 32-bit codecs that the SMP header, the serial framing and
  the MCUboot image format share, and the generic lemmas on words, lists and sums that the
  component theories use. The collections \<open>wire_simps\<close> (how many bytes an encoder emits,
  what a decoder makes of them) and \<open>width_simps\<close> (unsigned values of fixed-width words)
  are declared here and filled by the components.
\<close>

unbundle bit_operations_syntax

section \<open>Machine integers and byte strings\<close>

type_synonym u8 = "8 word"
type_synonym u16 = "16 word"
type_synonym u32 = "32 word"
type_synonym u64 = "64 word"
type_synonym byte = "8 word"
type_synonym bytes = "byte list"

text \<open>Points on the monotonic clock and durations, in clock ticks (\<open>include/smply/clock.hpp\<close>).\<close>

type_synonym time_point = int
type_synonym duration = int

named_theorems wire_simps \<open>lengths and contents of encoded byte strings\<close>
named_theorems width_simps \<open>unsigned values of fixed-width words\<close>

section \<open>Spans\<close>

text \<open>
  \<open>std::span::subspan (offset, count)\<close> on a span that is long enough; every use in the
  source checks the bound first.
\<close>

definition subspan :: "nat \<Rightarrow> nat \<Rightarrow> 'a list \<Rightarrow> 'a list" where
  "subspan offset count xs = take count (drop offset xs)"

lemma length_subspan [simp]: "length (subspan i n xs) = min n (length xs - i)"
  by (simp add: subspan_def)

lemma subspan_append_left:
  "i + n \<le> length xs \<Longrightarrow> subspan i n (xs @ ys) = subspan i n xs"
  by (simp add: subspan_def)

lemma subspan_exact: "length ys = n \<Longrightarrow> subspan (length xs) n (xs @ ys @ zs) = ys"
  by (simp add: subspan_def)

section \<open>Endian codecs\<close>

text \<open>Big-endian 16-bit values, by explicit shifts.\<close>

definition be16 :: "byte \<Rightarrow> byte \<Rightarrow> u16" where
  "be16 high low = push_bit 8 (ucast high) OR ucast low"

definition high_byte :: "u16 \<Rightarrow> byte" where
  "high_byte value = ucast (drop_bit 8 value)"

definition low_byte :: "u16 \<Rightarrow> byte" where
  "low_byte value = ucast value"

lemma be16_split [simp]: "be16 (high_byte v) (low_byte v) = v"
  by (rule bit_word_eqI)
    (auto simp: be16_def high_byte_def low_byte_def bit_simps)

lemma high_byte_be16 [simp]: "high_byte (be16 h l) = h"
  by (rule bit_word_eqI) (auto simp: be16_def high_byte_def bit_simps dest: bit_imp_le_length)

lemma low_byte_be16 [simp]: "low_byte (be16 h l) = l"
  by (rule bit_word_eqI) (auto simp: be16_def low_byte_def bit_simps dest: bit_imp_le_length)

lemma be16_eq_iff: "be16 h l = be16 h' l' \<longleftrightarrow> h = h' \<and> l = l'"
  by (metis high_byte_be16 low_byte_be16)

text \<open>Little-endian 16- and 32-bit values, read at an index of a byte string.\<close>

definition le16 :: "byte \<Rightarrow> byte \<Rightarrow> u16" where
  "le16 b0 b1 = ucast b0 OR push_bit 8 (ucast b1)"

definition le32 :: "byte \<Rightarrow> byte \<Rightarrow> byte \<Rightarrow> byte \<Rightarrow> u32" where
  "le32 b0 b1 b2 b3 = ucast b0 OR push_bit 8 (ucast b1) OR push_bit 16 (ucast b2) OR
     push_bit 24 (ucast b3)"

section \<open>Sums as results\<close>

lemma isl_cases: "(\<And>e. r = Inl e \<Longrightarrow> P) \<Longrightarrow> (\<And>v. r = Inr v \<Longrightarrow> P) \<Longrightarrow> P"
  by (cases r) auto

section \<open>Unsigned values\<close>

lemma unat_u8_less [width_simps, simp]: "unat (x :: u8) < 256"
  using unsigned_less [of x] by simp

lemma unat_u16_less [width_simps, simp]: "unat (x :: u16) < 65536"
  using unsigned_less [of x] by simp

lemma unat_u32_less [width_simps, simp]: "unat (x :: u32) < 4294967296"
  using unsigned_less [of x] by simp

lemma unat_Suc_less:
  fixes x :: "'a::len word"
  assumes "x < y"
  shows "unat (x + 1) = Suc (unat x)"
proof -
  have "unat y < 2 ^ LENGTH('a)" by simp
  moreover have "Suc (unat x) \<le> unat y"
    using assms by (simp add: word_less_nat_alt)
  ultimately have "Suc (unat x) < 2 ^ LENGTH('a)" by linarith
  then show ?thesis
    by (simp add: unat_word_ariths)
qed

end
