(* ===== verification/Errors.thy ===== *)
theory Errors
  imports Prelude
begin

text \<open>
  The error model of \<open>include/smply/error.hpp\<close>, \<open>include/smply/result.hpp\<close> and
  \<open>include/smply/group.hpp\<close>, with the names \<open>src/core.cpp\<close> gives its values. A
  \<open>Result<T>\<close> is the sum \<open>error + 'a\<close>, \<open>Inl\<close> carrying the error.
\<close>

section \<open>Groups\<close>

text \<open>\<open>Group\<close> is an open enumeration: every 16-bit value is a legal group.\<close>

type_synonym group = u16

abbreviation group_Os :: group where "group_Os \<equiv> 0"
abbreviation group_Image :: group where "group_Image \<equiv> 1"
abbreviation group_PerUser :: group where "group_PerUser \<equiv> 64"

definition is_user_defined :: "group \<Rightarrow> bool" where
  "is_user_defined g \<longleftrightarrow> g \<ge> group_PerUser"

section \<open>Error codes\<close>

datatype error_code =
    Ok | InvalidArgument | InvalidState | MalformedMessage | UnsupportedSmpVersion
  | MessageTooLarge | CborEncode | CborDecode | ProtocolError | UnexpectedResponse
  | Timeout | Cancelled | TransportError | TransportBusy | Disconnected | ImageMismatch
  | UpdateFailed | UpdateRefused | Internal

record mgmt_error =
  mgmt_group :: group
  mgmt_rc :: u16
  group_scoped :: bool

definition MgmtError_smp :: "u16 \<Rightarrow> mgmt_error" where
  "MgmtError_smp rc = \<lparr>mgmt_group = group_Os, mgmt_rc = rc, group_scoped = False\<rparr>"

definition MgmtError_scoped :: "group \<Rightarrow> u16 \<Rightarrow> mgmt_error" where
  "MgmtError_scoped g rc = \<lparr>mgmt_group = g, mgmt_rc = rc, group_scoped = True\<rparr>"

text \<open>
  \<open>where\<close> is the static call-site tag, \<open>None\<close> for a null pointer. The operating
  system's diagnostic (\<open>os_error_\<close>) is set by transport adapters only, and the core
  neither sets nor reads it, so it is no field here.
\<close>

record error =
  code :: error_code
  mgmt :: "mgmt_error option"
  reason :: string
  at_where :: "string option"

type_synonym 'a result = "error + 'a"

definition Error :: "error_code \<Rightarrow> string \<Rightarrow> error" where
  "Error c w = \<lparr>code = c, mgmt = None, reason = [], at_where = Some w\<rparr>"

definition Error_mgmt :: "error_code \<Rightarrow> mgmt_error \<Rightarrow> string \<Rightarrow> error" where
  "Error_mgmt c m w = \<lparr>code = c, mgmt = Some m, reason = [], at_where = Some w\<rparr>"

text \<open>A default-constructed error: \<open>ErrorCode::Ok\<close> with no detail.\<close>

definition no_error :: error where
  "no_error = \<lparr>code = Ok, mgmt = None, reason = [], at_where = None\<rparr>"

abbreviation fail :: "error_code \<Rightarrow> string \<Rightarrow> 'a result" where
  "fail c w \<equiv> Inl (Error c w)"

definition error_eq :: "error \<Rightarrow> error \<Rightarrow> bool" where
  "error_eq l r \<longleftrightarrow> code l = code r \<and> mgmt l = mgmt r \<and> reason l = reason r"

definition failed :: "error \<Rightarrow> bool" where
  "failed e \<longleftrightarrow> code e \<noteq> Ok"

text \<open>The \<open>SmpError\<close> codes the core branches on, by their wire numbers.\<close>

abbreviation smp_NoMemory :: u16 where "smp_NoMemory \<equiv> 2"
abbreviation smp_BadState :: u16 where "smp_BadState \<equiv> 6"
abbreviation smp_Busy :: u16 where "smp_Busy \<equiv> 10"

definition smp_error :: "error \<Rightarrow> u16 option" where
  "smp_error e =
     (case mgmt e of
        None \<Rightarrow> None
      | Some m \<Rightarrow> if group_scoped m then None else Some (mgmt_rc m))"

lemma Error_simps [simp]:
  "code (Error c w) = c" "mgmt (Error c w) = None" "reason (Error c w) = []"
  "at_where (Error c w) = Some w"
  by (simp_all add: Error_def)

lemma smp_error_Error [simp]: "smp_error (Error c w) = None"
  by (simp add: smp_error_def)

section \<open>Names\<close>

definition group_name :: "group \<Rightarrow> string" where
  "group_name g =
    (if g = 0 then ''os'' else if g = 1 then ''image'' else if g = 2 then ''stat''
     else if g = 3 then ''settings'' else if g = 4 then ''log'' else if g = 5 then ''crash''
     else if g = 6 then ''split'' else if g = 7 then ''run'' else if g = 8 then ''fs''
     else if g = 9 then ''shell'' else if g = 10 then ''enumeration''
     else if g = 11 then ''transport'' else if g = 63 then ''zephyr-basic''
     else if g = 64 then ''per-user'' else ''unknown'')"

fun error_code_to_string :: "error_code \<Rightarrow> string" where
  "error_code_to_string Ok = ''ok''"
| "error_code_to_string InvalidArgument = ''invalid argument''"
| "error_code_to_string InvalidState = ''invalid state''"
| "error_code_to_string MalformedMessage = ''malformed SMP message''"
| "error_code_to_string UnsupportedSmpVersion = ''unsupported SMP version''"
| "error_code_to_string MessageTooLarge = ''message too large''"
| "error_code_to_string CborEncode = ''CBOR encode failed''"
| "error_code_to_string CborDecode = ''CBOR decode failed''"
| "error_code_to_string ProtocolError = ''MCUmgr protocol error''"
| "error_code_to_string UnexpectedResponse = ''unexpected response''"
| "error_code_to_string Timeout = ''timed out''"
| "error_code_to_string Cancelled = ''cancelled''"
| "error_code_to_string TransportError = ''transport error''"
| "error_code_to_string TransportBusy = ''transport busy''"
| "error_code_to_string Disconnected = ''disconnected''"
| "error_code_to_string ImageMismatch = ''image mismatch''"
| "error_code_to_string UpdateFailed = ''firmware update failed''"
| "error_code_to_string UpdateRefused = ''firmware update refused''"
| "error_code_to_string Internal = ''internal error''"

end
