(* ===== verification/SmpHeader.thy ===== *)
theory SmpHeader
  imports Errors
begin

text \<open>
  The 8-byte SMP header: the types of \<open>include/smply/smp/header.hpp\<close> and the codec of
  \<open>src/smp/codec.cpp\<close>. Byte 0 is packed as reserved(3), version(2), op(3); every
  multi-byte field is big-endian. The lemmas give the exact set of byte strings the decoder
  accepts and that encoding and decoding are inverse to each other on it.
\<close>

section \<open>Types\<close>

datatype operation = Read | ReadResponse | Write | WriteResponse

datatype version = V1 | V2

text \<open>The underlying value of the enumerations, and the casts back on their range.\<close>

fun operation_bits :: "operation \<Rightarrow> u8" where
  "operation_bits Read = 0"
| "operation_bits ReadResponse = 1"
| "operation_bits Write = 2"
| "operation_bits WriteResponse = 3"

fun version_bits :: "version \<Rightarrow> u8" where
  "version_bits V1 = 0"
| "version_bits V2 = 1"

definition to_operation :: "u8 \<Rightarrow> operation" where
  "to_operation b = (if b = 0 then Read else if b = 1 then ReadResponse
     else if b = 2 then Write else WriteResponse)"

definition to_version :: "u8 \<Rightarrow> version" where
  "to_version b = (if b = 0 then V1 else V2)"

definition kHeaderSize :: nat where "kHeaderSize = 8"

record header =
  op :: operation
  version :: version
  flags :: u8
  length' :: u16
  group :: group
  seq :: u8
  command :: u8

definition total_size :: "header \<Rightarrow> nat" where
  "total_size h = kHeaderSize + unat (length' h)"

definition is_response :: "operation \<Rightarrow> bool" where
  "is_response o' \<longleftrightarrow> o' = ReadResponse \<or> o' = WriteResponse"

fun response_to :: "operation \<Rightarrow> operation" where
  "response_to Read = ReadResponse"
| "response_to Write = WriteResponse"
| "response_to ReadResponse = ReadResponse"
| "response_to WriteResponse = WriteResponse"

fun operation_name :: "operation \<Rightarrow> string" where
  "operation_name Read = ''read''"
| "operation_name ReadResponse = ''read-response''"
| "operation_name Write = ''write''"
| "operation_name WriteResponse = ''write-response''"

section \<open>Codec\<close>

definition kReservedMask :: u8 where "kReservedMask = 0xE0"
definition kVersionMask :: u8 where "kVersionMask = 0x03"
definition kVersionShift :: nat where "kVersionShift = 3"
definition kOperationMask :: u8 where "kOperationMask = 0x07"
definition kMaxOperation :: u8 where "kMaxOperation = 3"
definition kMaxVersion :: u8 where "kMaxVersion = 1"

definition encode :: "header \<Rightarrow> bytes" where
  "encode h =
     (let vbits = version_bits (version h) AND kVersionMask;
          obits = operation_bits (op h) AND kOperationMask;
          byte0 = push_bit kVersionShift vbits OR obits
      in [byte0, flags h, high_byte (length' h), low_byte (length' h),
          high_byte (group h), low_byte (group h), seq h, command h])"

text \<open>\<open>decode_header\<close> on a span of exactly \<open>kHeaderSize\<close> bytes.\<close>

definition decode_header8 :: "bytes \<Rightarrow> header result" where
  "decode_header8 bs =
     (let byte0 = bs ! 0 in
      if byte0 AND kReservedMask \<noteq> 0 then
        fail MalformedMessage ''smp header: reserved bits set''
      else let vbits = drop_bit kVersionShift byte0 AND kVersionMask in
      if vbits > kMaxVersion then
        fail UnsupportedSmpVersion ''smp header: reserved version''
      else let obits = byte0 AND kOperationMask in
      if obits > kMaxOperation then
        fail MalformedMessage ''smp header: unknown operation''
      else Inr \<lparr>op = to_operation obits, version = to_version vbits, flags = bs ! 1,
                length' = be16 (bs ! 2) (bs ! 3), group = be16 (bs ! 4) (bs ! 5),
                seq = bs ! 6, command = bs ! 7\<rparr>)"

text \<open>The overload on a span of any length.\<close>

definition decode_header :: "bytes \<Rightarrow> header result" where
  "decode_header bs =
     (if length bs < kHeaderSize then fail MalformedMessage ''smp header: truncated''
      else decode_header8 (take kHeaderSize bs))"

lemmas header_consts = kReservedMask_def kVersionMask_def kVersionShift_def kOperationMask_def
  kMaxOperation_def kMaxVersion_def

section \<open>Lemmas\<close>

lemma length_encode [simp, wire_simps]: "length (encode h) = kHeaderSize"
  by (simp add: encode_def kHeaderSize_def Let_def)

lemma total_size_ge [simp]: "kHeaderSize \<le> total_size h"
  by (simp add: total_size_def)

lemma total_size_pos [simp]: "0 < total_size h"
  by (simp add: total_size_def kHeaderSize_def)

lemma kHeaderSize_pos [simp]: "0 < kHeaderSize"
  by (simp add: kHeaderSize_def)

text \<open>What the first byte says, as a function of a header's two packed fields.\<close>

definition byte0_of :: "version \<Rightarrow> operation \<Rightarrow> u8" where
  "byte0_of v o' = (case v of V1 \<Rightarrow> 0 | V2 \<Rightarrow> 8) + operation_bits o'"

lemma encode_eq:
  "encode h = [byte0_of (version h) (op h), flags h, high_byte (length' h), low_byte (length' h),
     high_byte (group h), low_byte (group h), seq h, command h]"
  by (cases "op h"; cases "version h")
    (simp_all add: encode_def Let_def byte0_of_def header_consts)

text \<open>A first byte with clear reserved bits is one of 32 values.\<close>

lemma reserved_clear: "(b :: u8) AND 0xE0 = 0 \<longleftrightarrow> unat b < 32"
proof -
  have "(0xE0 :: u8) = NOT (mask 5)" by (simp add: mask_eq_exp_minus_1)
  then have "b AND 0xE0 = 0 \<longleftrightarrow> take_bit 5 b = b"
    by (auto simp: bit_eq_iff bit_simps)
  also have "\<dots> \<longleftrightarrow> take_bit 5 (unat b) = unat b"
    by (metis unsigned_take_bit_eq word_unat_eq_iff)
  also have "\<dots> \<longleftrightarrow> unat b < 32"
    by (simp add: take_bit_nat_eq_self_iff)
  finally show ?thesis .
qed

lemma byte_cases_32:
  assumes "unat (b :: u8) < 32"
  shows "b \<in> set (map word_of_nat [0..<32])"
  using assms by (auto intro: image_eqI [where x = "unat b"])

lemma byte0_bits:
  fixes b :: u8
  assumes "b AND 0xE0 = 0" and "\<not> 1 < drop_bit 3 b AND 3" and "\<not> 3 < b AND 7"
  shows "byte0_of (to_version (drop_bit 3 b AND 3)) (to_operation (b AND 7)) = b"
proof -
  have "b \<in> set (map word_of_nat [0..<32])"
    using assms(1) by (simp only: reserved_clear byte_cases_32)
  moreover have "list_all (\<lambda>b :: u8. 1 < drop_bit 3 b AND 3 \<or> 3 < b AND 7 \<or>
      byte0_of (to_version (drop_bit 3 b AND 3)) (to_operation (b AND 7)) = b)
      (map word_of_nat [0..<32])"
    by (simp add: upt_rec byte0_of_def to_version_def to_operation_def)
  ultimately show ?thesis using assms by (auto simp only: list_all_iff)
qed

lemma byte0_of_fields:
  "byte0_of v o' AND 0xE0 = 0" "drop_bit 3 (byte0_of v o') AND 3 = version_bits v"
  "byte0_of v o' AND 7 = operation_bits o'"
  by (cases v; cases o'; simp add: byte0_of_def)+

lemma bits_range [simp]: "\<not> 1 < version_bits v" "\<not> 3 < operation_bits o'"
  by (cases v; simp) (cases o'; simp)

lemma to_of_bits [simp]:
  "to_version (version_bits v) = v" "to_operation (operation_bits o') = o'"
  by (cases v; simp add: to_version_def) (cases o'; simp add: to_operation_def)

lemma decode_encode8: "decode_header8 (encode h) = Inr h"
  by (simp add: decode_header8_def Let_def encode_eq header_consts byte0_of_fields)

lemma encode_decode8:
  assumes "length bs = kHeaderSize" and "decode_header8 bs = Inr h"
  shows "encode h = bs"
proof -
  obtain b0 b1 b2 b3 b4 b5 b6 b7 where bs: "bs = [b0, b1, b2, b3, b4, b5, b6, b7]"
    using assms(1) by (auto simp: kHeaderSize_def length_Suc_conv eval_nat_numeral)
  from assms(2) have ok: "b0 AND 0xE0 = 0" "\<not> 1 < drop_bit 3 b0 AND 3" "\<not> 3 < b0 AND 7"
    and h: "h = \<lparr>op = to_operation (b0 AND 7), version = to_version (drop_bit 3 b0 AND 3),
      flags = b1, length' = be16 b2 b3, group = be16 b4 b5, seq = b6, command = b7\<rparr>"
    by (auto simp: bs decode_header8_def Let_def header_consts split: if_splits)
  show ?thesis
    by (simp add: h bs encode_eq byte0_bits [OF ok])
qed

lemma decode_header_append:
  "kHeaderSize \<le> length bs \<Longrightarrow> decode_header (bs @ rest) = decode_header bs"
  by (simp add: decode_header_def)

lemma decode_header_take:
  "kHeaderSize \<le> n \<Longrightarrow> kHeaderSize \<le> length bs \<Longrightarrow> decode_header (take n bs) = decode_header bs"
  by (simp add: decode_header_def min_def)

lemma decode_header_length: "decode_header bs = Inr h \<Longrightarrow> kHeaderSize \<le> length bs"
  by (auto simp: decode_header_def split: if_splits)

lemma decode_header_encode [simp]: "decode_header (encode h @ rest) = Inr h"
  by (simp add: decode_header_def decode_encode8)

lemma decode_header_Inr_iff: "decode_header bs = Inr h \<longleftrightarrow> take kHeaderSize bs = encode h"
proof
  assume *: "decode_header bs = Inr h"
  then have "decode_header8 (take kHeaderSize bs) = Inr h" and "kHeaderSize \<le> length bs"
    by (auto simp: decode_header_def split: if_splits)
  then show "take kHeaderSize bs = encode h"
    using encode_decode8 [of "take kHeaderSize bs" h] by simp
next
  assume *: "take kHeaderSize bs = encode h"
  then have "length (take kHeaderSize bs) = kHeaderSize" by simp
  then have "kHeaderSize \<le> length bs" by simp
  with * show "decode_header bs = Inr h"
    by (simp add: decode_header_def decode_encode8)
qed

section \<open>Properties\<close>

text \<open>
  The codec is exact: the decoder accepts a byte string, whatever follows the header,
  with header \<open>h\<close> if and only if the string starts with the encoding of \<open>h\<close>. So every
  header round-trips, and an accepted header re-encodes to the bytes it was read from: no
  flag bit, group or command is lost, and the reserved bits are always written as zero.
\<close>

theorem header_codec_exact:
  "decode_header bs = Inr h \<longleftrightarrow> (\<exists>rest. bs = encode h @ rest)"
proof
  assume "decode_header bs = Inr h"
  then have "take kHeaderSize bs = encode h" by (simp only: decode_header_Inr_iff)
  then show "\<exists>rest. bs = encode h @ rest" by (metis append_take_drop_id)
qed auto

text \<open>
  Which error a rejected header gets: truncation and set reserved bits are malformed;
  with those clear, a version above 1 is an unsupported version, and only a header of a
  known version is refused for its operation.
\<close>

theorem header_rejection:
  assumes "decode_header bs = Inl e"
  shows "code e =
    (if length bs < kHeaderSize \<or> bs ! 0 AND kReservedMask \<noteq> 0 then MalformedMessage
     else if drop_bit 3 (bs ! 0) AND 3 > 1 then UnsupportedSmpVersion else MalformedMessage)"
  using assms
  by (auto simp: decode_header_def decode_header8_def Let_def header_consts split: if_splits)

theorem header_rejection_witness:
  "code (projl (decode_header [0x10, 0, 0, 0, 0, 0, 0, 0])) = UnsupportedSmpVersion"
  using header_rejection [of "[0x10, 0, 0, 0, 0, 0, 0, 0]"
      "Error UnsupportedSmpVersion ''smp header: reserved version''"]
  by (simp add: decode_header_def decode_header8_def header_consts kHeaderSize_def)

end
