(* ===== verification/Assembler.thy ===== *)
theory Assembler
  imports SmpHeader
begin

text \<open>
  The reassembler of \<open>src/smp/assembler.hpp\<close> and \<open>src/smp/assembler.cpp\<close>: a byte
  stream without message boundaries goes in, complete SMP messages come out. The sink is a
  parameter \<open>on_message\<close> that transforms a state of its own, called where the source calls
  \<open>sink.on_message\<close>. The specification \<open>parse_stream\<close> splits a whole stream at once; the
  refinement lemma says the assembler computes it whatever the fragmentation.
\<close>

section \<open>State and operations\<close>

record limits =
  max_payload :: u16
  max_buffer :: nat

definition kMaxSmpPayload :: u16 where "kMaxSmpPayload = 8192"
definition kMaxAssemblyBuffer :: nat where "kMaxAssemblyBuffer = 16 * 1024"

definition default_limits :: limits where
  "default_limits = \<lparr>max_payload = kMaxSmpPayload, max_buffer = kMaxAssemblyBuffer\<rparr>"

record assembler =
  limits :: limits
  buffer :: bytes
  peak_buffered :: nat
  feeding :: bool

definition MessageAssembler :: "limits \<Rightarrow> assembler" where
  "MessageAssembler l = \<lparr>limits = l, buffer = [], peak_buffered = 0, feeding = False\<rparr>"

definition reset :: "assembler \<Rightarrow> assembler" where
  "reset a = a\<lparr>buffer := []\<rparr>"

definition message_size :: "limits \<Rightarrow> header \<Rightarrow> nat result" where
  "message_size l h =
     (if length' h > max_payload l then
        fail MessageTooLarge ''assembler: payload exceeds limit''
      else if total_size h > max_buffer l then
        fail MessageTooLarge ''assembler: message exceeds buffer limit''
      else Inr (total_size h))"

definition stash :: "bytes \<Rightarrow> assembler \<Rightarrow> assembler" where
  "stash bs a = (let b = buffer a @ bs
     in a\<lparr>buffer := b, peak_buffered := max (peak_buffered a) (length b)\<rparr>)"

text \<open>A message and the sink's step on it.\<close>

type_synonym message = "header \<times> bytes"
type_synonym 's sink = "header \<Rightarrow> bytes \<Rightarrow> 's \<Rightarrow> 's"

text \<open>
  The decoding both paths of \<open>feed\<close> make before they trust a header: the header itself
  and the size of the whole message.
\<close>

definition decode_and_size :: "limits \<Rightarrow> bytes \<Rightarrow> (header \<times> nat) result" where
  "decode_and_size l bs =
     (case decode_header bs of
        Inl e \<Rightarrow> Inl e
      | Inr h \<Rightarrow> (case message_size l h of Inl e \<Rightarrow> Inl e | Inr tot \<Rightarrow> Inr (h, tot)))"

lemma decode_and_size_total [dest]:
  "decode_and_size l bs = Inr (h, tot) \<Longrightarrow>
     tot = total_size h \<and> decode_header bs = Inr h \<and> tot \<le> max_buffer l \<and>
     length' h \<le> max_payload l"
  by (auto simp: decode_and_size_def message_size_def split: sum.splits if_splits)

text \<open>
  One stage of the slow path: top the held bytes up to \<open>n\<close> from the input, as far as the
  input goes. The source does this first for the header, then for the whole message.
\<close>

definition top_up :: "nat \<Rightarrow> bytes \<Rightarrow> assembler \<Rightarrow> assembler \<times> bytes" where
  "top_up n input a =
     (if length (buffer a) < n then
        let wanted = n - length (buffer a); t = min wanted (length input)
        in (stash (take t input) a, drop t input)
      else (a, input))"

lemma top_up_spec:
  assumes "top_up n input a = (a', input')"
  shows "buffer a' @ input' = buffer a @ input"
    and "length (buffer a') = max (length (buffer a)) (min n (length (buffer a) + length input))"
    and "length (buffer a') < n \<Longrightarrow> input' = []"
    and "limits a' = limits a" and "feeding a' = feeding a"
    and "peak_buffered a' \<le> max (peak_buffered a) (length (buffer a'))"
    and "length input' \<le> length input"
    and "\<exists>z. buffer a' = buffer a @ z"
    and "n \<le> length (buffer a) \<Longrightarrow> buffer a' = buffer a"
  using assms by (auto simp: top_up_def stash_def Let_def split: if_splits)

text \<open>
  The \<open>while (true)\<close> of \<open>feed\<close>. One iteration takes either the fast path (nothing is
  buffered: parse straight out of the input) or the slow path (top the held partial message
  up, one stage at a time).
\<close>

function feed_loop ::
    "'s sink \<Rightarrow> bytes \<Rightarrow> assembler \<Rightarrow> 's \<Rightarrow> assembler \<times> 's \<times> unit result" where
  "feed_loop on_message input a s =
     (if buffer a = [] then
        if length input < kHeaderSize then (stash input a, s, Inr ())
        else (case decode_and_size (limits a) input of
           Inl e \<Rightarrow> (reset a, s, Inl e)
         | Inr (h, tot) \<Rightarrow>
             if length input < tot then (stash input a, s, Inr ())
             else feed_loop on_message (drop tot input) a
                    (on_message h (subspan kHeaderSize (unat (length' h)) input) s))
      else (case top_up kHeaderSize input a of
        (a1, input1) \<Rightarrow>
          if length (buffer a1) < kHeaderSize then (a1, s, Inr ())
          else (case decode_and_size (limits a1) (buffer a1) of
             Inl e \<Rightarrow> (reset a1, s, Inl e)
           | Inr (h, tot) \<Rightarrow>
               (case top_up tot input1 a1 of
                 (a2, input2) \<Rightarrow>
                   if length (buffer a2) < tot then (a2, s, Inr ())
                   else feed_loop on_message input2 (a2\<lparr>buffer := []\<rparr>)
                          (on_message h (subspan kHeaderSize (unat (length' h)) (buffer a2)) s)))))"
  by pat_completeness auto
termination
proof (relation "measure (\<lambda>(_, input, a, _). length input + length (buffer a))", goal_cases)
  case 1
  then show ?case by simp
next
  case (2 f input a s x h tot)
  then have "0 < tot" and "tot \<le> length input" by (auto dest!: decode_and_size_total)
  then show ?case by simp
next
  case (3 f input a s a1 input1 y h tot a2 input2)
  then have "length input1 \<le> length input" and "length input2 \<le> length input1"
    by (metis top_up_spec(7))+
  moreover have "0 < length (buffer a)" using 3 by blast
  ultimately show ?case by (simp del: length_greater_0_conv)
qed

declare feed_loop.simps [simp del]

definition feed :: "'s sink \<Rightarrow> bytes \<Rightarrow> assembler \<Rightarrow> 's \<Rightarrow> assembler \<times> 's \<times> unit result" where
  "feed on_message input a s =
     (if feeding a then (a, s, fail InvalidState ''assembler: reentrant feed'')
      else case feed_loop on_message input (a\<lparr>feeding := True\<rparr>) s of
        (a', s', r) \<Rightarrow> (a'\<lparr>feeding := False\<rparr>, s', r))"

text \<open>Feeding a sequence of chunks, stopping at the first framing error.\<close>

fun feed_chunks ::
    "'s sink \<Rightarrow> bytes list \<Rightarrow> assembler \<Rightarrow> 's \<Rightarrow> assembler \<times> 's \<times> unit result" where
  "feed_chunks f [] a s = (a, s, Inr ())"
| "feed_chunks f (c # cs) a s =
     (case feed f c a s of
        (a', s', Inl e) \<Rightarrow> (a', s', Inl e)
      | (a', s', Inr _) \<Rightarrow> feed_chunks f cs a' s')"

section \<open>Specification: splitting a whole stream\<close>

function parse_stream ::
    "limits \<Rightarrow> 's sink \<Rightarrow> bytes \<Rightarrow> 's \<Rightarrow> bytes \<times> 's \<times> unit result" where
  "parse_stream l f bs s =
     (if length bs < kHeaderSize then (bs, s, Inr ())
      else (case decode_and_size l bs of
         Inl e \<Rightarrow> ([], s, Inl e)
       | Inr (h, tot) \<Rightarrow>
           if length bs < tot then (bs, s, Inr ())
           else parse_stream l f (drop tot bs)
                  (f h (subspan kHeaderSize (unat (length' h)) bs) s)))"
  by pat_completeness auto
termination
  by (relation "measure (\<lambda>(_, _, bs, _). length bs)")
    (auto dest!: decode_and_size_total intro!: diff_less less_le_trans [OF kHeaderSize_pos])

declare parse_stream.simps [simp del]

section \<open>Refinement\<close>

text \<open>The bytes held between two calls are the proper prefix of one acceptable message.\<close>

definition partial_message :: "limits \<Rightarrow> bytes \<Rightarrow> bool" where
  "partial_message l b \<longleftrightarrow> length b < kHeaderSize \<or>
     (case decode_and_size l b of Inl _ \<Rightarrow> False | Inr (h, tot) \<Rightarrow> length b < tot)"

definition assembler_inv :: "assembler \<Rightarrow> bool" where
  "assembler_inv a \<longleftrightarrow> \<not> feeding a \<and> partial_message (limits a) (buffer a) \<and>
     peak_buffered a \<le> max kHeaderSize (max_buffer (limits a))"

lemma decode_and_size_append:
  "kHeaderSize \<le> length b \<Longrightarrow> decode_and_size l (b @ r) = decode_and_size l b"
  by (simp add: decode_and_size_def decode_header_append)

lemma partial_message_Nil [simp]: "partial_message l []"
  by (simp add: partial_message_def)

lemma partial_message_bound:
  "partial_message l b \<Longrightarrow> length b \<le> max kHeaderSize (max_buffer l)"
  by (auto simp: partial_message_def dest!: decode_and_size_total split: sum.splits)

lemma parse_stream_partial: "partial_message l b \<Longrightarrow> parse_stream l f b s = (b, s, Inr ())"
  by (subst parse_stream.simps) (auto simp: partial_message_def split: sum.splits)

lemma parse_stream_error:
  "kHeaderSize \<le> length bs \<Longrightarrow> decode_and_size l bs = Inl e \<Longrightarrow>
     parse_stream l f bs s = ([], s, Inl e)"
  by (simp add: parse_stream.simps [of l f bs s])

lemma parse_stream_message:
  "decode_and_size l bs = Inr (h, tot) \<Longrightarrow> tot \<le> length bs \<Longrightarrow>
     parse_stream l f bs s =
       parse_stream l f (drop tot bs) (f h (subspan kHeaderSize (unat (length' h)) bs) s)"
  using decode_and_size_total [of l bs h tot] decode_header_length [of bs h]
  by (simp add: parse_stream.simps [of l f bs s])

text \<open>The slow path up to the point where a whole message is held, or the input is used up.\<close>

lemma slow_path:
  assumes part: "partial_message (limits a) (buffer a)"
    and up1: "top_up kHeaderSize input a = (a1, input1)"
    and long: "\<not> length (buffer a1) < kHeaderSize"
    and dec: "decode_and_size (limits a1) (buffer a1) = Inr (h, tot)"
    and up2: "top_up tot input1 a1 = (a2, input2)"
  shows "decode_and_size (limits a) (buffer a2 @ rest) = Inr (h, tot)"
    and "length (buffer a2) \<le> tot" and "tot \<le> max_buffer (limits a)"
    and "buffer a @ input = buffer a2 @ input2"
    and "length (buffer a2) < tot \<Longrightarrow> input2 = []"
    and "peak_buffered a2 \<le> max (peak_buffered a) tot"
    and "limits a2 = limits a" and "feeding a2 = feeding a"
proof -
  note s1 = top_up_spec [OF up1] and s2 = top_up_spec [OF up2]
  have tot: "kHeaderSize \<le> tot" "tot \<le> max_buffer (limits a)"
    using dec s1(4) by (auto dest!: decode_and_size_total)
  have le: "length (buffer a1) \<le> tot"
  proof (cases "length (buffer a) < kHeaderSize")
    case True
    then show ?thesis using s1(2) tot(1) by simp
  next
    case False
    then have "buffer a1 = buffer a" using s1(9) by simp
    then show ?thesis using False part dec s1(4) by (auto simp: partial_message_def)
  qed
  show "decode_and_size (limits a) (buffer a2 @ rest) = Inr (h, tot)"
    using s2(8) dec long s1(4) by (auto simp: decode_and_size_append)
  show le2: "length (buffer a2) \<le> tot" using le s2(2) by linarith
  show "buffer a @ input = buffer a2 @ input2" using s1(1) s2(1) by simp
  show "length (buffer a2) < tot \<Longrightarrow> input2 = []" by (rule s2(3))
  show "peak_buffered a2 \<le> max (peak_buffered a) tot" using s1(6) s2(6) le le2 by linarith
  show "tot \<le> max_buffer (limits a)" by (rule tot(2))
  show "limits a2 = limits a" "feeding a2 = feeding a" using s1(4,5) s2(4,5) by simp_all
qed

text \<open>
  What one run of the loop establishes: it computes the specification on the held bytes
  followed by the input, and keeps the limits, the guard flag and the bound.
\<close>

definition refines :: "'s sink \<Rightarrow> bytes \<Rightarrow> assembler \<Rightarrow> 's \<Rightarrow> assembler \<times> 's \<times> unit result \<Rightarrow> bool"
  where
  "refines f input a s out = (case out of (a', s', r) \<Rightarrow>
     parse_stream (limits a) f (buffer a @ input) s = (buffer a', s', r) \<and>
     limits a' = limits a \<and> feeding a' = feeding a \<and> partial_message (limits a) (buffer a') \<and>
     peak_buffered a' \<le> max (peak_buffered a) (max kHeaderSize (max_buffer (limits a))))"

lemma refines_stop:
  assumes "partial_message (limits a) (buffer a')" and "buffer a' = buffer a @ input"
    and "limits a' = limits a" and "feeding a' = feeding a"
    and "peak_buffered a' \<le> max (peak_buffered a) (max (length (buffer a')) (max_buffer (limits a)))"
  shows "refines f input a s (a', s, Inr ())"
  using assms partial_message_bound [OF assms(1)]
  by (auto simp: refines_def parse_stream_partial)

lemma refines_error:
  assumes "decode_and_size (limits a) (buffer a @ input) = Inl e"
    and "kHeaderSize \<le> length (buffer a @ input)"
    and "limits a' = limits a" and "feeding a' = feeding a"
    and "peak_buffered a' \<le> max (peak_buffered a) kHeaderSize"
  shows "refines f input a s (reset a', s, Inl e)"
  using assms by (auto simp: refines_def parse_stream_error reset_def)

lemma refines_continue:
  assumes "refines f input' a' (f h (subspan kHeaderSize (unat (length' h)) (buffer a @ input)) s) out"
    and "buffer a' = []" and "input' = drop tot (buffer a @ input)"
    and "decode_and_size (limits a) (buffer a @ input) = Inr (h, tot)"
    and "tot \<le> length (buffer a @ input)"
    and "limits a' = limits a" and "feeding a' = feeding a"
    and "peak_buffered a' \<le> max (peak_buffered a) (max_buffer (limits a))"
  shows "refines f input a s out"
  using assms by (auto simp: refines_def parse_stream_message split: prod.splits)

lemma fast_path_refines:
  assumes "buffer a = []"
    and "\<And>h tot. decode_and_size (limits a) input = Inr (h, tot) \<Longrightarrow> tot \<le> length input \<Longrightarrow>
      refines f (drop tot input) a (f h (subspan kHeaderSize (unat (length' h)) input) s)
        (feed_loop f (drop tot input) a (f h (subspan kHeaderSize (unat (length' h)) input) s))"
  shows "refines f input a s (feed_loop f input a s)"
proof (cases "length input < kHeaderSize")
  case True
  then show ?thesis using assms(1)
    by (auto simp: feed_loop.simps [of f input a s] stash_def partial_message_def
        intro!: refines_stop)
next
  case long: False
  show ?thesis
  proof (cases "decode_and_size (limits a) input")
    case (Inl e)
    then show ?thesis using assms(1) long
      by (auto simp: feed_loop.simps [of f input a s] intro!: refines_error)
  next
    case (Inr ht)
    obtain h tot where ht: "ht = (h, tot)" by fastforce
    show ?thesis
    proof (cases "length input < tot")
      case True
      then show ?thesis using assms(1) long Inr ht
        by (auto simp: feed_loop.simps [of f input a s] stash_def partial_message_def
            intro!: refines_stop)
    next
      case False
      have "refines f input a s (feed_loop f (drop tot input) a
          (f h (subspan kHeaderSize (unat (length' h)) input) s))"
      proof (rule refines_continue [OF _ assms(1) refl])
        show "decode_and_size (limits a) (buffer a @ input) = Inr (h, tot)"
          using Inr ht assms(1) by simp
        show "tot \<le> length (buffer a @ input)" using False by simp
        show "refines f (drop tot (buffer a @ input)) a
            (f h (subspan kHeaderSize (unat (length' h)) (buffer a @ input)) s)
            (feed_loop f (drop tot input) a (f h (subspan kHeaderSize (unat (length' h)) input) s))"
          using assms(2) [OF Inr [unfolded ht]] False assms(1) by simp
      qed simp_all
      then show ?thesis using assms(1) long Inr ht False
        by (simp add: feed_loop.simps [of f input a s])
    qed
  qed
qed

lemma slow_path_refines:
  assumes ne: "buffer a \<noteq> []" and part: "partial_message (limits a) (buffer a)"
    and IH: "\<And>a1 input1 h tot a2 input2.
      top_up kHeaderSize input a = (a1, input1) \<Longrightarrow> \<not> length (buffer a1) < kHeaderSize \<Longrightarrow>
      decode_and_size (limits a1) (buffer a1) = Inr (h, tot) \<Longrightarrow>
      top_up tot input1 a1 = (a2, input2) \<Longrightarrow> \<not> length (buffer a2) < tot \<Longrightarrow>
      refines f input2 (a2\<lparr>buffer := []\<rparr>)
        (f h (subspan kHeaderSize (unat (length' h)) (buffer a2)) s)
        (feed_loop f input2 (a2\<lparr>buffer := []\<rparr>)
          (f h (subspan kHeaderSize (unat (length' h)) (buffer a2)) s))"
  shows "refines f input a s (feed_loop f input a s)"
proof -
  obtain a1 input1 where up1: "top_up kHeaderSize input a = (a1, input1)" by fastforce
  note s1 = top_up_spec [OF up1]
  show ?thesis
  proof (cases "length (buffer a1) < kHeaderSize")
    case True
    have "refines f input a s (a1, s, Inr ())"
      using True s1(1) [symmetric] s1(3) [OF True] s1(4-6)
      by (intro refines_stop) (simp_all add: partial_message_def)
    then show ?thesis using True ne up1 by (simp add: feed_loop.simps [of f input a s])
  next
    case long: False
    show ?thesis
    proof (cases "decode_and_size (limits a1) (buffer a1)")
      case (Inl e)
      have whole: "decode_and_size (limits a) (buffer a @ input) = Inl e"
        using Inl long decode_and_size_append [of "buffer a1" "limits a" input1] s1(1,4) by simp
      then have "length (buffer a) < kHeaderSize"
        using part decode_and_size_append [of "buffer a" "limits a" input]
        by (fastforce simp: partial_message_def split: sum.splits)
      then have "peak_buffered a1 \<le> max (peak_buffered a) kHeaderSize"
        using s1(2,6) by linarith
      moreover have "kHeaderSize \<le> length (buffer a @ input)"
        using long arg_cong [OF s1(1), of length] by simp
      ultimately have "refines f input a s (reset a1, s, Inl e)"
        using whole s1(4,5) by (intro refines_error)
      then show ?thesis using Inl long ne up1 by (simp add: feed_loop.simps [of f input a s])
    next
      case (Inr ht)
      obtain h tot where ht: "ht = (h, tot)" by fastforce
      obtain a2 input2 where up2: "top_up tot input1 a1 = (a2, input2)" by fastforce
      note sp = slow_path [OF part up1 long Inr [unfolded ht] up2]
      show ?thesis
      proof (cases "length (buffer a2) < tot")
        case True
        have "refines f input a s (a2, s, Inr ())"
          using True sp(1) [of "[]"] sp(3) sp(4) [symmetric] sp(5) [OF True] sp(6-8)
          by (intro refines_stop) (simp_all add: partial_message_def max_def split: if_splits)
        then show ?thesis using True Inr ht long ne up1 up2
          by (simp add: feed_loop.simps [of f input a s])
      next
        case False
        then have len: "length (buffer a2) = tot" using sp(2) by simp
        have dec: "decode_and_size (limits a) (buffer a @ input) = Inr (h, tot)"
          unfolding sp(4) by (rule sp(1))
        have span: "subspan kHeaderSize (unat (length' h)) (buffer a @ input) =
            subspan kHeaderSize (unat (length' h)) (buffer a2)"
          unfolding sp(4) using len decode_and_size_total [OF dec]
          by (intro subspan_append_left) (simp add: total_size_def)
        have "refines f input a s (feed_loop f input2 (a2\<lparr>buffer := []\<rparr>)
            (f h (subspan kHeaderSize (unat (length' h)) (buffer a2)) s))"
        proof (rule refines_continue [where input' = input2 and a' = "a2\<lparr>buffer := []\<rparr>", OF _ _ _ dec])
          show "input2 = drop tot (buffer a @ input)" "tot \<le> length (buffer a @ input)"
            unfolding sp(4) using len by simp_all
        qed (use IH [OF up1 long Inr [unfolded ht] up2 False] sp(3,6-8) in
            \<open>simp_all add: span max_def split: if_splits\<close>)
        then show ?thesis using False Inr ht long ne up1 up2
          by (simp add: feed_loop.simps [of f input a s])
      qed
    qed
  qed
qed

lemma feed_loop_refines:
  "partial_message (limits a) (buffer a) \<Longrightarrow> refines f input a s (feed_loop f input a s)"
proof (induction f input a s rule: feed_loop.induct)
  case (1 f input a s)
  show ?case
  proof (cases "buffer a = []")
    case True
    show ?thesis
    proof (rule fast_path_refines [OF True])
      fix h tot
      assume dec: "decode_and_size (limits a) input = Inr (h, tot)" and len: "tot \<le> length input"
      have long: "\<not> length input < kHeaderSize"
        using decode_header_length [of input h] decode_and_size_total [OF dec] by simp
      show "refines f (drop tot input) a (f h (subspan kHeaderSize (unat (length' h)) input) s)
          (feed_loop f (drop tot input) a (f h (subspan kHeaderSize (unat (length' h)) input) s))"
        using len "1.prems" by (intro "1.IH"(1) [OF True long dec refl]) simp_all
    qed
  next
    case False
    show ?thesis
      by (rule slow_path_refines [OF False "1.prems"])
        (rule "1.IH"(2) [OF False], (rule sym, assumption | simp)+)
  qed
qed

lemma assembler_inv_init: "assembler_inv (MessageAssembler l)"
  by (simp add: assembler_inv_def MessageAssembler_def)

lemma assembler_inv_reset: "assembler_inv a \<Longrightarrow> assembler_inv (reset a)"
  by (simp add: assembler_inv_def reset_def)

lemma feed_spec:
  assumes inv: "assembler_inv a" and run: "feed f input a s = (a', s', r)"
  shows "parse_stream (limits a) f (buffer a @ input) s = (buffer a', s', r)"
    and "assembler_inv a'" and "limits a' = limits a"
proof -
  let ?a = "a\<lparr>feeding := True\<rparr>"
  obtain b t q where loop: "feed_loop f input ?a s = (b, t, q)" by (cases "feed_loop f input ?a s")
  have "refines f input ?a s (b, t, q)"
    using feed_loop_refines [of ?a f input s] inv loop by (simp add: assembler_inv_def)
  moreover have "a' = b\<lparr>feeding := False\<rparr>" "s' = t" "r = q"
    using run loop inv by (auto simp: feed_def assembler_inv_def)
  ultimately show "parse_stream (limits a) f (buffer a @ input) s = (buffer a', s', r)"
    and "assembler_inv a'" and "limits a' = limits a"
    using inv by (auto simp: refines_def assembler_inv_def)
qed

text \<open>
  Splitting a stream: parsing \<open>x @ y\<close> is parsing \<open>x\<close>, then parsing what is left over
  followed by \<open>y\<close>.
\<close>

lemma parse_stream_append:
  "parse_stream l f (x @ y) s =
     (case parse_stream l f x s of
        (rest, s', Inl e) \<Rightarrow> ([], s', Inl e)
      | (rest, s', Inr _) \<Rightarrow> parse_stream l f (rest @ y) s')"
proof (induction l f x s rule: parse_stream.induct)
  case (1 l f x s)
  show ?case
  proof (cases "length x < kHeaderSize")
    case True
    then show ?thesis by (simp add: parse_stream.simps [of l f x s])
  next
    case long: False
    show ?thesis
    proof (cases "decode_and_size l x")
      case (Inl e)
      then show ?thesis using long
        by (simp add: parse_stream_error decode_and_size_append)
    next
      case (Inr ht)
      obtain h tot where ht: "ht = (h, tot)" by fastforce
      show ?thesis
      proof (cases "length x < tot")
        case True
        then show ?thesis using long Inr ht by (simp add: parse_stream.simps [of l f x s])
      next
        case False
        moreover have "kHeaderSize + unat (length' h) \<le> length x"
          using False decode_and_size_total [OF Inr [unfolded ht]] by (simp add: total_size_def)
        ultimately show ?thesis
          using long Inr ht "1.IH" [OF long Inr ht [symmetric] False]
          by (simp add: parse_stream_message decode_and_size_append subspan_append_left)
      qed
    qed
  qed
qed

lemma parse_stream_error_rest: "parse_stream l f x s = (rest, s', Inl e) \<Longrightarrow> rest = []"
proof (induction l f x s rule: parse_stream.induct)
  case (1 l f x s)
  show ?case
    using "1.prems" "1.IH"
    by (subst (asm) parse_stream.simps) (auto split: if_splits sum.splits)
qed

lemma feed_chunks_spec:
  assumes "assembler_inv a" and "feed_chunks f cs a s = (a', s', r)"
  shows "parse_stream (limits a) f (buffer a @ concat cs) s = (buffer a', s', r) \<and> assembler_inv a'"
  using assms
proof (induction cs arbitrary: a s)
  case Nil
  then show ?case by (auto simp: assembler_inv_def parse_stream_partial)
next
  case (Cons c cs)
  obtain b t q where fed: "feed f c a s = (b, t, q)" by (cases "feed f c a s")
  note sp = feed_spec [OF Cons.prems(1) fed]
  show ?case
  proof (cases q)
    case (Inl e)
    then show ?thesis
      using Cons.prems(2) fed sp parse_stream_error_rest [of "limits a" f "buffer a @ c" s]
        parse_stream_append [of "limits a" f "buffer a @ c" "concat cs" s] by auto
  next
    case (Inr u)
    then have "feed_chunks f cs b t = (a', s', r)" using Cons.prems(2) fed by simp
    from Cons.IH [OF sp(2) this] show ?thesis
      using sp(1,3) Inr parse_stream_append [of "limits a" f "buffer a @ c" "concat cs" s] by simp
  qed
qed

section \<open>Messages on the wire\<close>

definition wire :: "message \<Rightarrow> bytes" where
  "wire m = encode (fst m) @ snd m"

definition fits :: "limits \<Rightarrow> message \<Rightarrow> bool" where
  "fits l m \<longleftrightarrow> unat (length' (fst m)) = length (snd m) \<and> length' (fst m) \<le> max_payload l \<and>
     total_size (fst m) \<le> max_buffer l"

text \<open>The sink that records what it is given, in order.\<close>

definition collect :: "message list sink" where
  "collect h payload ms = ms @ [(h, payload)]"

lemma length_wire [wire_simps]: "fits l m \<Longrightarrow> length (wire m) = total_size (fst m)"
  by (simp add: wire_def fits_def total_size_def)

lemma decode_and_size_wire:
  "fits l m \<Longrightarrow> decode_and_size l (wire m @ rest) = Inr (fst m, total_size (fst m))"
  by (simp add: wire_def decode_and_size_def message_size_def fits_def not_less)

lemma parse_stream_wire:
  assumes "fits l m"
  shows "parse_stream l f (wire m @ rest) s = parse_stream l f rest (f (fst m) (snd m) s)"
proof -
  have "subspan kHeaderSize (unat (length' (fst m))) (wire m @ rest) = snd m"
    using assms by (simp add: wire_def subspan_def fits_def)
  then show ?thesis
    using parse_stream_message [OF decode_and_size_wire [OF assms, of rest]] length_wire [OF assms]
    by simp
qed

lemma parse_stream_wires:
  "\<forall>m\<in>set ms. fits l m \<Longrightarrow>
     parse_stream l f (concat (map wire ms)) s = ([], fold (\<lambda>m. f (fst m) (snd m)) ms s, Inr ())"
  by (induction ms arbitrary: s) (simp_all add: parse_stream_wire parse_stream_partial)

lemma fold_collect: "fold (\<lambda>m. collect (fst m) (snd m)) ms acc = acc @ ms"
  by (induction ms arbitrary: acc) (simp_all add: collect_def)

section \<open>Any sequence of calls\<close>

datatype assembler_op = OpFeed bytes | OpReset

fun run_ops :: "assembler_op list \<Rightarrow> assembler \<Rightarrow> message list \<Rightarrow> assembler \<times> message list" where
  "run_ops [] a ms = (a, ms)"
| "run_ops (OpFeed bs # ops) a ms =
     (case feed collect bs a ms of (a', ms', _) \<Rightarrow> run_ops ops a' ms')"
| "run_ops (OpReset # ops) a ms = run_ops ops (reset a) ms"

lemma run_ops_inv:
  "assembler_inv a \<Longrightarrow> assembler_inv (fst (run_ops ops a ms)) \<and>
     limits (fst (run_ops ops a ms)) = limits a"
proof (induction ops a ms rule: run_ops.induct)
  case (2 bs ops a ms)
  obtain a' ms' r where fed: "feed collect bs a ms = (a', ms', r)" by (cases "feed collect bs a ms")
  show ?case using "2.IH" [OF fed [symmetric] refl] feed_spec [OF "2.prems" fed] fed by simp
next
  case (3 ops a ms)
  then show ?case using assembler_inv_reset [of a] by (simp add: reset_def)
qed simp

lemma feed_wires:
  assumes "\<forall>m\<in>set ms. fits l m" and "concat chunks = concat (map wire ms)"
  shows "\<exists>a. feed_chunks collect chunks (MessageAssembler l) [] = (a, ms, Inr ()) \<and> buffer a = []"
proof -
  obtain a s' r where run: "feed_chunks collect chunks (MessageAssembler l) [] = (a, s', r)"
    by (cases "feed_chunks collect chunks (MessageAssembler l) []")
  have "parse_stream l collect (concat (map wire ms)) [] = (buffer a, s', r)"
    using feed_chunks_spec [OF assembler_inv_init run] assms(2) by (simp add: MessageAssembler_def)
  then show ?thesis
    using parse_stream_wires [OF assms(1), of collect "[]"] run by (simp add: fold_collect)
qed

section \<open>Properties\<close>

text \<open>
  C26. Fragmentation is irrelevant: feeding a stream in any sequence of chunks, to any sink,
  gives what splitting the whole stream gives - the same calls of the sink in the same order,
  the same error if there is one, and the same bytes held at the end.
\<close>

theorem feed_fragmentation:
  "(case feed_chunks on_message chunks (MessageAssembler l) s of (a, s', r) \<Rightarrow> (buffer a, s', r)) =
     parse_stream l on_message (concat chunks) s"
proof -
  obtain a s' r where run: "feed_chunks on_message chunks (MessageAssembler l) s = (a, s', r)"
    by (cases "feed_chunks on_message chunks (MessageAssembler l) s")
  show ?thesis
    using feed_chunks_spec [OF assembler_inv_init run] run by (simp add: MessageAssembler_def)
qed

text \<open>
  Messages survive the stream: if the chunks concatenate to the encodings of messages the
  limits admit, the assembler accepts them all, hands the sink exactly those messages in order,
  and is left holding nothing.
\<close>

theorem feed_delivers_messages:
  assumes "\<forall>m\<in>set ms. fits l m" and "concat chunks = concat (map wire ms)"
  shows "\<exists>a. feed_chunks collect chunks (MessageAssembler l) [] = (a, ms, Inr ()) \<and> buffer a = []"
  by (rule feed_wires [OF assms])

definition example_header :: header where
  "example_header = \<lparr>op = ReadResponse, version = V1, flags = 0, length' = 2, group = 0, seq = 7,
     command = 5\<rparr>"

theorem feed_delivers_messages_witness:
  "\<exists>a. feed_chunks collect [[1, 0, 0], [2, 0, 0, 7, 5, 0xA1], [0xFF]] (MessageAssembler default_limits) []
     = (a, [(example_header, [0xA1, 0xFF])], Inr ()) \<and> buffer a = []"
  using feed_delivers_messages [of "[(example_header, [0xA1, 0xFF])]" default_limits
      "[[1, 0, 0], [2, 0, 0, 7, 5, 0xA1], [0xFF]]"]
  by (simp add: example_header_def fits_def wire_def default_limits_def kMaxSmpPayload_def
      kMaxAssemblyBuffer_def total_size_def kHeaderSize_def encode_eq byte0_of_def high_byte_def
      low_byte_def)

text \<open>
  What a device can make the assembler hold is bounded, whatever it sends and however
  calls and resets interleave: between calls it holds a proper prefix of one message that
  passed the limits, and the high-water mark never passes the buffer limit (or the eight
  header bytes, should the limit be configured below them).
\<close>

theorem assembler_bounded:
  fixes ops :: "assembler_op list" and l :: limits
  defines "a \<equiv> fst (run_ops ops (MessageAssembler l) [])"
  shows "partial_message l (buffer a) \<and> length (buffer a) \<le> max kHeaderSize (max_buffer l) \<and>
    peak_buffered a \<le> max kHeaderSize (max_buffer l) \<and> \<not> feeding a"
  using run_ops_inv [OF assembler_inv_init, of ops l "[]"] partial_message_bound
  by (auto simp: a_def assembler_inv_def MessageAssembler_def)

end
