(* ===== verification/Retired.thy ===== *)
theory Retired
  imports Prelude "HOL-Library.Multiset"
begin

text \<open>
  The set of recently retired sequence numbers of \<open>src/smp/client.cpp\<close> (\<open>retired_flags_\<close>,
  \<open>retired_ring_\<close>, \<open>retired_head_\<close>, \<open>is_retired\<close>, \<open>retire\<close>), and the interface the client
  relies on: a window of the last numbers retired. The locale \<open>seq_window\<close> states the
  interface, the ring with its flags is the implementation that interprets it.
\<close>

section \<open>The ring\<close>

record retired =
  retired_flags :: "u8 \<Rightarrow> bool"
  retired_ring :: "u8 list"
  retired_head :: nat

definition no_retired :: retired where
  "no_retired = \<lparr>retired_flags = (\<lambda>_. False), retired_ring = [], retired_head = 0\<rparr>"

definition is_retired :: "u8 \<Rightarrow> retired \<Rightarrow> bool" where
  "is_retired seq r = retired_flags r seq"

definition retire :: "u8 \<Rightarrow> u8 \<Rightarrow> retired \<Rightarrow> retired" where
  "retire max_retired_seqs seq r =
     (if max_retired_seqs = 0 then r
      else if retired_flags r seq then r
      else if length (retired_ring r) = unat max_retired_seqs then
        r\<lparr>retired_flags := (retired_flags r)(retired_ring r ! retired_head r := False, seq := True),
          retired_ring := (retired_ring r)[retired_head r := seq],
          retired_head := (retired_head r + 1) mod length (retired_ring r)\<rparr>
      else r\<lparr>retired_ring := retired_ring r @ [seq], retired_flags := (retired_flags r)(seq := True)\<rparr>)"

text \<open>The window, oldest first, and the invariant that ties flags, ring and head together.\<close>

definition window :: "retired \<Rightarrow> u8 list" where
  "window r = drop (retired_head r) (retired_ring r) @ take (retired_head r) (retired_ring r)"

definition retired_inv :: "u8 \<Rightarrow> retired \<Rightarrow> bool" where
  "retired_inv cap r \<longleftrightarrow> distinct (retired_ring r) \<and> (\<forall>s. retired_flags r s \<longleftrightarrow> s \<in> set (retired_ring r)) \<and>
     length (retired_ring r) \<le> unat cap \<and> (length (retired_ring r) < unat cap \<longrightarrow> retired_head r = 0) \<and>
     (retired_ring r \<noteq> [] \<longrightarrow> retired_head r < length (retired_ring r))"

section \<open>The interface\<close>

text \<open>
  What the client needs: membership is membership in the window, retiring a number puts it at
  the newest end, and the oldest leaves only when the window is full.
\<close>

locale seq_window =
  fixes member :: "u8 \<Rightarrow> 'r \<Rightarrow> bool" and add :: "u8 \<Rightarrow> 'r \<Rightarrow> 'r"
    and contents :: "'r \<Rightarrow> u8 list" and ok :: "'r \<Rightarrow> bool" and cap :: nat
  assumes member_contents: "ok r \<Longrightarrow> member s r \<longleftrightarrow> s \<in> set (contents r)"
    and add_ok: "ok r \<Longrightarrow> ok (add s r)"
    and contents_add: "ok r \<Longrightarrow> contents (add s r) =
      (if cap = 0 \<or> s \<in> set (contents r) then contents r
       else if length (contents r) = cap then tl (contents r) @ [s] else contents r @ [s])"
    and contents_distinct: "ok r \<Longrightarrow> distinct (contents r)"
    and contents_bound: "ok r \<Longrightarrow> length (contents r) \<le> cap"
begin

lemma add_member: "ok r \<Longrightarrow> 0 < cap \<Longrightarrow> member s (add s r)"
  using member_contents [OF add_ok] contents_add by auto

lemma add_member_other: "ok r \<Longrightarrow> member t (add s r) \<Longrightarrow> member t r \<or> t = s"
  using member_contents [OF add_ok] contents_add member_contents
  by (auto split: if_splits dest: list.set_sel(2) [rotated])

lemma card_members: "ok r \<Longrightarrow> card {s. member s r} \<le> cap"
  using member_contents contents_distinct contents_bound by (simp add: distinct_card)

text \<open>A number in the window is still there after as many further retirements as there are
  numbers older than it, or free places.\<close>

lemma position_add:
  assumes "ok r" and "contents r = xs @ s # ys" and "xs \<noteq> [] \<or> length (contents r) < cap"
  shows "\<exists>xs' ys'. contents (add t r) = xs' @ s # ys' \<and> length ys' \<le> Suc (length ys)"
proof (cases "cap = 0 \<or> t \<in> set (contents r)")
  case True
  then have "contents (add t r) = xs @ s # ys"
    using contents_add [OF assms(1), of t] assms(2) by auto
  then show ?thesis by (intro exI [of _ xs] exI [of _ ys]) simp
next
  case new: False
  define zs where "zs = (if length (contents r) = cap then tl xs else xs)"
  have "xs \<noteq> []" if "length (contents r) = cap" using assms(3) that by simp
  then have "contents (add t r) = zs @ s # ys @ [t]"
    using contents_add [OF assms(1), of t] new assms(2) by (simp add: zs_def)
  then show ?thesis by (intro exI [of _ zs] exI [of _ "ys @ [t]"]) simp
qed

lemma remembered:
  assumes "ok r" and "contents r = xs @ s # ys" and "length ts < cap - length ys"
  shows "member s (fold add ts r)"
  using assms
proof (induction ts arbitrary: r xs ys)
  case Nil
  then show ?case using member_contents by simp
next
  case (Cons t ts)
  have "xs \<noteq> [] \<or> length (contents r) < cap" using Cons.prems by auto
  then obtain xs' ys' where pos: "contents (add t r) = xs' @ s # ys'"
    and le: "length ys' \<le> Suc (length ys)"
    using position_add [OF Cons.prems(1,2)] by blast
  have "length ts < cap - length ys'" using Cons.prems(3) le by simp
  then show ?case using Cons.IH [OF add_ok [OF Cons.prems(1)] pos] by simp
qed

end

section \<open>The ring implements it\<close>

lemma no_retired_inv [simp]: "retired_inv cap no_retired"
  by (simp add: retired_inv_def no_retired_def)

lemma window_mset: "mset (window r) = mset (retired_ring r)"
proof -
  have "mset (window r) = mset (take (retired_head r) (retired_ring r)) + mset (drop (retired_head r) (retired_ring r))"
    by (simp add: window_def)
  also have "\<dots> = mset (retired_ring r)" by (metis append_take_drop_id mset_append)
  finally show ?thesis .
qed

lemma window_simps: "set (window r) = set (retired_ring r)" "distinct (window r) = distinct (retired_ring r)"
  "length (window r) = length (retired_ring r)"
  using window_mset [of r] by (metis mset_eq_setD, metis mset_eq_imp_distinct_iff, metis mset_eq_length)

lemma window_replace:
  assumes "i < length xs"
  shows "drop (Suc i mod length xs) (xs[i := x]) @ take (Suc i mod length xs) (xs[i := x]) =
    tl (drop i xs @ take i xs) @ [x]"
proof (cases "Suc i < length xs")
  case True
  then have "drop i xs = xs ! i # drop (Suc i) xs" by (simp add: Cons_nth_drop_Suc)
  then show ?thesis using True by (simp add: drop_update_cancel take_Suc_conv_app_nth take_update_cancel)
next
  case False
  then have i: "Suc i = length xs" using assms by simp
  then have "drop i xs = [xs ! i]"
    using assms by (metis Cons_nth_drop_Suc drop_all order_refl)
  then show ?thesis
    using i assms by (simp add: upd_conv_take_nth_drop)
qed

lemma retire_spec:
  assumes "retired_inv cap r"
  shows "retired_inv cap (retire cap s r)"
    and "window (retire cap s r) =
      (if unat cap = 0 \<or> s \<in> set (window r) then window r
       else if length (window r) = unat cap then tl (window r) @ [s] else window r @ [s])"
proof -
  have cap0: "cap = 0 \<longleftrightarrow> unat cap = 0" by (simp add: unat_eq_0)
  have hd: "length (retired_ring r) = unat cap \<Longrightarrow> cap \<noteq> 0 \<Longrightarrow> retired_head r < length (retired_ring r)"
    using assms by (auto simp: retired_inv_def unat_eq_0)
  have upd: "length (retired_ring r) = unat cap \<Longrightarrow> cap \<noteq> 0 \<Longrightarrow> distinct (retired_ring r) \<Longrightarrow>
      set ((retired_ring r)[retired_head r := s]) = insert s (set (retired_ring r) - {retired_ring r ! retired_head r})"
    using hd by (simp add: set_update_distinct)
  show "retired_inv cap (retire cap s r)"
    using assms hd upd unfolding retire_def
    by (auto simp: retired_inv_def distinct_list_update)
  show "window (retire cap s r) =
      (if unat cap = 0 \<or> s \<in> set (window r) then window r
       else if length (window r) = unat cap then tl (window r) @ [s] else window r @ [s])"
    using assms hd window_replace [of "retired_head r" "retired_ring r" s] unfolding window_simps
    by (auto simp: retire_def cap0 retired_inv_def window_def)
qed

interpretation rw: seq_window is_retired "retire cap" window "retired_inv cap" "unat cap"
  for cap :: u8
proof unfold_locales
  fix r s
  assume inv: "retired_inv cap r"
  then show "is_retired s r \<longleftrightarrow> s \<in> set (window r)"
    by (simp add: is_retired_def window_simps retired_inv_def)
  show "retired_inv cap (retire cap s r)"
    "window (retire cap s r) =
      (if unat cap = 0 \<or> s \<in> set (window r) then window r
       else if length (window r) = unat cap then tl (window r) @ [s] else window r @ [s])"
    using retire_spec [OF inv] by auto
  show "distinct (window r)" "length (window r) \<le> unat cap"
    using inv by (simp_all add: window_simps retired_inv_def)
qed

section \<open>Properties\<close>

text \<open>
  A retired sequence number stays retired until the set's capacity of other numbers has been
  retired after it: right after \<open>retire\<close>, and after fewer than \<open>max_retired_seqs\<close> further
  retirements of any numbers, \<open>is_retired\<close> still answers true; and the set never holds more
  than its capacity.
\<close>

theorem retired_remembered:
  assumes "retired_inv cap r" and "\<not> is_retired s r" and "length ts < unat cap"
  shows "is_retired s (fold (retire cap) ts (retire cap s r)) \<and>
    card {t. is_retired t (fold (retire cap) ts (retire cap s r))} \<le> unat cap"
proof -
  have ok: "retired_inv cap (retire cap s r)" using rw.add_ok [OF assms(1)] .
  have "s \<notin> set (window r)" "unat cap \<noteq> 0"
    using rw.member_contents [OF assms(1)] assms(2,3) by auto
  then obtain xs where "window (retire cap s r) = xs @ s # []"
    using rw.contents_add [OF assms(1), of s] by (cases "length (window r) = unat cap") auto
  then have "is_retired s (fold (retire cap) ts (retire cap s r))"
    using rw.remembered [OF ok] assms(3) by simp
  moreover have "retired_inv cap (fold (retire cap) ts q)" if "retired_inv cap q" for q
    using that rw.add_ok by (induction ts arbitrary: q) auto
  ultimately show ?thesis using rw.card_members ok by blast
qed

theorem retired_remembered_witness:
  "is_retired 7 (fold (retire 3) [8, 9] (retire 3 7 no_retired))"
proof -
  have "\<not> is_retired 7 no_retired" by (simp add: is_retired_def no_retired_def)
  then show ?thesis using retired_remembered [OF no_retired_inv, of 7 "[8, 9]" 3] by simp
qed

end
