(* ===== verification/SmpClient.thy ===== *)
theory SmpClient
  imports Assembler Retired
begin

text \<open>
  The request lifecycle of \<open>src/smp/client.cpp\<close> (\<open>include/smply/smp_client.hpp\<close>): the
  table of outstanding requests, sequence numbers, correlation of responses, time-outs,
  cancellation, deferred work and the loss of the link.

  Callbacks and queued work are named by numbers, \<open>None\<close> standing for an empty
  \<open>std::function\<close>. What the application does inside the n-th callback or work item is a
  parameter of the model, \<open>react\<close>: any list of requests, cancellations and deferrals, the
  calls the header allows from a callback. The results of \<open>Transport::send\<close>, the readings of
  the clock and the decoder of the device's error report (\<open>cbor::extract_mgmt_error\<close>, a QCBOR
  client) are parameters as well. A \<open>trace\<close> records what the application and the transport can
  see: the requests made and sent, the callbacks invoked, in order. It is a ghost: no operation
  reads it. Generations and counters are 64 bits wide in the source and natural numbers here.
\<close>

section \<open>Data\<close>

record client_config =
  smp_version :: version
  default_timeout :: duration
  max_smp_payload :: u16
  max_assembly_bytes :: nat
  max_in_flight :: u8
  max_retired_seqs :: u8

text \<open>A handle names a slot of the table and the generation that occupied it.\<close>

record request_handle =
  handle_slot :: nat
  handle_generation :: nat

definition no_handle :: request_handle where
  "no_handle = \<lparr>handle_slot = 0, handle_generation = 0\<rparr>"

definition handle_valid :: "request_handle \<Rightarrow> bool" where
  "handle_valid h \<longleftrightarrow> handle_generation h \<noteq> 0"

type_synonym callback = "nat option"
type_synonym raw_response = "header \<times> bytes"

record request_spec =
  spec_op :: operation
  spec_group :: group
  spec_command :: u8
  spec_payload :: bytes
  spec_timeout :: "duration option"

record pending =
  active :: bool
  generation :: nat
  pending_seq :: u8
  pending_group :: group
  pending_command :: u8
  expected_op :: operation
  deadline :: time_point
  callback :: callback

definition empty_slot :: pending where
  "empty_slot = \<lparr>active = False, generation = 0, pending_seq = 0, pending_group = 0,
     pending_command = 0, expected_op = Read, deadline = 0, callback = None\<rparr>"

record client_stats =
  stat_sent :: nat
  stat_received :: nat
  stat_unmatched :: nat
  stat_late :: nat
  stat_mismatched :: nat
  stat_timeouts :: nat
  stat_cancelled :: nat
  stat_malformed :: nat

definition no_stats :: client_stats where
  "no_stats = \<lparr>stat_sent = 0, stat_received = 0, stat_unmatched = 0, stat_late = 0,
     stat_mismatched = 0, stat_timeouts = 0, stat_cancelled = 0, stat_malformed = 0\<rparr>"

text \<open>
  A closure in \<open>deferred_\<close>: the one \<open>defer\<close> builds around a callback and an error, or
  work of the application.
\<close>

datatype deferred_item = Completion nat error | Work nat

text \<open>What can be seen from outside, in order.\<close>

datatype event =
    Requested nat
  | Sent nat request_spec u8
  | Called nat "raw_response result"
  | Queued nat
  | Ran nat

record client =
  config :: client_config
  assembler :: assembler
  pending :: "pending list"
  deferred :: "deferred_item list"
  retired :: retired
  next_seq :: u8
  next_generation :: nat
  connected :: bool
  last_transport_error :: "error option"
  stats :: client_stats

text \<open>
  The client with what surrounds it: the trace, the frames handed to the transport, and how
  many callbacks have run, which tells the application's reactions apart.
\<close>

record world = client +
  trace :: "event list"
  frames :: "bytes list"
  calls :: nat

record mgmt_outcome =
  outcome_error :: "mgmt_error option"
  outcome_reason :: string

datatype api_call =
    Call_request request_spec callback
  | Call_cancel request_handle
  | Call_defer callback

record env =
  react :: "nat \<Rightarrow> api_call list"
  send_result :: "nat \<Rightarrow> unit result"
  clock_now :: "nat \<Rightarrow> time_point"
  extract_mgmt_error :: "bytes \<Rightarrow> mgmt_outcome result"

definition SmpClient :: "client_config \<Rightarrow> world" where
  "SmpClient cfg = \<lparr>config = cfg,
     assembler = MessageAssembler
       \<lparr>max_payload = max_smp_payload cfg, max_buffer = max_assembly_bytes cfg\<rparr>,
     pending = replicate (max 1 (unat (max_in_flight cfg))) empty_slot,
     deferred = [], retired = no_retired, next_seq = 0, next_generation = 1, connected = True,
     last_transport_error = None, stats = no_stats, trace = [], frames = [], calls = 0\<rparr>"

section \<open>The table\<close>

text \<open>The loops over the slots return the first slot that satisfies the condition.\<close>

definition first_slot :: "(pending \<Rightarrow> bool) \<Rightarrow> pending list \<Rightarrow> nat option" where
  "first_slot P ps = find (\<lambda>i. P (ps ! i)) [0..<length ps]"

definition find_by_seq :: "u8 \<Rightarrow> world \<Rightarrow> nat option" where
  "find_by_seq s w = first_slot (\<lambda>e. active e \<and> pending_seq e = s) (pending w)"

definition free_slot :: "world \<Rightarrow> nat option" where
  "free_slot w = first_slot (\<lambda>e. \<not> active e) (pending w)"

definition resolve :: "request_handle \<Rightarrow> world \<Rightarrow> nat option" where
  "resolve h w =
     (if \<not> handle_valid h \<or> handle_slot h \<ge> length (pending w) then None
      else let e = pending w ! handle_slot h in
        if \<not> active e \<or> generation e \<noteq> handle_generation h then None
        else Some (handle_slot h))"

definition seq_free :: "world \<Rightarrow> u8 \<Rightarrow> bool" where
  "seq_free w candidate \<longleftrightarrow> find_by_seq candidate w = None \<and> \<not> is_retired candidate (retired w)"

definition allocate_seq :: "world \<Rightarrow> (u8 \<times> world) option" where
  "allocate_seq w =
     (case find (seq_free w) (map (\<lambda>attempt. next_seq w + of_nat attempt) [0..<256]) of
        None \<Rightarrow> None
      | Some candidate \<Rightarrow> Some (candidate, w\<lparr>next_seq := candidate + 1\<rparr>))"

definition retire_seq :: "u8 \<Rightarrow> world \<Rightarrow> world" where
  "retire_seq s w = w\<lparr>retired := retire (max_retired_seqs (config w)) s (retired w)\<rparr>"

definition emit :: "event \<Rightarrow> world \<Rightarrow> world" where
  "emit e w = w\<lparr>trace := trace w @ [e]\<rparr>"

section \<open>Issuing, cancelling, deferring\<close>

definition defer_work :: "callback \<Rightarrow> world \<Rightarrow> world" where
  "defer_work work w =
     (case work of
        None \<Rightarrow> w
      | Some k \<Rightarrow> emit (Queued k) (w\<lparr>deferred := deferred w @ [Work k]\<rparr>))"

definition defer_callback :: "callback \<Rightarrow> error \<Rightarrow> world \<Rightarrow> request_handle \<times> world" where
  "defer_callback cb e w =
     (no_handle,
      case cb of None \<Rightarrow> w | Some k \<Rightarrow> w\<lparr>deferred := deferred w @ [Completion k e]\<rparr>)"

definition request_header :: "client_config \<Rightarrow> request_spec \<Rightarrow> u8 \<Rightarrow> header" where
  "request_header cfg spec s =
     \<lparr>op = spec_op spec, version = smp_version cfg, flags = 0,
      length' = of_nat (length (spec_payload spec)), group = spec_group spec, seq = s,
      command = spec_command spec\<rparr>"

text \<open>The entry a sent request gets.\<close>

definition new_entry ::
    "client_config \<Rightarrow> request_spec \<Rightarrow> callback \<Rightarrow> u8 \<Rightarrow> nat \<Rightarrow> time_point \<Rightarrow> pending" where
  "new_entry cfg spec cb s g now =
     \<lparr>active = True, generation = g, pending_seq = s, pending_group = spec_group spec,
      pending_command = spec_command spec, expected_op = response_to (spec_op spec),
      deadline = now + (case spec_timeout spec of None \<Rightarrow> default_timeout cfg | Some t \<Rightarrow> t),
      callback = cb\<rparr>"

text \<open>The part of \<open>request\<close> after a slot and a number have been found.\<close>

definition send_request ::
    "env \<Rightarrow> request_spec \<Rightarrow> callback \<Rightarrow> nat \<Rightarrow> u8 \<Rightarrow> world \<Rightarrow> request_handle \<times> world" where
  "send_request env spec cb slot s w =
     (let frame = encode (request_header (config w) spec s) @ spec_payload spec;
          n = length (frames w);
          w1 = w\<lparr>frames := frames w @ [frame]\<rparr>
      in case send_result env n of
           Inl e \<Rightarrow> defer_callback cb e (retire_seq s w1)
         | Inr _ \<Rightarrow>
             let g = next_generation w1;
                 entry = new_entry (config w1) spec cb s g (clock_now env n);
                 w2 = w1\<lparr>next_generation := g + 1, pending := (pending w1)[slot := entry],
                         stats := (stats w1)\<lparr>stat_sent := stat_sent (stats w1) + 1\<rparr>\<rparr>
             in (\<lparr>handle_slot = slot, handle_generation = g\<rparr>,
                 case cb of None \<Rightarrow> w2 | Some k \<Rightarrow> emit (Sent k spec s) w2))"

definition request :: "env \<Rightarrow> request_spec \<Rightarrow> callback \<Rightarrow> world \<Rightarrow> request_handle \<times> world" where
  "request env spec cb w0 =
     (let w = (case cb of None \<Rightarrow> w0 | Some k \<Rightarrow> emit (Requested k) w0) in
      if \<not> connected w then
        defer_callback cb (Error Disconnected ''smp client: link is down'') w
      else if length (spec_payload spec) > unat (max_smp_payload (config w)) then
        defer_callback cb (Error MessageTooLarge ''smp client: payload exceeds limit'') w
      else case free_slot w of
        None \<Rightarrow> defer_callback cb (Error InvalidState ''smp client: too many requests in flight'') w
      | Some slot \<Rightarrow>
          (case allocate_seq w of
             None \<Rightarrow> defer_callback cb (Error InvalidState ''smp client: no free sequence number'') w
           | Some (s, w1) \<Rightarrow> send_request env spec cb slot s w1))"

definition detach :: "nat \<Rightarrow> world \<Rightarrow> callback \<times> world" where
  "detach slot w =
     (let e = pending w ! slot in
      (callback e, retire_seq (pending_seq e)
         (w\<lparr>pending := (pending w)[slot := e\<lparr>callback := None, active := False\<rparr>]\<rparr>)))"

definition cancel :: "request_handle \<Rightarrow> world \<Rightarrow> world" where
  "cancel h w =
     (case resolve h w of
        None \<Rightarrow> w
      | Some slot \<Rightarrow>
          let w1 = w\<lparr>stats := (stats w)\<lparr>stat_cancelled := stat_cancelled (stats w) + 1\<rparr>\<rparr>;
              (cb, w2) = detach slot w1
          in snd (defer_callback cb (Error Cancelled ''smp client: cancelled'') w2))"

section \<open>Running callbacks\<close>

text \<open>What a callback does with the client.\<close>

fun api_step :: "env \<Rightarrow> api_call \<Rightarrow> world \<Rightarrow> world" where
  "api_step env (Call_request spec cb) w = snd (request env spec cb w)"
| "api_step env (Call_cancel h) w = cancel h w"
| "api_step env (Call_defer work) w = defer_work work w"

definition reaction :: "env \<Rightarrow> event \<Rightarrow> world \<Rightarrow> world" where
  "reaction env e w =
     fold (api_step env) (react env (calls w)) ((emit e w)\<lparr>calls := calls w + 1\<rparr>)"

definition invoke :: "env \<Rightarrow> callback \<Rightarrow> raw_response result \<Rightarrow> world \<Rightarrow> world" where
  "invoke env cb res w = (case cb of None \<Rightarrow> w | Some k \<Rightarrow> reaction env (Called k res) w)"

definition complete :: "env \<Rightarrow> nat \<Rightarrow> raw_response result \<Rightarrow> world \<Rightarrow> world" where
  "complete env slot res w = (case detach slot w of (cb, w1) \<Rightarrow> invoke env cb res w1)"

definition fail_all :: "env \<Rightarrow> error \<Rightarrow> world \<Rightarrow> world" where
  "fail_all env e w =
     fold (\<lambda>slot w. if active (pending w ! slot) then complete env slot (Inl e) w else w)
       [0..<length (pending w)] w"

fun run_item :: "env \<Rightarrow> deferred_item \<Rightarrow> world \<Rightarrow> world" where
  "run_item env (Completion k e) w = reaction env (Called k (Inl e)) w"
| "run_item env (Work k) w = reaction env (Ran k) w"

text \<open>The loop may run for ever if callbacks keep deferring work.\<close>

partial_function (option) deliver_deferred :: "env \<Rightarrow> world \<Rightarrow> world option" where
  "deliver_deferred env w =
     (if deferred w = [] then Some w
      else deliver_deferred env (fold (run_item env) (deferred w) (w\<lparr>deferred := []\<rparr>)))"

declare deliver_deferred.simps [code]

section \<open>Driving\<close>

definition expired :: "time_point \<Rightarrow> world \<Rightarrow> request_handle list" where
  "expired now w =
     map (\<lambda>slot. \<lparr>handle_slot = slot, handle_generation = generation (pending w ! slot)\<rparr>)
       (filter (\<lambda>slot. active (pending w ! slot) \<and> deadline (pending w ! slot) \<le> now)
         [0..<length (pending w)])"

definition expire :: "env \<Rightarrow> request_handle \<Rightarrow> world \<Rightarrow> world" where
  "expire env h w =
     (case resolve h w of
        None \<Rightarrow> w
      | Some slot \<Rightarrow>
          complete env slot (fail Timeout ''smp client: no response'')
            (w\<lparr>stats := (stats w)\<lparr>stat_timeouts := stat_timeouts (stats w) + 1\<rparr>\<rparr>))"

definition poll :: "env \<Rightarrow> time_point \<Rightarrow> world \<Rightarrow> world option" where
  "poll env now w =
     (case deliver_deferred env w of
        None \<Rightarrow> None
      | Some w1 \<Rightarrow> deliver_deferred env (fold (expire env) (expired now w1) w1))"

text \<open>\<open>None\<close> of the outer option: nothing outstanding. \<open>Ready\<close> is \<open>TimePoint::min()\<close>.\<close>

datatype wakeup = Ready | At time_point

definition earlier :: "pending \<Rightarrow> time_point option \<Rightarrow> time_point option" where
  "earlier e best =
     (if active e \<and> (case best of None \<Rightarrow> True | Some t \<Rightarrow> deadline e < t) then Some (deadline e)
      else best)"

definition next_deadline :: "world \<Rightarrow> wakeup option" where
  "next_deadline w =
     (if deferred w \<noteq> [] then Some Ready else map_option At (fold earlier (pending w) None))"

definition in_flight :: "world \<Rightarrow> nat" where
  "in_flight w = length (filter active (pending w))"

text \<open>
  Binding another transport: the frames and results of \<open>send\<close> go on being numbered through.
\<close>

definition rebind_transport :: "env \<Rightarrow> world \<Rightarrow> world" where
  "rebind_transport env w =
     (let w1 = fail_all env (Error Disconnected ''smp client: transport rebound'') w
      in w1\<lparr>assembler := Assembler.reset (assembler w1), connected := True\<rparr>)"

definition shutdown :: "env \<Rightarrow> world \<Rightarrow> world option" where
  "shutdown env w =
     (case deliver_deferred env w of
        None \<Rightarrow> None
      | Some w1 \<Rightarrow>
          deliver_deferred env (fail_all env (Error Cancelled ''smp client: destroyed'') w1))"

section \<open>Transport callbacks\<close>

definition interpret_response :: "env \<Rightarrow> header \<Rightarrow> bytes \<Rightarrow> raw_response result" where
  "interpret_response env h payload =
     (if is_user_defined (group h) then Inr (h, payload)
      else case extract_mgmt_error env payload of
        Inl e \<Rightarrow> Inl e
      | Inr out \<Rightarrow>
          (case outcome_error out of
             None \<Rightarrow> Inr (h, payload)
           | Some m \<Rightarrow>
               let e = Error_mgmt ProtocolError m ''smp client'' in
               Inl (if outcome_reason out = [] then e else e\<lparr>reason := outcome_reason out\<rparr>)))"

definition on_message :: "env \<Rightarrow> header \<Rightarrow> bytes \<Rightarrow> world \<Rightarrow> world" where
  "on_message env h payload w0 =
     (let st = (stats w0)\<lparr>stat_received := stat_received (stats w0) + 1\<rparr>;
          w = w0\<lparr>stats := st\<rparr>
      in case find_by_seq (seq h) w of
           None \<Rightarrow>
             if is_retired (seq h) (retired w)
             then w\<lparr>stats := st\<lparr>stat_late := stat_late st + 1\<rparr>\<rparr>
             else w\<lparr>stats := st\<lparr>stat_unmatched := stat_unmatched st + 1\<rparr>\<rparr>
         | Some slot \<Rightarrow>
             let e = pending w ! slot in
             if group h \<noteq> pending_group e \<or> command h \<noteq> pending_command e \<or> op h \<noteq> expected_op e
             then w\<lparr>stats := st\<lparr>stat_mismatched := stat_mismatched st + 1\<rparr>\<rparr>
             else complete env slot (interpret_response env h payload) w)"

definition on_bytes :: "env \<Rightarrow> bytes \<Rightarrow> world \<Rightarrow> world" where
  "on_bytes env bs w =
     (case feed (on_message env) bs (assembler w) w of
        (a, w1, Inr _) \<Rightarrow> w1\<lparr>assembler := a\<rparr>
      | (a, w1, Inl e) \<Rightarrow>
          fail_all env e
            (w1\<lparr>assembler := a,
                stats := (stats w1)\<lparr>stat_malformed := stat_malformed (stats w1) + 1\<rparr>\<rparr>))"

definition on_transport_error :: "error \<Rightarrow> world \<Rightarrow> world" where
  "on_transport_error e w = w\<lparr>last_transport_error := Some e\<rparr>"

definition on_disconnected :: "env \<Rightarrow> error \<Rightarrow> world \<Rightarrow> world" where
  "on_disconnected env e w =
     fail_all env e (w\<lparr>connected := False, assembler := Assembler.reset (assembler w)\<rparr>)"

section \<open>Runs\<close>

text \<open>Everything that can be done to a client between its construction and destruction.\<close>

datatype client_op =
    Api api_call
  | Poll time_point
  | Bytes bytes
  | Transport_error error
  | Link_lost error
  | Rebind

fun client_step :: "env \<Rightarrow> client_op \<Rightarrow> world \<Rightarrow> world option" where
  "client_step env (Api c) w = Some (api_step env c w)"
| "client_step env (Poll now) w = poll env now w"
| "client_step env (Bytes bs) w = Some (on_bytes env bs w)"
| "client_step env (Transport_error e) w = Some (on_transport_error e w)"
| "client_step env (Link_lost e) w = Some (on_disconnected env e w)"
| "client_step env Rebind w = Some (rebind_transport env w)"

fun client_run :: "env \<Rightarrow> client_op list \<Rightarrow> world \<Rightarrow> world option" where
  "client_run env [] w = Some w"
| "client_run env (x # xs) w =
     (case client_step env x w of None \<Rightarrow> None | Some w' \<Rightarrow> client_run env xs w')"

end
