(* ===== verification/ClientInvariant.thy ===== *)
theory ClientInvariant
  imports SmpClient
begin

text \<open>
  The library of the client's proofs. A property of the client's world that the primitive
  changes keep - issuing, cancelling, deferring, taking an entry out of the table and calling
  its callback, starting a deferred item - is kept by every operation, whatever callbacks do in
  turn. The locale \<open>client_property\<close> states this once; the interpretations below instantiate
  it with the invariant of the table, the account of the callbacks, the correlation of answers
  with requests, and the staleness of a handle.
\<close>

section \<open>Generic lemmas\<close>

lemma feed_loop_keeps:
  "I s \<Longrightarrow> (\<And>h p s. I s \<Longrightarrow> I (f h p s)) \<Longrightarrow> I (fst (snd (feed_loop f input a s)))"
proof (induction f input a s rule: feed_loop.induct)
  case (1 f input a s)
  show ?case
  proof (cases "buffer a = []")
    case True
    show ?thesis
      using "1.prems" by (subst feed_loop.simps)
        (simp add: True "1.IH"(1) [OF True _ _ refl] split: sum.splits prod.splits)
  next
    case False
    show ?thesis
      using "1.prems" by (subst feed_loop.simps)
        (simp add: False "1.IH"(2) [OF False sym _ _ refl sym] split: sum.splits prod.splits)
  qed
qed

lemma feed_keeps:
  assumes "feed f input a s = (a', s', r)" and "I s" and "\<And>h p s. I s \<Longrightarrow> I (f h p s)"
  shows "I s'"
  using assms feed_loop_keeps [of I s f input "a\<lparr>feeding := True\<rparr>"]
  by (auto simp: feed_def split: if_splits prod.splits)

lemma first_slot_Some: "first_slot P ps = Some i \<Longrightarrow> i < length ps \<and> P (ps ! i)"
  by (auto simp: first_slot_def find_Some_iff)

lemma first_slot_None: "first_slot P ps = None \<longleftrightarrow> (\<forall>e\<in>set ps. \<not> P e)"
  by (auto simp: first_slot_def find_None_iff all_set_conv_all_nth)

lemma sum_list_list_update:
  fixes xs :: "'a::cancel_comm_monoid_add list"
  shows "i < length xs \<Longrightarrow> sum_list (xs[i := x]) + xs ! i = sum_list xs + x"
  by (induction xs arbitrary: i) (auto simp: nth_Cons' ac_simps split: nat.splits)

section \<open>The primitive changes\<close>

text \<open>Taking an entry out of the table and starting its callback, up to the application's
  reaction to it.\<close>

definition started :: "event \<Rightarrow> world \<Rightarrow> world" where
  "started e w = (emit e w)\<lparr>calls := calls w + 1\<rparr>"

definition finish :: "nat \<Rightarrow> raw_response result \<Rightarrow> world \<Rightarrow> world" where
  "finish slot res w =
     (case detach slot w of (None, w1) \<Rightarrow> w1 | (Some k, w1) \<Rightarrow> started (Called k res) w1)"

fun item_event :: "deferred_item \<Rightarrow> event" where
  "item_event (Completion k e) = Called k (Inl e)"
| "item_event (Work k) = Ran k"

text \<open>A result an entry may be completed with: an error, or the answer to its request.\<close>

fun answers :: "pending \<Rightarrow> raw_response result \<Rightarrow> bool" where
  "answers e (Inl _) = True"
| "answers e (Inr (h, _)) \<longleftrightarrow> seq h = pending_seq e \<and> group h = pending_group e \<and>
     command h = pending_command e \<and> op h = expected_op e"

lemma answers_interpret_response:
  "seq h = pending_seq e \<Longrightarrow> group h = pending_group e \<Longrightarrow> command h = pending_command e \<Longrightarrow>
     op h = expected_op e \<Longrightarrow> answers e (interpret_response env h p)"
  by (simp add: interpret_response_def Let_def split: sum.splits option.splits)

definition requested :: "callback \<Rightarrow> world \<Rightarrow> world" where
  "requested cb w = (case cb of None \<Rightarrow> w | Some k \<Rightarrow> emit (Requested k) w)"

lemma requested_simps [simp]:
  "connected (requested cb w) = connected w" "config (requested cb w) = config w"
  "pending (requested cb w) = pending w" "retired (requested cb w) = retired w"
  "frames (requested cb w) = frames w" "deferred (requested cb w) = deferred w"
  "next_seq (requested cb w) = next_seq w" "stats (requested cb w) = stats w"
  "next_generation (requested cb w) = next_generation w"
  by (simp_all add: requested_def emit_def split: option.splits)

lemma requested_lookup [simp]:
  "free_slot (requested cb w) = free_slot w" "seq_free (requested cb w) = seq_free w"
  by (simp_all add: free_slot_def seq_free_def find_by_seq_def fun_eq_iff)

lemma allocate_seq_Some:
  "allocate_seq w = Some (s, w') \<Longrightarrow> seq_free w s \<and> w' = w\<lparr>next_seq := s + 1\<rparr>"
  by (auto simp: allocate_seq_def find_Some_iff split: option.splits)

text \<open>The three ways a call of \<open>request\<close> can end.\<close>

lemma request_cases [consumes 0, case_names refused send_failed sent]:
  obtains (refused) e where "request env spec cb w = defer_callback cb e (requested cb w)"
  | (send_failed) slot s frame e where "free_slot w = Some slot" and "seq_free w s"
      "send_result env (length (frames w)) = Inl e"
      "request env spec cb w = defer_callback cb e (retire_seq s
         ((requested cb w)\<lparr>next_seq := s + 1, frames := frames w @ [frame]\<rparr>))"
      "frame = encode (request_header (config w) spec s) @ spec_payload spec"
      "length (spec_payload spec) \<le> unat (max_smp_payload (config w))"
  | (sent) slot s w' where "free_slot w = Some slot" and "seq_free w s"
      "w' = (requested cb w)\<lparr>next_seq := s + 1,
         frames := frames w @ [encode (request_header (config w) spec s) @ spec_payload spec],
         next_generation := next_generation w + 1,
         pending := (pending w)[slot := new_entry (config w) spec cb s (next_generation w)
           (clock_now env (length (frames w)))],
         stats := (stats w)\<lparr>stat_sent := stat_sent (stats w) + 1\<rparr>\<rparr>"
      "request env spec cb w = (\<lparr>handle_slot = slot, handle_generation = next_generation w\<rparr>,
         case cb of None \<Rightarrow> w' | Some k \<Rightarrow> emit (Sent k spec s) w')"
      "length (spec_payload spec) \<le> unat (max_smp_payload (config w))"
proof -
  let ?w = "requested cb w"
  consider e where "request env spec cb w = defer_callback cb e ?w"
    | slot s where "free_slot w = Some slot" "seq_free w s"
        "length (spec_payload spec) \<le> unat (max_smp_payload (config w))"
        "request env spec cb w = send_request env spec cb slot s (?w\<lparr>next_seq := s + 1\<rparr>)"
    using allocate_seq_Some [of ?w]
    by (fastforce simp: request_def Let_def requested_def [symmetric] split: option.splits if_splits)
  then show thesis
  proof cases
    case 1
    then show ?thesis by (rule refused)
  next
    case (2 slot s)
    show ?thesis
    proof (cases "send_result env (length (frames w))")
      case (Inl e)
      then show ?thesis using 2 by (intro send_failed) (auto simp: send_request_def Let_def)
    next
      case (Inr u)
      then show ?thesis using 2 by (intro sent) (auto simp: send_request_def Let_def)
    qed
  qed
qed

text \<open>No operation changes the number of slots.\<close>

lemma length_pending_request [simp]:
  "length (pending (snd (request env spec cb w))) = length (pending w)"
  by (cases rule: request_cases [of env spec cb w])
    (auto simp: defer_callback_def retire_seq_def emit_def split: option.splits)

lemma length_pending_api_step [simp]: "length (pending (api_step env c w)) = length (pending w)"
  by (cases c) (auto simp: cancel_def defer_work_def defer_callback_def detach_def retire_seq_def
      emit_def Let_def split: option.splits)

lemma length_pending_complete [simp]:
  "length (pending (complete env slot res w)) = length (pending w)"
proof -
  have "length (pending (fold (api_step env) cs v)) = length (pending v)" for cs v
    by (induction cs arbitrary: v) simp_all
  then show ?thesis
    by (simp add: complete_def invoke_def reaction_def detach_def retire_seq_def emit_def Let_def
        split: option.splits)
qed

text \<open>The loop over the batches, as an induction rule.\<close>

lemma deliver_deferred_induct [consumes 1, case_names stop batch]:
  assumes "deliver_deferred env w = Some w'"
    and "\<And>w. deferred w = [] \<Longrightarrow> Q w w"
    and "\<And>w w'. deferred w \<noteq> [] \<Longrightarrow>
      Q (fold (run_item env) (deferred w) (w\<lparr>deferred := []\<rparr>)) w' \<Longrightarrow> Q w w'"
  shows "Q w w'"
proof -
  have "env' = env \<longrightarrow> Q w w'" if "deliver_deferred env' w = Some w'" for env'
    using _ that
    by (rule deliver_deferred.raw_induct [where P = "\<lambda>env' w w'. env' = env \<longrightarrow> Q w w'"])
      (auto split: if_splits intro: assms(2,3))
  then show ?thesis using assms(1) by blast
qed

section \<open>What the operations keep\<close>

text \<open>
  \<open>P b w\<close>: the property holds of the world \<open>w\<close> while the items \<open>b\<close> of a batch taken from the
  deferred queue are still to be run.
\<close>

locale client_property =
  fixes env :: env and P :: "deferred_item list \<Rightarrow> world \<Rightarrow> bool"
  assumes keeps_request: "P b w \<Longrightarrow> P b (snd (request env spec cb w))"
    and keeps_cancel: "P b w \<Longrightarrow> P b (cancel h w)"
    and keeps_defer_work: "P b w \<Longrightarrow> P b (defer_work cb w)"
    and keeps_finish: "P b w \<Longrightarrow> slot < length (pending w) \<Longrightarrow> active (pending w ! slot) \<Longrightarrow>
      answers (pending w ! slot) res \<Longrightarrow> P b (finish slot res w)"
    and keeps_take: "P [] w \<Longrightarrow> P (deferred w) (w\<lparr>deferred := []\<rparr>)"
    and keeps_start: "P (x # b) w \<Longrightarrow> P b (started (item_event x) w)"
    and keeps_stats: "P b w \<Longrightarrow> P b (w\<lparr>stats := st\<rparr>)"
    and keeps_assembler: "P b w \<Longrightarrow> P b (w\<lparr>assembler := a\<rparr>)"
    and keeps_connected: "P b w \<Longrightarrow> P b (w\<lparr>connected := c\<rparr>)"
    and keeps_last_error: "P b w \<Longrightarrow> P b (w\<lparr>last_transport_error := e\<rparr>)"
begin

lemmas keeps_fields = keeps_stats keeps_assembler keeps_connected keeps_last_error

lemma keeps_api_step: "P b w \<Longrightarrow> P b (api_step env c w)"
  by (cases c) (simp_all add: keeps_request keeps_cancel keeps_defer_work)

lemma keeps_api_steps: "P b w \<Longrightarrow> P b (fold (api_step env) cs w)"
  by (induction cs arbitrary: w) (simp_all add: keeps_api_step)

lemma keeps_complete:
  assumes "P b w" "slot < length (pending w)" "active (pending w ! slot)"
    "answers (pending w ! slot) res"
  shows "P b (complete env slot res w)"
  using keeps_finish [OF assms] keeps_api_steps
  by (auto simp: complete_def finish_def invoke_def reaction_def started_def
      split: option.splits prod.splits)

lemma keeps_fail_all: "P b w \<Longrightarrow> P b (fail_all env e w)"
proof -
  have "P b (fold (\<lambda>slot w. if active (pending w ! slot) then complete env slot (Inl e) w else w)
      slots w)" if "\<forall>slot\<in>set slots. slot < length (pending w)" and "P b w" for slots w
    using that
  proof (induction slots arbitrary: w)
    case (Cons slot slots)
    have "length (pending (complete env slot (Inl e) w)) = length (pending w)" by simp
    then show ?case using Cons by (simp add: keeps_complete)
  qed simp
  then show "P b w \<Longrightarrow> P b (fail_all env e w)" by (simp add: fail_all_def)
qed

lemma keeps_run_item: "P (x # b) w \<Longrightarrow> P b (run_item env x w)"
  using keeps_start [of x b w] keeps_api_steps
  by (cases x) (auto simp: reaction_def started_def)

lemma keeps_batch: "P b w \<Longrightarrow> P [] (fold (run_item env) b w)"
  by (induction b arbitrary: w) (simp_all add: keeps_run_item)

lemma keeps_deliver_deferred: "deliver_deferred env w = Some w' \<Longrightarrow> P [] w \<Longrightarrow> P [] w'"
  by (induction rule: deliver_deferred_induct) (simp_all add: keeps_take keeps_batch)

lemma keeps_expire: "P b w \<Longrightarrow> P b (expire env h w)"
  using keeps_complete [OF keeps_stats]
  by (auto simp: expire_def resolve_def Let_def split: option.splits if_splits)

lemma keeps_expires: "P b w \<Longrightarrow> P b (fold (expire env) hs w)"
  by (induction hs arbitrary: w) (simp_all add: keeps_expire)

lemma keeps_poll: "poll env now w = Some w' \<Longrightarrow> P [] w \<Longrightarrow> P [] w'"
  by (auto simp: poll_def split: option.splits intro: keeps_deliver_deferred keeps_expires)

lemma keeps_shutdown: "shutdown env w = Some w' \<Longrightarrow> P [] w \<Longrightarrow> P [] w'"
  by (auto simp: shutdown_def split: option.splits intro: keeps_deliver_deferred keeps_fail_all)

lemma keeps_on_message: "P b w \<Longrightarrow> P b (on_message env h p w)"
  using answers_interpret_response [of h _ env p]
  by (auto simp: on_message_def Let_def find_by_seq_def
      dest!: first_slot_Some intro!: keeps_stats keeps_complete split: option.splits)

lemma keeps_on_bytes: "P b w \<Longrightarrow> P b (on_bytes env bs w)"
proof -
  assume P: "P b w"
  obtain a w1 r where fed: "feed (on_message env) bs (assembler w) w = (a, w1, r)"
    by (cases "feed (on_message env) bs (assembler w) w")
  have "P b w1" using feed_keeps [of _ _ _ _ _ _ _ "P b", OF fed P] keeps_on_message by blast
  then show ?thesis
    using fed by (auto simp: on_bytes_def intro!: keeps_fail_all keeps_fields split: sum.splits)
qed

lemma keeps_client_step: "client_step env x w = Some w' \<Longrightarrow> P [] w \<Longrightarrow> P [] w'"
  by (cases x) (auto simp: on_transport_error_def on_disconnected_def rebind_transport_def Let_def
      intro: keeps_api_step keeps_poll keeps_on_bytes keeps_fail_all keeps_fields)

lemma keeps_run: "client_run env xs w = Some w' \<Longrightarrow> P [] w \<Longrightarrow> P [] w'"
  by (induction xs arbitrary: w) (auto split: option.splits intro: keeps_client_step)

end

end
