(* ===== verification/ClientSafety.thy ===== *)
theory ClientSafety
  imports ClientInvariant
begin

text \<open>
  The properties of the client, each an interpretation of \<open>client_property\<close>: the invariant of
  the table and the retired numbers, the account of the callbacks, the correlation of answers
  with requests, and the staleness of handles.
\<close>

section \<open>The invariant of the table\<close>

text \<open>An entry of the table in use.\<close>

definition live :: "world \<Rightarrow> nat \<Rightarrow> bool" where
  "live w i \<longleftrightarrow> i < length (pending w) \<and> active (pending w ! i)"

definition seqs_unique :: "world \<Rightarrow> bool" where
  "seqs_unique w \<longleftrightarrow> (\<forall>i j. live w i \<longrightarrow> live w j \<longrightarrow>
     pending_seq (pending w ! i) = pending_seq (pending w ! j) \<longrightarrow> i = j)"

definition seqs_not_retired :: "world \<Rightarrow> bool" where
  "seqs_not_retired w \<longleftrightarrow>
     (\<forall>i. live w i \<longrightarrow> \<not> is_retired (pending_seq (pending w ! i)) (retired w))"

definition generations_issued :: "world \<Rightarrow> bool" where
  "generations_issued w \<longleftrightarrow> 0 < next_generation w \<and>
     (\<forall>i. live w i \<longrightarrow> generation (pending w ! i) \<in> {0<..<next_generation w})"

definition table_inv :: "client_config \<Rightarrow> world \<Rightarrow> bool" where
  "table_inv cfg w \<longleftrightarrow> config w = cfg \<and> length (pending w) = max 1 (unat (max_in_flight cfg)) \<and>
     retired_inv (max_retired_seqs cfg) (retired w) \<and> seqs_unique w \<and> seqs_not_retired w \<and>
     generations_issued w"

lemmas table_defs = table_inv_def seqs_unique_def seqs_not_retired_def generations_issued_def live_def

lemma table_inv_init: "table_inv cfg (SmpClient cfg)"
proof -
  have "\<not> live (SmpClient cfg) i" for i by (auto simp: live_def SmpClient_def empty_slot_def)
  then show ?thesis
    by (simp add: table_inv_def seqs_unique_def seqs_not_retired_def generations_issued_def)
      (simp add: SmpClient_def)
qed

text \<open>The invariant depends on these fields only.\<close>

lemma table_inv_cong:
  "config w' = config w \<Longrightarrow> pending w' = pending w \<Longrightarrow> retired w' = retired w \<Longrightarrow>
     next_generation w' = next_generation w \<Longrightarrow> table_inv cfg w' \<longleftrightarrow> table_inv cfg w"
  by (simp add: table_defs)

lemma table_inv_updates [simp]:
  "table_inv cfg (w\<lparr>stats := st\<rparr>) \<longleftrightarrow> table_inv cfg w"
  "table_inv cfg (w\<lparr>assembler := a\<rparr>) \<longleftrightarrow> table_inv cfg w"
  "table_inv cfg (w\<lparr>connected := c\<rparr>) \<longleftrightarrow> table_inv cfg w"
  "table_inv cfg (w\<lparr>last_transport_error := e\<rparr>) \<longleftrightarrow> table_inv cfg w"
  "table_inv cfg (w\<lparr>deferred := d\<rparr>) \<longleftrightarrow> table_inv cfg w"
  "table_inv cfg (w\<lparr>next_seq := n\<rparr>) \<longleftrightarrow> table_inv cfg w"
  "table_inv cfg (w\<lparr>frames := fs\<rparr>) \<longleftrightarrow> table_inv cfg w"
  "table_inv cfg (w\<lparr>calls := m\<rparr>) \<longleftrightarrow> table_inv cfg w"
  "table_inv cfg (emit ev w) \<longleftrightarrow> table_inv cfg w"
  "table_inv cfg (started ev w) \<longleftrightarrow> table_inv cfg w"
  "table_inv cfg (requested cb w) \<longleftrightarrow> table_inv cfg w"
  "table_inv cfg (snd (defer_callback cb err w)) \<longleftrightarrow> table_inv cfg w"
  "table_inv cfg (defer_work cb w) \<longleftrightarrow> table_inv cfg w"
  by (simp_all add: table_defs emit_def started_def defer_callback_def defer_work_def
      split: option.splits)

lemma seq_free_iff:
  "seq_free w s \<longleftrightarrow> \<not> is_retired s (retired w) \<and> (\<forall>i. live w i \<longrightarrow> pending_seq (pending w ! i) \<noteq> s)"
  by (auto simp: seq_free_def find_by_seq_def first_slot_None live_def all_set_conv_all_nth)

lemma free_slot_Some: "free_slot w = Some slot \<Longrightarrow> slot < length (pending w) \<and> \<not> live w slot"
  using first_slot_Some by (fastforce simp: free_slot_def live_def)

lemma table_inv_retire:
  assumes "table_inv cfg w" and "\<forall>i. live w i \<longrightarrow> pending_seq (pending w ! i) \<noteq> s"
  shows "table_inv cfg (retire_seq s w)"
  using assms rw.add_ok rw.add_member_other by (fastforce simp: table_defs retire_seq_def)

lemma table_inv_detach:
  assumes "table_inv cfg w" and "slot < length (pending w)" and "active (pending w ! slot)"
  shows "table_inv cfg (snd (detach slot w))"
proof -
  let ?w = "w\<lparr>pending := (pending w)[slot := (pending w ! slot)\<lparr>callback := None, active := False\<rparr>]\<rparr>"
  have "live ?w i \<Longrightarrow> live w i \<and> i \<noteq> slot \<and> pending ?w ! i = pending w ! i" for i
    by (cases "i = slot") (auto simp: live_def)
  moreover have "live w slot" using assms(2,3) by (simp add: live_def)
  ultimately have "table_inv cfg ?w" "\<forall>i. live ?w i \<longrightarrow> pending_seq (pending ?w ! i) \<noteq> pending_seq (pending w ! slot)"
    using assms(1) unfolding table_inv_def seqs_unique_def seqs_not_retired_def generations_issued_def
    by (fastforce, metis)
  then show ?thesis using table_inv_retire by (simp add: detach_def Let_def)
qed

lemma table_inv_sent:
  assumes inv: "table_inv cfg w" and slot: "slot < length (pending w)" and free: "seq_free w s"
    and e: "pending_seq e = s" "generation e = next_generation w" "active e"
    and w': "config w' = config w" "retired w' = retired w" "pending w' = (pending w)[slot := e]"
      "next_generation w' = next_generation w + 1"
  shows "table_inv cfg w'"
proof -
  have live: "live w' i \<longleftrightarrow> i = slot \<or> live w i" for i
    using slot e(3) w' by (cases "i = slot") (auto simp: live_def)
  have entry: "pending w' ! i = (if i = slot then e else pending w ! i)" if "live w' i" for i
    using that slot w' by (auto simp: live_def)
  have "seqs_unique w'"
    using inv free e(1) live entry unfolding seq_free_iff table_inv_def seqs_unique_def by metis
  moreover have "seqs_not_retired w'"
    using inv free e(1) w'(2) live entry
    unfolding seq_free_iff table_inv_def seqs_not_retired_def by metis
  moreover have "generations_issued w'"
    using inv e(2) w'(4) live entry
    by (auto simp: table_inv_def generations_issued_def less_Suc_eq)
  ultimately show ?thesis using inv w' by (simp add: table_inv_def)
qed

lemma table_inv_request:
  assumes "table_inv cfg w"
  shows "table_inv cfg (snd (request env spec cb w))"
proof (cases rule: request_cases [of env spec cb w])
  case (refused e)
  then show ?thesis using assms by simp
next
  case (send_failed slot s frame e)
  then show ?thesis using assms
    by (simp add: table_inv_retire seq_free_iff live_def)
next
  case (sent slot s w')
  have "table_inv cfg w'"
    using sent(3) free_slot_Some [OF sent(1)]
    by (intro table_inv_sent [OF assms _ sent(2)]) (auto simp: new_entry_def)
  then show ?thesis using sent(4) by (simp split: option.splits)
qed

lemma resolve_Some:
  "resolve h w = Some slot \<Longrightarrow> slot < length (pending w) \<and> active (pending w ! slot) \<and>
     slot = handle_slot h \<and> generation (pending w ! slot) = handle_generation h"
  by (auto simp: resolve_def Let_def split: if_splits)

lemma finish_eq:
  "finish slot res w = (case callback (pending w ! slot) of None \<Rightarrow> snd (detach slot w)
     | Some k \<Rightarrow> started (Called k res) (snd (detach slot w)))"
  by (simp add: finish_def detach_def Let_def split: option.splits)

lemma cancel_eq:
  "cancel h w = (case resolve h w of None \<Rightarrow> w
     | Some slot \<Rightarrow> snd (defer_callback (callback (pending w ! slot))
         (Error Cancelled ''smp client: cancelled'')
         (snd (detach slot (w\<lparr>stats := (stats w)\<lparr>stat_cancelled := stat_cancelled (stats w) + 1\<rparr>\<rparr>)))))"
  by (simp add: cancel_def detach_def Let_def split: option.splits)

interpretation table: client_property env "\<lambda>_. table_inv cfg" for env cfg
proof unfold_locales
  fix w :: world
  assume inv: "table_inv cfg w"
  show "table_inv cfg (snd (request env spec cb w))" for spec cb using inv by (rule table_inv_request)
  show "table_inv cfg (cancel h w)" for h
    using inv by (auto simp: cancel_eq table_inv_detach dest: resolve_Some split: option.splits)
  show "table_inv cfg (finish slot res w)"
    if "slot < length (pending w)" "active (pending w ! slot)" for slot res
    using table_inv_detach [OF inv that] by (simp add: finish_eq split: option.splits)
qed simp_all

section \<open>The account of the callbacks\<close>

text \<open>The tokens an event, an entry or a queued item stands for, as multisets.\<close>

definition tokens :: "('a \<Rightarrow> nat multiset) \<Rightarrow> 'a list \<Rightarrow> nat multiset" where
  "tokens f xs = sum_list (map f xs)"

fun token :: "callback \<Rightarrow> nat multiset" where
  "token None = {#}"
| "token (Some k) = {#k#}"

fun made :: "event \<Rightarrow> nat multiset" where
  "made (Requested k) = {#k#}"
| "made _ = {#}"

fun answered :: "event \<Rightarrow> nat multiset" where
  "answered (Called k _) = {#k#}"
| "answered _ = {#}"

fun queued :: "event \<Rightarrow> nat multiset" where
  "queued (Queued k) = {#k#}"
| "queued _ = {#}"

fun ran :: "event \<Rightarrow> nat multiset" where
  "ran (Ran k) = {#k#}"
| "ran _ = {#}"

fun held_callback :: "deferred_item \<Rightarrow> nat multiset" where
  "held_callback (Completion k _) = {#k#}"
| "held_callback (Work _) = {#}"

fun held_work :: "deferred_item \<Rightarrow> nat multiset" where
  "held_work (Completion _ _) = {#}"
| "held_work (Work k) = {#k#}"

text \<open>
  Every callback a request was made with has been called, or is in the table, or waits in the
  queue or in the batch being run; and the same of queued work.
\<close>

definition balanced :: "deferred_item list \<Rightarrow> world \<Rightarrow> bool" where
  "balanced b w \<longleftrightarrow>
     tokens made (trace w) = tokens answered (trace w) + tokens (token \<circ> callback) (pending w) +
       tokens held_callback (deferred w) + tokens held_callback b \<and>
     tokens queued (trace w) = tokens ran (trace w) + tokens held_work (deferred w) +
       tokens held_work b \<and>
     (\<forall>e\<in>set (pending w). \<not> active e \<longrightarrow> callback e = None)"

lemma tokens_simps [simp]:
  "tokens f [] = {#}" "tokens f (x # xs) = f x + tokens f xs"
  "tokens f (xs @ ys) = tokens f xs + tokens f ys"
  by (simp_all add: tokens_def)

lemma tokens_update:
  "i < length xs \<Longrightarrow> tokens f (xs[i := x]) + f (xs ! i) = tokens f xs + f x"
  using sum_list_list_update [of i "map f xs" "f x"] by (simp add: tokens_def map_update)

lemma tokens_detach:
  assumes "slot < length (pending w)"
  shows "tokens (token \<circ> callback) (pending (snd (detach slot w))) + token (callback (pending w ! slot)) =
    tokens (token \<circ> callback) (pending w)"
  using tokens_update [OF assms, of "token \<circ> callback"
      "(pending w ! slot)\<lparr>callback := None, active := False\<rparr>"]
  by (simp add: detach_def Let_def retire_seq_def)

lemma detach_simps [simp]:
  "trace (snd (detach slot w)) = trace w" "deferred (snd (detach slot w)) = deferred w"
  "next_generation (snd (detach slot w)) = next_generation w"
  "length (pending (snd (detach slot w))) = length (pending w)"
  by (simp_all add: detach_def Let_def retire_seq_def)

lemma detach_idle:
  "\<forall>e\<in>set (pending w). \<not> active e \<longrightarrow> callback e = None \<Longrightarrow>
     \<forall>e\<in>set (pending (snd (detach slot w))). \<not> active e \<longrightarrow> callback e = None"
  using set_update_subset_insert [of "pending w" slot]
  by (fastforce simp: detach_def Let_def retire_seq_def)

lemma balanced_request:
  assumes bal: "balanced b w"
  shows "balanced b (snd (request env spec cb w))"
proof (cases rule: request_cases [of env spec cb w])
  case (refused e)
  then show ?thesis using bal
    by (cases cb) (simp_all add: balanced_def requested_def emit_def defer_callback_def)
next
  case (send_failed slot s frame e)
  then show ?thesis using bal
    by (cases cb) (simp_all add: balanced_def requested_def emit_def defer_callback_def retire_seq_def)
next
  case (sent slot s w')
  have slot: "slot < length (pending w)" "callback (pending w ! slot) = None"
    using free_slot_Some [OF sent(1)] bal by (auto simp: live_def balanced_def)
  let ?e = "new_entry (config w) spec cb s (next_generation w) (clock_now env (length (frames w)))"
  have "tokens (token \<circ> callback) ((pending w)[slot := ?e]) = tokens (token \<circ> callback) (pending w) + token cb"
    using tokens_update [OF slot(1), of "token \<circ> callback" ?e] slot(2) by (simp add: new_entry_def)
  moreover have "\<forall>e\<in>set ((pending w)[slot := ?e]). \<not> active e \<longrightarrow> callback e = None"
    using set_update_subset_insert [of "pending w" slot ?e] bal
    by (auto simp: balanced_def new_entry_def)
  ultimately show ?thesis using sent(3,4) bal
    by (cases cb) (simp_all add: balanced_def requested_def emit_def)
qed

interpretation account: client_property env balanced for env
proof unfold_locales
  fix w :: world and b
  assume bal: "balanced b w"
  show "balanced b (snd (request env spec cb w))" for spec cb using bal by (rule balanced_request)
  show "balanced b (cancel h w)" for h
  proof (cases "resolve h w")
    case (Some slot)
    let ?w = "w\<lparr>stats := (stats w)\<lparr>stat_cancelled := stat_cancelled (stats w) + 1\<rparr>\<rparr>"
    show ?thesis
      using Some bal resolve_Some [OF Some] tokens_detach [of slot ?w] detach_idle [of ?w slot]
      by (cases "callback (pending w ! slot)")
        (simp_all add: cancel_eq balanced_def defer_callback_def ac_simps)
  qed (simp add: cancel_eq bal)
  show "balanced b (defer_work cb w)" for cb
    using bal by (cases cb) (simp_all add: balanced_def defer_work_def emit_def)
  show "balanced b (finish slot res w)"
    if "slot < length (pending w)" "active (pending w ! slot)" for slot res
    using bal tokens_detach [OF that(1)] detach_idle [of w slot]
    by (cases "callback (pending w ! slot)")
      (simp_all add: finish_eq balanced_def started_def emit_def ac_simps)
next
  fix w :: world and b x
  assume "balanced (x # b) w"
  then show "balanced b (started (item_event x) w)"
    by (cases x) (simp_all add: balanced_def started_def emit_def)
qed (simp_all add: balanced_def)

section \<open>Answers and requests\<close>

text \<open>
  An answer handed to a callback is justified by the events before it: its request was sent
  with the sequence number, group and command the answer's header carries, and the answer's
  operation is the response to the request's.
\<close>

fun sent_for :: "nat \<Rightarrow> header \<Rightarrow> event \<Rightarrow> bool" where
  "sent_for k h (Sent k' spec s) \<longleftrightarrow> k' = k \<and> seq h = s \<and> group h = spec_group spec \<and>
     command h = spec_command spec \<and> op h = response_to (spec_op spec)"
| "sent_for k h _ \<longleftrightarrow> False"

fun justified :: "event list \<Rightarrow> event \<Rightarrow> bool" where
  "justified before (Called k (Inr (h, p))) \<longleftrightarrow> list_ex (sent_for k h) before"
| "justified before _ \<longleftrightarrow> True"

definition correlated :: "world \<Rightarrow> bool" where
  "correlated w \<longleftrightarrow> (\<forall>n<length (trace w). justified (take n (trace w)) (trace w ! n)) \<and>
     (\<forall>e\<in>set (pending w). \<forall>k. active e \<longrightarrow> callback e = Some k \<longrightarrow>
        (\<forall>h p. answers e (Inr (h, p)) \<longrightarrow> list_ex (sent_for k h) (trace w)))"

lemma correlated_emit:
  "correlated w \<Longrightarrow> justified (trace w) e \<Longrightarrow> correlated (emit e w)"
  by (auto simp: correlated_def emit_def nth_append less_Suc_eq)

lemma correlated_detach: "correlated w \<Longrightarrow> correlated (snd (detach slot w))"
  using set_update_subset_insert [of "pending w" slot]
  by (fastforce simp: correlated_def detach_def Let_def retire_seq_def)

lemma correlated_updates [simp]:
  "correlated (w\<lparr>stats := st\<rparr>) \<longleftrightarrow> correlated w"
  "correlated (w\<lparr>assembler := a\<rparr>) \<longleftrightarrow> correlated w"
  "correlated (w\<lparr>connected := c\<rparr>) \<longleftrightarrow> correlated w"
  "correlated (w\<lparr>last_transport_error := err\<rparr>) \<longleftrightarrow> correlated w"
  "correlated (w\<lparr>deferred := d\<rparr>) \<longleftrightarrow> correlated w"
  "correlated (w\<lparr>next_seq := n\<rparr>) \<longleftrightarrow> correlated w"
  "correlated (w\<lparr>frames := fs\<rparr>) \<longleftrightarrow> correlated w"
  "correlated (w\<lparr>calls := m\<rparr>) \<longleftrightarrow> correlated w"
  "correlated (retire_seq s w) \<longleftrightarrow> correlated w"
  "correlated (snd (defer_callback cb e w)) \<longleftrightarrow> correlated w"
  by (simp_all add: correlated_def retire_seq_def defer_callback_def split: option.splits)

lemma correlated_requested: "correlated w \<Longrightarrow> correlated (requested cb w)"
  by (simp add: requested_def correlated_emit split: option.splits)

lemma correlated_request:
  assumes "correlated w"
  shows "correlated (snd (request env spec cb w))"
proof (cases rule: request_cases [of env spec cb w])
  case (sent slot s w')
  let ?e = "new_entry (config w) spec cb s (next_generation w) (clock_now env (length (frames w)))"
  let ?w = "case cb of None \<Rightarrow> requested cb w | Some k \<Rightarrow> emit (Sent k spec s) (requested cb w)"
  have cor: "correlated ?w"
    using correlated_requested [OF assms, of cb]
    by (auto intro: correlated_emit split: option.splits)
  have eq: "trace (snd (request env spec cb w)) = trace ?w" "pending ?w = pending w"
    "pending (snd (request env spec cb w)) = (pending w)[slot := ?e]"
    using sent(3,4) by (auto simp: emit_def split: option.splits)
  have "list_ex (sent_for k h) (trace ?w)" if "callback ?e = Some k" "answers ?e (Inr (h, p))" for k h p
    using that by (auto simp: new_entry_def emit_def)
  then show ?thesis
    using cor set_update_subset_insert [of "pending w" slot ?e]
    unfolding correlated_def eq by blast
qed (simp_all add: assms correlated_requested)

interpretation correlation: client_property env "\<lambda>_. correlated" for env
proof unfold_locales
  fix w :: world
  assume cor: "correlated w"
  show "correlated (snd (request env spec cb w))" for spec cb using cor by (rule correlated_request)
  show "correlated (cancel h w)" for h
    using cor by (simp add: cancel_eq correlated_detach split: option.splits)
  show "correlated (defer_work cb w)" for cb
    using cor by (simp add: defer_work_def correlated_emit split: option.splits)
  show "correlated (started (item_event x) w)" for x
    using cor by (cases x) (simp_all add: started_def correlated_emit)
  show "correlated (finish slot res w)"
    if "slot < length (pending w)" "active (pending w ! slot)" "answers (pending w ! slot) res"
    for slot res
  proof -
    have "justified (trace w) (Called k res)" if "callback (pending w ! slot) = Some k" for k
      using that cor \<open>slot < _\<close> \<open>active _\<close> \<open>answers _ _\<close>
      by (cases res) (fastforce simp: correlated_def)+
    then show ?thesis using correlated_detach [OF cor]
      by (simp add: finish_eq started_def correlated_emit split: option.splits)
  qed
qed simp_all

section \<open>Stale handles\<close>

text \<open>A handle that was issued and no longer names a request.\<close>

definition stale :: "request_handle \<Rightarrow> world \<Rightarrow> bool" where
  "stale h w \<longleftrightarrow> handle_generation h < next_generation w \<and> resolve h w = None"

lemma stale_alt: "stale h w \<longleftrightarrow> handle_generation h < next_generation w \<and>
    (handle_valid h \<longrightarrow> live w (handle_slot h) \<longrightarrow>
       generation (pending w ! handle_slot h) \<noteq> handle_generation h)"
  by (auto simp: stale_def resolve_def live_def Let_def)

lemma stale_detach: "stale h w \<Longrightarrow> stale h (snd (detach slot w))"
  by (cases "handle_slot h = slot")
    (auto simp: stale_alt live_def detach_def Let_def retire_seq_def)

lemma stale_updates [simp]:
  "stale h (w\<lparr>stats := st\<rparr>) \<longleftrightarrow> stale h w"
  "stale h (w\<lparr>assembler := a\<rparr>) \<longleftrightarrow> stale h w"
  "stale h (w\<lparr>connected := c\<rparr>) \<longleftrightarrow> stale h w"
  "stale h (w\<lparr>last_transport_error := err\<rparr>) \<longleftrightarrow> stale h w"
  "stale h (w\<lparr>deferred := d\<rparr>) \<longleftrightarrow> stale h w"
  "stale h (w\<lparr>next_seq := n\<rparr>) \<longleftrightarrow> stale h w"
  "stale h (w\<lparr>frames := fs\<rparr>) \<longleftrightarrow> stale h w"
  "stale h (w\<lparr>calls := m\<rparr>) \<longleftrightarrow> stale h w"
  "stale h (emit ev w) \<longleftrightarrow> stale h w"
  "stale h (started ev w) \<longleftrightarrow> stale h w"
  "stale h (requested cb w) \<longleftrightarrow> stale h w"
  "stale h (retire_seq s w) \<longleftrightarrow> stale h w"
  "stale h (snd (defer_callback cb e w)) \<longleftrightarrow> stale h w"
  "stale h (defer_work cb w) \<longleftrightarrow> stale h w"
  by (simp_all add: stale_alt live_def retire_seq_def emit_def started_def defer_callback_def
      defer_work_def split: option.splits)

lemma stale_request:
  assumes "stale h w"
  shows "stale h (snd (request env spec cb w))"
proof (cases rule: request_cases [of env spec cb w])
  case (sent slot s w')
  have "stale h w'"
    using assms sent(3) free_slot_Some [OF sent(1)]
    by (cases "handle_slot h = slot") (auto simp: stale_alt live_def new_entry_def)
  then show ?thesis using sent(4) by (simp split: option.splits)
qed (simp_all add: assms)

interpretation staleness: client_property env "\<lambda>_. stale h" for env h
  by unfold_locales
    (simp_all add: stale_request cancel_eq finish_eq stale_detach split: option.splits)

end
