(* ===== verification/ClientProperties.thy ===== *)
theory ClientProperties
  imports ClientSafety
begin

text \<open>
  The properties of the client, over every run from its construction: any sequence of calls of
  the application, polls, bytes and errors from the transport, with callbacks that issue,
  cancel and defer in turn.
\<close>

section \<open>Allocation\<close>

text \<open>What stands in the way of a sequence number.\<close>

lemma blocked_card:
  assumes inv: "table_inv cfg w" and slot: "free_slot w = Some slot"
  shows "card {s. \<not> seq_free w s} \<le>
    unat (max_retired_seqs cfg) + (max 1 (unat (max_in_flight cfg)) - 1)"
proof -
  let ?live = "{i. live w i}"
  have "{s. \<not> seq_free w s} \<subseteq> {s. is_retired s (retired w)} \<union> (\<lambda>i. pending_seq (pending w ! i)) ` ?live"
    by (auto simp: seq_free_iff)
  moreover have fin: "finite ?live"
    by (rule finite_subset [of _ "{..<length (pending w)}"]) (auto simp: live_def)
  ultimately have "card {s. \<not> seq_free w s} \<le>
      card ({s. is_retired s (retired w)} \<union> (\<lambda>i. pending_seq (pending w ! i)) ` ?live)"
    by (intro card_mono) auto
  also have "\<dots> \<le> card {s. is_retired s (retired w)} + card ?live"
    using card_Un_le card_image_le [OF fin] by (meson add_left_mono order_trans)
  also have "?live \<subseteq> {..<length (pending w)} - {slot}"
    using free_slot_Some [OF slot] by (auto simp: live_def)
  then have "card ?live \<le> length (pending w) - 1"
    using card_mono [of "{..<length (pending w)} - {slot}" ?live] free_slot_Some [OF slot] by simp
  also have "card {s. is_retired s (retired w)} \<le> unat (max_retired_seqs cfg)"
    using inv by (intro rw.card_members) (simp add: table_inv_def)
  finally show ?thesis using inv by (simp add: table_inv_def)
qed

lemma allocate_seq_exists:
  assumes "table_inv cfg w" and "free_slot w = Some slot"
    and "max 1 (unat (max_in_flight cfg)) + unat (max_retired_seqs cfg) \<le> 256"
  obtains s where "seq_free w s" and "allocate_seq w = Some (s, w\<lparr>next_seq := s + 1\<rparr>)"
proof -
  have "card {s. \<not> seq_free w s} < card (UNIV :: u8 set)"
    using blocked_card [OF assms(1,2)] assms(3) by (simp add: card_word)
  then obtain s where s: "seq_free w s" by (metis (mono_tags) UNIV_eq_I less_irrefl mem_Collect_eq)
  have "s = next_seq w + of_nat (unat (s - next_seq w))" by simp
  then have "s \<in> set (map (\<lambda>a. next_seq w + of_nat a) [0..<256])"
    by (metis (no_types, lifting) atLeastLessThan_iff imageI list.set_map set_upt unat_u8_less zero_le)
  then have "find (seq_free w) (map (\<lambda>a. next_seq w + of_nat a) [0..<256]) \<noteq> None"
    using s by (auto simp: find_None_iff)
  then obtain c where "find (seq_free w) (map (\<lambda>a. next_seq w + of_nat a) [0..<256]) = Some c"
    by blast
  then have "allocate_seq w = Some (c, w\<lparr>next_seq := c + 1\<rparr>)" by (simp add: allocate_seq_def)
  then show thesis using that allocate_seq_Some by blast
qed

section \<open>Frames\<close>

text \<open>Every frame handed to the transport is a message whose length field is right.\<close>

definition framed :: "client_config \<Rightarrow> world \<Rightarrow> bool" where
  "framed cfg w \<longleftrightarrow> config w = cfg \<and>
     (\<forall>f\<in>set (frames w). \<exists>m. f = wire m \<and> unat (length' (fst m)) = length (snd m) \<and>
        length' (fst m) \<le> max_smp_payload cfg)"


lemma framed_updates [simp]:
  "framed cfg (w\<lparr>stats := st\<rparr>) \<longleftrightarrow> framed cfg w"
  "framed cfg (w\<lparr>assembler := a\<rparr>) \<longleftrightarrow> framed cfg w"
  "framed cfg (w\<lparr>connected := c\<rparr>) \<longleftrightarrow> framed cfg w"
  "framed cfg (w\<lparr>last_transport_error := err\<rparr>) \<longleftrightarrow> framed cfg w"
  "framed cfg (w\<lparr>deferred := d\<rparr>) \<longleftrightarrow> framed cfg w"
  "framed cfg (emit ev w) \<longleftrightarrow> framed cfg w"
  "framed cfg (started ev w) \<longleftrightarrow> framed cfg w"
  "framed cfg (requested cb w) \<longleftrightarrow> framed cfg w"
  "framed cfg (retire_seq s w) \<longleftrightarrow> framed cfg w"
  "framed cfg (snd (defer_callback cb e w)) \<longleftrightarrow> framed cfg w"
  "framed cfg (defer_work cb w) \<longleftrightarrow> framed cfg w"
  "framed cfg (snd (detach slot w)) \<longleftrightarrow> framed cfg w"
  by (simp_all add: framed_def retire_seq_def emit_def started_def defer_callback_def
      defer_work_def detach_def Let_def split: option.splits)

lemma request_frame:
  assumes "length payload \<le> unat (max_smp_payload cfg)" and "payload = spec_payload spec"
  shows "\<exists>m. encode (request_header cfg spec s) @ payload = wire m \<and>
    unat (length' (fst m)) = length (snd m) \<and> length' (fst m) \<le> max_smp_payload cfg"
proof -
  have "unat (of_nat (length payload) :: u16) = length payload"
    using assms(1) unat_u16_less [of "max_smp_payload cfg"] by (simp add: unat_of_nat order_le_less_trans)
  then show ?thesis using assms
    by (intro exI [of _ "(request_header cfg spec s, payload)"])
      (simp add: wire_def request_header_def word_le_nat_alt)
qed

lemma framed_request:
  assumes "framed cfg w"
  shows "framed cfg (snd (request env spec cb w))"
proof (cases rule: request_cases [of env spec cb w])
  case (refused e)
  then show ?thesis using assms by simp
next
  case (send_failed slot s frame e)
  have "framed cfg ((requested cb w)\<lparr>next_seq := s + 1, frames := frames w @ [frame]\<rparr>)"
    using send_failed(5,6) assms request_frame [of "spec_payload spec" cfg spec s]
    by (simp add: framed_def ball_Un)
  then show ?thesis using send_failed(4) by simp
next
  case (sent slot s w')
  have "framed cfg w'" using sent(3,5) assms request_frame [of "spec_payload spec" cfg spec s]
    by (simp add: framed_def ball_Un)
  then show ?thesis using sent(4) by (simp split: option.splits)
qed

interpretation framing: client_property env "\<lambda>_. framed cfg" for env cfg
  by unfold_locales (simp_all add: framed_request cancel_eq finish_eq split: option.splits)

section \<open>Delivery\<close>

lemma calls_api_step [simp]: "calls (api_step env c w) = calls w"
proof (cases c)
  case (Call_request spec cb)
  then show ?thesis
    by (cases rule: request_cases [of env spec cb w])
      (auto simp: defer_callback_def retire_seq_def emit_def requested_def split: option.splits)
qed (auto simp: cancel_def defer_work_def defer_callback_def detach_def retire_seq_def emit_def
    Let_def split: option.splits)

lemma calls_api_steps [simp]: "calls (fold (api_step env) cs w) = calls w"
  by (induction cs arbitrary: w) simp_all

lemma calls_run_item [simp]: "calls (run_item env x w) = calls w + 1"
  by (cases x) (simp_all add: reaction_def)

lemma calls_batch [simp]: "calls (fold (run_item env) b w) = calls w + length b"
  by (induction b arbitrary: w) simp_all

lemma quiet_batch:
  "\<forall>n\<ge>N. react env n = [] \<Longrightarrow> N \<le> calls w \<Longrightarrow> deferred (fold (run_item env) b w) = deferred w"
proof (induction b arbitrary: w)
  case (Cons x b)
  then have "deferred (run_item env x w) = deferred w"
    by (cases x) (simp_all add: reaction_def emit_def)
  then show ?case using Cons by simp
qed simp

lemma deliver_deferred_returns:
  "\<forall>n\<ge>N. react env n = [] \<Longrightarrow> \<exists>w'. deliver_deferred env w = Some w'"
proof (induction "N - calls w" arbitrary: w rule: less_induct)
  case less
  let ?w = "fold (run_item env) (deferred w) (w\<lparr>deferred := []\<rparr>)"
  show ?case
  proof (cases "deferred w = []")
    case True
    then show ?thesis by (simp add: deliver_deferred.simps)
  next
    case False
    have step: "deliver_deferred env w = deliver_deferred env ?w"
      using False by (simp add: deliver_deferred.simps [of env w])
    show ?thesis
    proof (cases "calls w < N")
      case True
      then have "N - calls ?w < N - calls w" using False by (cases "deferred w") auto
      then show ?thesis using less step by metis
    next
      case large: False
      then have "deferred ?w = []" using quiet_batch [OF less.prems] by simp
      then show ?thesis using step by (simp add: deliver_deferred.simps [of env ?w])
    qed
  qed
qed

lemma deliver_deferred_drains: "deliver_deferred env w = Some w' \<Longrightarrow> deferred w' = []"
  by (induction rule: deliver_deferred_induct) simp_all

section \<open>Expiry\<close>

lemma resolve_stats [simp]: "resolve h (w\<lparr>stats := st\<rparr>) = resolve h w"
  by (simp add: resolve_def)

text \<open>Generations only grow.\<close>

lemma growth_request: "g \<le> next_generation w \<Longrightarrow> g \<le> next_generation (snd (request env spec cb w))"
  by (cases rule: request_cases [of env spec cb w])
    (auto simp: defer_callback_def retire_seq_def emit_def split: option.splits)

interpretation growth: client_property env "\<lambda>_ w. g \<le> next_generation w" for env g
  by unfold_locales
    (simp_all add: growth_request cancel_eq finish_eq defer_callback_def defer_work_def started_def
      emit_def split: option.splits)

lemma stale_after_detach:
  assumes "table_inv cfg w" and "resolve h w = Some slot"
  shows "stale h (snd (detach slot w))"
  using assms resolve_Some [OF assms(2)]
  by (auto simp: stale_alt live_def detach_def Let_def retire_seq_def table_defs)

lemma stale_after_complete:
  assumes "table_inv cfg w" and "resolve h w = Some slot"
  shows "stale h (complete env slot res w)"
proof -
  have "stale h (finish slot res w)"
    using stale_after_detach [OF assms] by (simp add: finish_eq split: option.splits)
  then show ?thesis using staleness.keeps_api_steps
    by (auto simp: complete_def finish_def invoke_def reaction_def started_def
        split: option.splits prod.splits)
qed

lemma stale_after_cancel:
  assumes "table_inv cfg w" and "resolve h w = Some slot"
  shows "stale h (cancel h w)"
  using assms stale_after_detach [of cfg "w\<lparr>stats := st\<rparr>" h slot for st]
  by (simp add: cancel_eq)

lemma stale_after_expire:
  assumes "table_inv cfg w" and "handle_generation h < next_generation w"
  shows "stale h (expire env h w)"
proof (cases "resolve h w")
  case None
  then show ?thesis using assms(2) by (simp add: expire_def stale_def)
next
  case (Some slot)
  then show ?thesis
    using stale_after_complete [of cfg "w\<lparr>stats := st\<rparr>" h slot for st] assms(1)
    by (simp add: expire_def)
qed

lemma stale_after_expires:
  assumes "table_inv cfg w" and "h \<in> set hs" and "\<forall>h\<in>set hs. handle_generation h < next_generation w"
  shows "stale h (fold (expire env) hs w)"
proof -
  obtain pre post where hs: "hs = pre @ h # post" using assms(2) by (meson split_list)
  have "next_generation w \<le> next_generation (fold (expire env) pre w)"
    by (rule growth.keeps_expires) simp
  moreover have "table_inv cfg (fold (expire env) pre w)"
    using assms(1) by (rule table.keeps_expires)
  ultimately have "stale h (expire env h (fold (expire env) pre w))"
    using hs assms(3) by (auto intro!: stale_after_expire)
  then show ?thesis using hs staleness.keeps_expires by simp
qed

text \<open>A handle whose request, if it is still outstanding, is due at \<open>now\<close>.\<close>

definition due :: "time_point \<Rightarrow> request_handle \<Rightarrow> world \<Rightarrow> bool" where
  "due now h w \<longleftrightarrow> handle_generation h < next_generation w \<and>
     (live w (handle_slot h) \<longrightarrow> generation (pending w ! handle_slot h) = handle_generation h \<longrightarrow>
        deadline (pending w ! handle_slot h) \<le> now)"

lemma due_detach: "due now h w \<Longrightarrow> due now h (snd (detach slot w))"
  by (cases "handle_slot h = slot") (auto simp: due_def live_def detach_def Let_def retire_seq_def)

lemma due_request:
  assumes "due now h w"
  shows "due now h (snd (request env spec cb w))"
proof (cases rule: request_cases [of env spec cb w])
  case (sent slot s w')
  have "due now h w'"
    using assms sent(3) free_slot_Some [OF sent(1)]
    by (cases "handle_slot h = slot") (auto simp: due_def live_def new_entry_def)
  then show ?thesis using sent(4) by (simp add: due_def live_def emit_def split: option.splits)
qed (use assms in \<open>simp_all add: due_def live_def defer_callback_def retire_seq_def split: option.splits\<close>)

interpretation dueness: client_property env "\<lambda>_. due now h" for env now h
proof unfold_locales
  fix w :: world
  assume due: "due now h w"
  show "due now h (snd (request env spec cb w))" for spec cb using due by (rule due_request)
  show "due now h (cancel h' w)" for h'
    using due due_detach [of now h "w\<lparr>stats := st\<rparr>" slot for st slot]
    by (simp add: cancel_eq due_def live_def defer_callback_def split: option.splits)
  show "due now h (finish slot res w)" for slot res
    using due_detach [OF due, of slot]
    by (simp add: finish_eq due_def live_def started_def emit_def split: option.splits)
qed (simp_all add: due_def live_def defer_work_def started_def emit_def split: option.splits)

lemma expired_iff:
  "h \<in> set (expired now w) \<longleftrightarrow> live w (handle_slot h) \<and>
     handle_generation h = generation (pending w ! handle_slot h) \<and>
     deadline (pending w ! handle_slot h) \<le> now"
  by (cases h) (auto simp: expired_def live_def)

section \<open>Destruction\<close>

text \<open>Callbacks that issue no request do not fill the table again.\<close>

fun issues_request :: "api_call \<Rightarrow> bool" where
  "issues_request (Call_request _ _) = True"
| "issues_request _ = False"

lemma live_detach: "live (snd (detach slot w)) i \<longleftrightarrow> live w i \<and> i \<noteq> slot"
  by (cases "i = slot") (auto simp: detach_def Let_def retire_seq_def live_def)

lemma live_updates [simp]:
  "live (w\<lparr>stats := st\<rparr>) i \<longleftrightarrow> live w i" "live (emit e w) i \<longleftrightarrow> live w i"
  "live (snd (defer_callback cb err w)) i \<longleftrightarrow> live w i"
  "live (w\<lparr>deferred := d\<rparr>) i \<longleftrightarrow> live w i" "live (w\<lparr>calls := n\<rparr>) i \<longleftrightarrow> live w i"
  by (simp_all add: live_def emit_def defer_callback_def split: option.splits)

lemma live_api_step: "\<not> issues_request c \<Longrightarrow> live (api_step env c w) i \<Longrightarrow> live w i"
  by (cases c) (auto simp: cancel_eq defer_work_def live_detach split: option.splits)

lemma live_api_steps:
  "\<forall>c\<in>set cs. \<not> issues_request c \<Longrightarrow> live (fold (api_step env) cs w) i \<Longrightarrow> live w i"
  by (induction cs arbitrary: w) (auto dest: live_api_step)

lemma live_reaction:
  "\<forall>n. \<forall>c\<in>set (react env n). \<not> issues_request c \<Longrightarrow> live (reaction env e w) i \<Longrightarrow> live w i"
  using live_api_steps [of "react env (calls w)" env "(emit e w)\<lparr>calls := calls w + 1\<rparr>" i]
  by (simp add: reaction_def live_def emit_def)

lemma live_complete:
  assumes "\<forall>n. \<forall>c\<in>set (react env n). \<not> issues_request c" and "live (complete env slot res w) i"
  shows "live w i \<and> i \<noteq> slot"
proof -
  have "live (snd (detach slot w)) i"
    using assms(2) live_reaction [OF assms(1)]
    by (auto simp: complete_def invoke_def split: option.splits prod.splits)
  then show ?thesis by (simp add: live_detach)
qed

lemma fail_all_empties:
  assumes "\<forall>n. \<forall>c\<in>set (react env n). \<not> issues_request c"
  shows "\<not> live (fail_all env e w) i"
proof -
  let ?f = "\<lambda>slot w. if active (pending w ! slot) then complete env slot (Inl e) w else w"
  have "live w i \<and> i \<notin> set slots" if "live (fold ?f slots w) i" for slots w
    using that
  proof (induction slots arbitrary: w)
    case (Cons slot slots)
    then have "live (?f slot w) i" "i \<notin> set slots" by simp_all
    then show ?case using live_complete [OF assms, of slot "Inl e" w i]
      by (cases "active (pending w ! slot)") (auto simp: live_def)
  qed simp
  from this [of "[0..<length (pending w)]" w] show ?thesis by (auto simp: fail_all_def live_def)
qed

lemma deliver_deferred_live:
  assumes "deliver_deferred env w = Some w'" and "\<forall>n. \<forall>c\<in>set (react env n). \<not> issues_request c"
  shows "live w' i \<Longrightarrow> live w i"
  using assms(1)
proof (induction rule: deliver_deferred_induct)
  case (batch w w')
  have "live v i" if "live (fold (run_item env) b v) i" for b v
    using that
  proof (induction b arbitrary: v)
    case (Cons x b)
    then have "live (run_item env x v) i" by simp
    then show ?case using live_reaction [OF assms(2)] by (cases x) simp_all
  qed simp
  from this [of "deferred w" "w\<lparr>deferred := []\<rparr>"] show ?case using batch by (simp add: live_def)
qed

section \<open>Properties\<close>

lemma find_by_seq_stats [simp]: "find_by_seq s (w\<lparr>stats := st\<rparr>) = find_by_seq s w"
  by (simp add: find_by_seq_def)

lemma in_flight_0: "in_flight w = 0 \<longleftrightarrow> (\<forall>i. \<not> live w i)"
  by (auto simp: in_flight_def live_def filter_empty_conv all_set_conv_all_nth)

lemma fold_earlier:
  "(fold earlier ps best = None \<longleftrightarrow> best = None \<and> (\<forall>e\<in>set ps. \<not> active e)) \<and>
   (\<forall>t. fold earlier ps best = Some t \<longrightarrow>
      t \<in> set_option best \<union> deadline ` {e \<in> set ps. active e} \<and>
      (\<forall>e\<in>set ps. active e \<longrightarrow> t \<le> deadline e) \<and> (\<forall>b\<in>set_option best. t \<le> b))"
proof (induction ps arbitrary: best)
  case (Cons e ps)
  show ?case using Cons.IH [of "earlier e best"]
    by (cases best; cases "active e") (auto simp: earlier_def split: if_splits)
qed auto

lemma balanced_init: "balanced [] (SmpClient cfg)"
proof -
  have "tokens (token \<circ> callback) (replicate n empty_slot) = {#}" for n
    by (induction n) (simp_all add: empty_slot_def)
  then show ?thesis by (simp add: balanced_def SmpClient_def empty_slot_def)
qed

lemma correlated_init: "correlated (SmpClient cfg)"
  by (simp add: correlated_def SmpClient_def empty_slot_def)

lemma balanced_idle:
  assumes "balanced [] w" and "in_flight w = 0" and "deferred w = []"
  shows "tokens made (trace w) = tokens answered (trace w)"
    and "tokens queued (trace w) = tokens ran (trace w)"
proof -
  have "\<forall>e\<in>set (pending w). callback e = None"
    using assms by (auto simp: balanced_def in_flight_0 live_def all_set_conv_all_nth)
  then have "map (token \<circ> callback) (pending w) = map (\<lambda>_. {#}) (pending w)" by simp
  then have "tokens (token \<circ> callback) (pending w) = {#}" by (simp only: tokens_def sum_list_0)
  then show "tokens made (trace w) = tokens answered (trace w)"
    and "tokens queued (trace w) = tokens ran (trace w)"
    using assms by (simp_all add: balanced_def)
qed

text \<open>
  A small scenario for the witnesses: room for two requests, the first callback to run issues a
  request of its own, sending always works and the clock stands still.
\<close>

definition demo_config :: client_config where
  "demo_config = \<lparr>smp_version = V1, default_timeout = 5000, max_smp_payload = 64,
     max_assembly_bytes = 128, max_in_flight = 2, max_retired_seqs = 3\<rparr>"

definition demo_spec :: "u8 \<Rightarrow> request_spec" where
  "demo_spec c = \<lparr>spec_op = Read, spec_group = 0, spec_command = c, spec_payload = [0xA0],
     spec_timeout = None\<rparr>"

definition demo_env :: "(nat \<Rightarrow> api_call list) \<Rightarrow> env" where
  "demo_env r = \<lparr>react = r, send_result = (\<lambda>_. Inr ()), clock_now = (\<lambda>_. 0),
     extract_mgmt_error = (\<lambda>_. Inr \<lparr>outcome_error = None, outcome_reason = []\<rparr>)\<rparr>"

definition reissue :: "nat \<Rightarrow> api_call list" where
  "reissue n = (if n = 0 then [Call_request (demo_spec 7) (Some 3)] else [])"

text \<open>Two requests, the answer to the first in two pieces, a cancellation, and a poll.\<close>

definition demo_ops :: "client_op list" where
  "demo_ops = [Api (Call_request (demo_spec 5) (Some 1)), Api (Call_request (demo_spec 6) (Some 2)),
     Bytes [1, 0, 0, 1], Bytes [0, 0, 0, 5, 0xA0],
     Api (Call_cancel \<lparr>handle_slot = 1, handle_generation = 2\<rparr>), Poll 100]"

definition example_answer :: header where
  "example_answer = \<lparr>op = ReadResponse, version = V1, flags = 0, length' = 1, group = 0, seq = 0,
     command = 5\<rparr>"

definition after :: "world option \<Rightarrow> (world \<Rightarrow> bool) \<Rightarrow> bool" where
  "after r Q = (case r of None \<Rightarrow> False | Some w \<Rightarrow> Q w)"

text \<open>
  C31. The table is safe in every run: no two outstanding requests carry the same sequence
  number, no outstanding request carries a number of the retired set, at most
  \<open>max_in_flight\<close> requests (at least one) are outstanding and at most \<open>max_retired_seqs\<close>
  numbers are remembered.
\<close>

theorem client_table_safe:
  assumes "client_run env ops (SmpClient cfg) = Some w"
  shows "seqs_unique w \<and> seqs_not_retired w \<and>
    in_flight w \<le> max 1 (unat (max_in_flight cfg)) \<and>
    card {s. is_retired s (retired w)} \<le> unat (max_retired_seqs cfg)"
proof -
  have inv: "table_inv cfg w" by (rule table.keeps_run [OF assms table_inv_init])
  then have "in_flight w \<le> max 1 (unat (max_in_flight cfg))"
    using length_filter_le [of active "pending w"] by (simp add: in_flight_def table_inv_def)
  then show ?thesis using inv rw.card_members by (auto simp: table_inv_def)
qed

theorem client_table_safe_witness:
  "after (client_run (demo_env reissue) demo_ops (SmpClient demo_config))
     (\<lambda>w. seqs_unique w \<and> seqs_not_retired w \<and> in_flight w \<le> 2)"
proof -
  have "client_run (demo_env reissue) demo_ops (SmpClient demo_config) \<noteq> None" by code_simp
  then obtain w where run: "client_run (demo_env reissue) demo_ops (SmpClient demo_config) = Some w"
    by blast
  show ?thesis using client_table_safe [OF run] run by (simp add: after_def demo_config_def)
qed

text \<open>
  C29. Every callback is accounted for, and called at most as often as it was passed to a
  request. In every run the callbacks given to \<open>request\<close> are, as a multiset, those called
  together with those still held in the table or in the queue; the same holds of work given to
  \<open>defer\<close>. When nothing is outstanding or queued, each callback has been called exactly once
  for each request made with it.
\<close>

theorem callbacks_exactly_once:
  assumes "client_run env ops (SmpClient cfg) = Some w"
  shows "tokens made (trace w) = tokens answered (trace w) +
      tokens (token \<circ> callback) (pending w) + tokens held_callback (deferred w) \<and>
    tokens queued (trace w) = tokens ran (trace w) + tokens held_work (deferred w) \<and>
    (in_flight w = 0 \<and> deferred w = [] \<longrightarrow>
      tokens made (trace w) = tokens answered (trace w) \<and>
      tokens queued (trace w) = tokens ran (trace w))"
proof -
  have bal: "balanced [] w" by (rule account.keeps_run [OF assms balanced_init])
  show ?thesis
  proof (intro conjI impI)
    assume "in_flight w = 0 \<and> deferred w = []"
    then show "tokens made (trace w) = tokens answered (trace w)"
      "tokens queued (trace w) = tokens ran (trace w)"
      using balanced_idle [OF bal] by blast+
  qed (use bal in \<open>simp_all add: balanced_def\<close>)
qed

theorem callbacks_exactly_once_witness:
  "after (client_run (demo_env reissue) (demo_ops @ [Poll 6000]) (SmpClient demo_config))
     (\<lambda>w. tokens made (trace w) = {#1, 2, 3#} \<and> tokens answered (trace w) = {#1, 2, 3#})"
proof -
  have "after (client_run (demo_env reissue) (demo_ops @ [Poll 6000]) (SmpClient demo_config))
      (\<lambda>w. in_flight w = 0 \<and> deferred w = [] \<and> tokens made (trace w) = {#1, 2, 3#})"
    by code_simp
  then obtain w where
    run: "client_run (demo_env reissue) (demo_ops @ [Poll 6000]) (SmpClient demo_config) = Some w"
    and w: "in_flight w = 0" "deferred w = []" "tokens made (trace w) = {#1, 2, 3#}"
    by (auto simp: after_def split: option.splits)
  have "tokens answered (trace w) = {#1, 2, 3#}"
    using callbacks_exactly_once [OF run] w by metis
  then show ?thesis using run w(3) by (simp add: after_def)
qed

text \<open>
  C30. Answers are correlated: in every run, whenever a callback receives a response, a request
  with that callback had been sent before, with the sequence number, the group and the command
  of the response's header, and the response's operation is the one that answers the request.
\<close>

theorem answers_correlate:
  assumes "client_run env ops (SmpClient cfg) = Some w" and "n < length (trace w)"
  shows "justified (take n (trace w)) (trace w ! n)"
  using correlation.keeps_run [OF assms(1) correlated_init] assms(2) by (simp add: correlated_def)

theorem answers_correlate_witness:
  "after (client_run (demo_env reissue) demo_ops (SmpClient demo_config))
     (\<lambda>w. justified (take 4 (trace w)) (trace w ! 4))"
proof -
  have "after (client_run (demo_env reissue) demo_ops (SmpClient demo_config))
      (\<lambda>w. 4 < length (trace w) \<and> answered (trace w ! 4) = {#1#})" by code_simp
  then obtain w where run: "client_run (demo_env reissue) demo_ops (SmpClient demo_config) = Some w"
    and "4 < length (trace w)"
    by (auto simp: after_def split: option.splits)
  then show ?thesis using answers_correlate [OF run] by (simp add: after_def)
qed

text \<open>
  A message completes exactly the request it answers, or none. If it agrees in sequence
  number, group, command and operation with an outstanding request, that request is the only
  one with the number, the number is not in the retired set, and the request is completed with
  what the message says; otherwise the message changes nothing but the counters - in
  particular when its number is retired.
\<close>

theorem message_completes_its_request:
  assumes "client_run env ops (SmpClient cfg) = Some w"
  shows "(\<exists>slot. live w slot \<and> answers (pending w ! slot) (Inr (h, p)) \<and>
      \<not> is_retired (seq h) (retired w) \<and>
      on_message env h p w = complete env slot (interpret_response env h p)
        (w\<lparr>stats := (stats w)\<lparr>stat_received := stat_received (stats w) + 1\<rparr>\<rparr>)) \<or>
    (\<exists>st. on_message env h p w = w\<lparr>stats := st\<rparr> \<and>
      (\<forall>slot. live w slot \<longrightarrow> \<not> answers (pending w ! slot) (Inr (h, p))))"
proof (cases "find_by_seq (seq h) w")
  case None
  then have "\<forall>slot. live w slot \<longrightarrow> pending_seq (pending w ! slot) \<noteq> seq h"
    by (auto simp: find_by_seq_def first_slot_None live_def all_set_conv_all_nth)
  then show ?thesis using None by (auto simp: on_message_def Let_def)
next
  case (Some slot)
  have inv: "table_inv cfg w" by (rule table.keeps_run [OF assms table_inv_init])
  have slot: "live w slot" "pending_seq (pending w ! slot) = seq h"
    using first_slot_Some Some by (fastforce simp: find_by_seq_def live_def)+
  have retired: "\<not> is_retired (seq h) (retired w)"
    using inv slot by (metis table_inv_def seqs_not_retired_def)
  show ?thesis
  proof (cases "answers (pending w ! slot) (Inr (h, p))")
    case True
    then have "on_message env h p w = complete env slot (interpret_response env h p)
        (w\<lparr>stats := (stats w)\<lparr>stat_received := stat_received (stats w) + 1\<rparr>\<rparr>)"
      using Some by (simp add: on_message_def Let_def)
    then show ?thesis using True slot(1) retired by blast
  next
    case False
    then have "\<exists>st. on_message env h p w = w\<lparr>stats := st\<rparr>"
      using Some slot(2) by (auto simp: on_message_def Let_def)
    moreover have "i = slot" if "live w i" "answers (pending w ! i) (Inr (h, p))" for i
      using inv slot that by (simp add: table_inv_def seqs_unique_def)
    ultimately show ?thesis using False by blast
  qed
qed

theorem message_completes_its_request_witness:
  "after (client_run (demo_env reissue) (take 2 demo_ops) (SmpClient demo_config))
     (\<lambda>w. \<exists>slot. live w slot \<and> on_message (demo_env reissue) example_answer [0xA0] w =
        complete (demo_env reissue) slot (interpret_response (demo_env reissue) example_answer [0xA0])
          (w\<lparr>stats := (stats w)\<lparr>stat_received := stat_received (stats w) + 1\<rparr>\<rparr>))"
proof -
  have "after (client_run (demo_env reissue) (take 2 demo_ops) (SmpClient demo_config))
      (\<lambda>w. live w 0 \<and> answers (pending w ! 0) (Inr (example_answer, [0xA0])))" by code_simp
  then obtain w where
    run: "client_run (demo_env reissue) (take 2 demo_ops) (SmpClient demo_config) = Some w"
    and "live w 0" "answers (pending w ! 0) (Inr (example_answer, [0xA0]))"
    by (auto simp: after_def simp del: answers.simps split: option.splits)
  then show ?thesis
    using message_completes_its_request [OF run, of example_answer "[0xA0]"]
    unfolding after_def option.case(2) run by blast
qed

text \<open>
  A completed or cancelled request's handle is inert for ever: after the completion or the
  cancellation, and after anything that happens later, the handle resolves to nothing and
  cancelling it changes nothing, even when its slot and its sequence number are in use again.
\<close>

theorem stale_handle_inert:
  assumes "client_run env ops (SmpClient cfg) = Some w" and "resolve h w = Some slot"
    and "w1 = complete env slot res w \<or> w1 = cancel h w"
    and "client_run env later w1 = Some w2"
  shows "resolve h w2 = None \<and> cancel h w2 = w2"
proof -
  have inv: "table_inv cfg w" by (rule table.keeps_run [OF assms(1) table_inv_init])
  have "stale h w1"
    using assms(3) stale_after_complete [OF inv assms(2)] stale_after_cancel [OF inv assms(2)] by blast
  then have "stale h w2" by (rule staleness.keeps_run [OF assms(4)])
  then show ?thesis by (simp add: stale_def cancel_eq)
qed

theorem stale_handle_inert_witness:
  "after (client_run (demo_env reissue) (take 2 demo_ops) (SmpClient demo_config))
     (\<lambda>w. after (client_run (demo_env reissue) (drop 2 demo_ops) (cancel \<lparr>handle_slot = 0, handle_generation = 1\<rparr> w))
       (\<lambda>w2. resolve \<lparr>handle_slot = 0, handle_generation = 1\<rparr> w2 = None))"
proof -
  have "after (client_run (demo_env reissue) (take 2 demo_ops) (SmpClient demo_config))
      (\<lambda>w. resolve \<lparr>handle_slot = 0, handle_generation = 1\<rparr> w = Some 0 \<and>
        after (client_run (demo_env reissue) (drop 2 demo_ops)
          (cancel \<lparr>handle_slot = 0, handle_generation = 1\<rparr> w)) (\<lambda>_. True))" by code_simp
  then obtain w w2 where
    run: "client_run (demo_env reissue) (take 2 demo_ops) (SmpClient demo_config) = Some w"
    and res: "resolve \<lparr>handle_slot = 0, handle_generation = 1\<rparr> w = Some 0"
    and late: "client_run (demo_env reissue) (drop 2 demo_ops)
      (cancel \<lparr>handle_slot = 0, handle_generation = 1\<rparr> w) = Some w2"
    by (auto simp: after_def split: option.splits)
  show ?thesis using stale_handle_inert [OF run res disjI2 [OF refl] late]
    unfolding after_def run late option.case(2) by blast
qed

text \<open>
  With room for sequence numbers (\<open>max_in_flight + max_retired_seqs\<close> at most 256) the
  allocator never fails: a request over a live link, with a payload within the limit and a free
  slot, is always handed to the transport, under a number that is neither outstanding nor
  recently retired.
\<close>

theorem request_reaches_transport:
  assumes "client_run env ops (SmpClient cfg) = Some w"
    and "max 1 (unat (max_in_flight cfg)) + unat (max_retired_seqs cfg) \<le> 256"
    and "connected w" and "length (spec_payload spec) \<le> unat (max_smp_payload cfg)"
    and "free_slot w = Some slot"
  shows "\<exists>s. seq_free w s \<and> frames (snd (request env spec cb w)) =
    frames w @ [encode (request_header cfg spec s) @ spec_payload spec]"
proof -
  have inv: "table_inv cfg w" by (rule table.keeps_run [OF assms(1) table_inv_init])
  then have inv': "table_inv cfg (requested cb w)" and cfg: "config w = cfg"
    by (simp, simp add: table_inv_def)
  obtain s where s: "seq_free w s"
    "allocate_seq (requested cb w) = Some (s, (requested cb w)\<lparr>next_seq := s + 1\<rparr>)"
    using allocate_seq_exists [OF inv' _ assms(2)] assms(5) by auto
  have "request env spec cb w = send_request env spec cb slot s ((requested cb w)\<lparr>next_seq := s + 1\<rparr>)"
    using s(2) assms(3-5) cfg by (simp add: request_def Let_def requested_def [symmetric])
  then show ?thesis using s(1) cfg
    by (auto simp: send_request_def Let_def defer_callback_def retire_seq_def emit_def
        split: sum.splits option.splits)
qed

theorem request_reaches_transport_witness:
  "after (client_run (demo_env reissue) (take 1 demo_ops) (SmpClient demo_config))
     (\<lambda>w. \<exists>s. seq_free w s \<and> frames (snd (request (demo_env reissue) (demo_spec 6) (Some 2) w)) =
        frames w @ [encode (request_header demo_config (demo_spec 6) s) @ spec_payload (demo_spec 6)])"
proof -
  have "after (client_run (demo_env reissue) (take 1 demo_ops) (SmpClient demo_config))
      (\<lambda>w. connected w \<and> free_slot w = Some 1)" by code_simp
  then obtain w where
    run: "client_run (demo_env reissue) (take 1 demo_ops) (SmpClient demo_config) = Some w"
    and "connected w" "free_slot w = Some 1"
    by (auto simp: after_def split: option.splits)
  then show ?thesis
    using request_reaches_transport [OF run, of "demo_spec 6" 1 "Some 2"]
    unfolding after_def run option.case(2) by (simp add: demo_config_def demo_spec_def)
qed

text \<open>
  C32. \<open>poll\<close> enforces the deadlines: when it returns, every request that was outstanding with
  a deadline at or before \<open>now\<close> is no longer outstanding, and no completion is left in the
  queue.
\<close>

theorem poll_expires:
  assumes "client_run env ops (SmpClient cfg) = Some w" and "poll env now w = Some w'"
    and "live w slot" and "deadline (pending w ! slot) \<le> now"
  shows "deferred w' = [] \<and>
    resolve \<lparr>handle_slot = slot, handle_generation = generation (pending w ! slot)\<rparr> w' = None"
proof -
  let ?h = "\<lparr>handle_slot = slot, handle_generation = generation (pending w ! slot)\<rparr>"
  obtain w1 where del: "deliver_deferred env w = Some w1"
    and rest: "deliver_deferred env (fold (expire env) (expired now w1) w1) = Some w'"
    using assms(2) by (auto simp: poll_def split: option.splits)
  have inv: "table_inv cfg w" by (rule table.keeps_run [OF assms(1) table_inv_init])
  have inv1: "table_inv cfg w1" by (rule table.keeps_deliver_deferred [OF del inv])
  have due: "due now ?h w1"
    using inv assms(3,4)
    by (intro dueness.keeps_deliver_deferred [OF del])
      (simp add: due_def table_inv_def generations_issued_def)
  have "stale ?h (fold (expire env) (expired now w1) w1)"
  proof (cases "?h \<in> set (expired now w1)")
    case True
    then show ?thesis
      using inv1 by (intro stale_after_expires [OF inv1])
        (auto simp: expired_iff table_inv_def generations_issued_def)
  next
    case False
    then have "stale ?h w1" using due by (auto simp: due_def stale_alt expired_iff)
    then show ?thesis by (rule staleness.keeps_expires)
  qed
  then have "stale ?h w'" by (rule staleness.keeps_deliver_deferred [OF rest])
  then show ?thesis using deliver_deferred_drains [OF rest] by (simp add: stale_def)
qed

theorem poll_expires_witness:
  "after (client_run (demo_env reissue) (take 2 demo_ops) (SmpClient demo_config))
     (\<lambda>w. after (poll (demo_env reissue) 5000 w) (\<lambda>w'. deferred w' = [] \<and>
        resolve \<lparr>handle_slot = 1, handle_generation = generation (pending w ! 1)\<rparr> w' = None))"
proof -
  have "after (client_run (demo_env reissue) (take 2 demo_ops) (SmpClient demo_config))
      (\<lambda>w. live w 1 \<and> deadline (pending w ! 1) \<le> 5000 \<and>
        after (poll (demo_env reissue) 5000 w) (\<lambda>_. True))" by code_simp
  then obtain w w' where
    run: "client_run (demo_env reissue) (take 2 demo_ops) (SmpClient demo_config) = Some w"
    and w: "live w 1" "deadline (pending w ! 1) \<le> 5000"
    and poll: "poll (demo_env reissue) 5000 w = Some w'"
    by (auto simp: after_def split: option.splits)
  show ?thesis using poll_expires [OF run poll w]
    unfolding after_def run poll option.case(2) by blast
qed

text \<open>
  \<open>poll\<close> returns, provided the callbacks stop asking for more: if from some point on they
  make no calls on the client, both drains of the queue end.
\<close>

theorem poll_returns:
  assumes "\<forall>n\<ge>N. react env n = []"
  shows "\<exists>w'. poll env now w = Some w'"
  using deliver_deferred_returns [OF assms] by (fastforce simp: poll_def split: option.splits)

theorem poll_returns_witness: "\<exists>w'. poll (demo_env reissue) 100 (SmpClient demo_config) = Some w'"
  by (rule poll_returns [of 1]) (simp add: demo_env_def reissue_def)

lemma sent_messages:
  fixes cfg :: client_config
  defines "l \<equiv> \<lparr>max_payload = max_smp_payload cfg, max_buffer = max_assembly_bytes cfg\<rparr>"
  assumes "client_run env ops (SmpClient cfg) = Some w"
    and "kHeaderSize + unat (max_smp_payload cfg) \<le> max_assembly_bytes cfg"
  shows "\<exists>ms. frames w = map wire ms \<and> (\<forall>m\<in>set ms. fits l m)"
proof -
  have "framed cfg w"
    by (rule framing.keeps_run [OF assms(2)]) (simp add: framed_def SmpClient_def)
  then have "\<forall>f\<in>set (frames w). \<exists>m. f = wire m \<and> fits l m"
    using assms(3) by (fastforce simp: l_def framed_def fits_def total_size_def word_le_nat_alt)
  then obtain g where g: "\<forall>f\<in>set (frames w). f = wire (g f) \<and> fits l (g f)" by metis
  then have "frames w = map wire (map g (frames w))" "\<forall>m\<in>set (map g (frames w)). fits l m"
    by (auto simp: map_idI)
  then show ?thesis by blast
qed

text \<open>
  What the client sends, a peer receives: the frames handed to the transport in a run,
  concatenated and cut into pieces anywhere, are reassembled by a peer with the same limits
  into one message per frame, in order, each with a payload as long as its header says.
\<close>

theorem frames_reassemble:
  assumes "client_run env ops (SmpClient cfg) = Some w" and "concat chunks = concat (frames w)"
    and "kHeaderSize + unat (max_smp_payload cfg) \<le> max_assembly_bytes cfg"
  shows "\<exists>a ms. feed_chunks collect chunks (assembler (SmpClient cfg)) [] = (a, ms, Inr ()) \<and>
    buffer a = [] \<and> frames w = map wire ms \<and>
    list_all (\<lambda>m. unat (length' (fst m)) = length (snd m)) ms"
proof -
  obtain ms where ms: "frames w = map wire ms"
      "\<forall>m\<in>set ms. fits \<lparr>max_payload = max_smp_payload cfg, max_buffer = max_assembly_bytes cfg\<rparr> m"
    using sent_messages [OF assms(1,3)] by blast
  show ?thesis using feed_wires [OF ms(2), of chunks] ms assms(2)
    by (auto simp: SmpClient_def fits_def list_all_iff)
qed

theorem frames_reassemble_witness:
  "after (client_run (demo_env reissue) demo_ops (SmpClient demo_config))
     (\<lambda>w. \<exists>a ms. feed_chunks collect (frames w) (assembler (SmpClient demo_config)) [] = (a, ms, Inr ()) \<and>
        frames w = map wire ms)"
proof -
  have "client_run (demo_env reissue) demo_ops (SmpClient demo_config) \<noteq> None" by code_simp
  then obtain w where run: "client_run (demo_env reissue) demo_ops (SmpClient demo_config) = Some w"
    by blast
  show ?thesis using frames_reassemble [OF run refl]
    unfolding after_def run option.case(2) by (auto simp: demo_config_def kHeaderSize_def)
qed

text \<open>
  Destruction completes everything, as long as callbacks issue no new requests meanwhile:
  \<open>shutdown\<close> returns, nothing is outstanding or queued afterwards, and every callback has been
  called once for every request made with it, every piece of work has run.
\<close>

theorem shutdown_completes:
  assumes "client_run env ops (SmpClient cfg) = Some w"
    and "\<forall>n. list_all (\<lambda>c. \<not> issues_request c) (react env n)" and "\<forall>n\<ge>N. react env n = []"
  shows "\<exists>w'. shutdown env w = Some w' \<and> in_flight w' = 0 \<and> deferred w' = [] \<and>
    tokens made (trace w') = tokens answered (trace w') \<and>
    tokens queued (trace w') = tokens ran (trace w')"
proof -
  let ?e = "Error Cancelled ''smp client: destroyed''"
  have quiet: "\<forall>n. \<forall>c\<in>set (react env n). \<not> issues_request c"
    using assms(2) by (simp add: list_all_iff)
  obtain w1 w' where "deliver_deferred env w = Some w1"
    and last: "deliver_deferred env (fail_all env ?e w1) = Some w'"
    using deliver_deferred_returns [OF assms(3)] by metis
  then have sd: "shutdown env w = Some w'" by (simp add: shutdown_def)
  have "balanced [] w" by (rule account.keeps_run [OF assms(1) balanced_init])
  then have bal: "balanced [] w'" by (rule account.keeps_shutdown [OF sd])
  have idle: "in_flight w' = 0"
    using deliver_deferred_live [OF last quiet] fail_all_empties [OF quiet] by (auto simp: in_flight_0)
  have empty: "deferred w' = []" by (rule deliver_deferred_drains [OF last])
  show ?thesis using sd idle empty balanced_idle [OF bal idle empty] by blast
qed

theorem shutdown_completes_witness:
  "after (client_run (demo_env (\<lambda>_. [])) (take 2 demo_ops) (SmpClient demo_config))
     (\<lambda>w. after (shutdown (demo_env (\<lambda>_. [])) w)
       (\<lambda>w'. in_flight w' = 0 \<and> tokens made (trace w') = tokens answered (trace w')))"
proof -
  have "client_run (demo_env (\<lambda>_. [])) (take 2 demo_ops) (SmpClient demo_config) \<noteq> None"
    by code_simp
  then obtain w where
    run: "client_run (demo_env (\<lambda>_. [])) (take 2 demo_ops) (SmpClient demo_config) = Some w"
    by blast
  obtain w' where "shutdown (demo_env (\<lambda>_. [])) w = Some w'" "in_flight w' = 0"
    "tokens made (trace w') = tokens answered (trace w')"
    using shutdown_completes [OF run, of 0] by (auto simp: demo_env_def)
  then show ?thesis using run by (simp add: after_def)
qed

text \<open>
  The restriction is needed: a request issued by a callback that runs inside \<open>shutdown\<close> takes
  a slot the loop has already passed, and its callback is never called.
\<close>

theorem shutdown_drops_reissued:
  "after (client_run (demo_env reissue) (take 1 demo_ops) (SmpClient demo_config))
     (\<lambda>w. after (shutdown (demo_env reissue) w)
       (\<lambda>w'. in_flight w' = 1 \<and> tokens made (trace w') = {#1, 3#} \<and>
          tokens answered (trace w') = {#1#}))"
  by code_simp

text \<open>
  \<open>next_deadline\<close> is exact: it reports work ready exactly when something is queued;
  otherwise the earliest deadline of the outstanding requests, or nothing when there is none;
  and polling before the point it names changes nothing.
\<close>

theorem next_deadline_exact:
  "(next_deadline w = Some Ready \<longleftrightarrow> deferred w \<noteq> []) \<and>
   (next_deadline w = None \<longleftrightarrow> deferred w = [] \<and> in_flight w = 0) \<and>
   (next_deadline w = Some (At t) \<longrightarrow>
      (\<exists>i. live w i \<and> deadline (pending w ! i) = t) \<and>
      (\<forall>i. live w i \<longrightarrow> t \<le> deadline (pending w ! i)) \<and>
      (\<forall>now<t. poll env now w = Some w))"
proof (intro conjI impI allI)
  have none: "map_option At (fold earlier (pending w) None) = None \<longleftrightarrow> in_flight w = 0"
    using fold_earlier [of "pending w" None] by (auto simp: in_flight_def filter_empty_conv)
  show "next_deadline w = Some Ready \<longleftrightarrow> deferred w \<noteq> []"
    by (auto simp: next_deadline_def)
  show "next_deadline w = None \<longleftrightarrow> deferred w = [] \<and> in_flight w = 0"
    using none by (simp add: next_deadline_def)
next
  assume "next_deadline w = Some (At t)"
  then have q: "deferred w = []" and t: "fold earlier (pending w) None = Some t"
    by (auto simp: next_deadline_def split: if_splits)
  have in_t: "t \<in> deadline ` {e \<in> set (pending w). active e}"
    and least: "\<forall>e\<in>set (pending w). active e \<longrightarrow> t \<le> deadline e"
    using fold_earlier [of "pending w" None] t by auto
  show "\<exists>i. live w i \<and> deadline (pending w ! i) = t"
    using in_t by (auto simp: live_def in_set_conv_nth)
  show le: "t \<le> deadline (pending w ! i)" if "live w i" for i
    using least that by (auto simp: live_def)
  show "poll env now w = Some w" if "now < t" for now
  proof -
    have "expired now w = []"
      using le that by (fastforce simp: expired_def filter_empty_conv live_def)
    then show ?thesis using q by (simp add: poll_def deliver_deferred.simps)
  qed
qed

theorem next_deadline_exact_witness:
  "after (client_run (demo_env reissue) (take 2 demo_ops) (SmpClient demo_config))
     (\<lambda>w. next_deadline w = Some (At 5000) \<and> poll (demo_env reissue) 4999 w = Some w)"
proof -
  have "after (client_run (demo_env reissue) (take 2 demo_ops) (SmpClient demo_config))
      (\<lambda>w. next_deadline w = Some (At 5000))" by code_simp
  then obtain w where
    run: "client_run (demo_env reissue) (take 2 demo_ops) (SmpClient demo_config) = Some w"
    and t: "next_deadline w = Some (At 5000)"
    by (auto simp: after_def split: option.splits)
  have "(4999::int) < 5000" by simp
  then show ?thesis using next_deadline_exact [of w 5000 "demo_env reissue"] run t
    unfolding after_def run option.case(2) by blast
qed

end
