(* ===== verification/UploadSession.thy ===== *)
theory UploadSession
  imports SmpHeader
begin

text \<open>
  The upload decision logic of \<open>src/groups/image/upload_session.hpp\<close> and
  \<open>src/groups/image/upload_session.cpp\<close>, which the source writes as pure functions: the
  next request, the reaction to a response, the resume after a dropped link, and the choice
  of the chunk size. Offsets and sizes are \<open>u64\<close>, budgets and counters \<open>u32\<close>, with
  the wrap-around of the machine. \<open>Phase::X\<close> is written \<open>Phase_X\<close>.
\<close>

section \<open>Limits\<close>

definition kUploadChunkMax :: u32 where "kUploadChunkMax = 512"
definition kUploadChunkMin :: u32 where "kUploadChunkMin = 32"
definition kDefaultSmpMessageBudget :: u32 where "kDefaultSmpMessageBudget = 256"
definition kMaxChunkRetries :: u32 where "kMaxChunkRetries = 3"
definition kMaxUploadRestarts :: u32 where "kMaxUploadRestarts = 2"
definition kMaxNoProgress :: u32 where "kMaxNoProgress = 3"

section \<open>State\<close>

record upload_config =
  image_size :: u64
  chunk_size :: u32
  image :: u32
  sha :: "bytes option"
  upgrade_only :: bool
  max_chunk_retries :: u32
  max_restarts :: u32
  max_no_progress :: u32

datatype phase = Phase_Idle | Phase_Sending | Phase_Done | Phase_Failed | Phase_Suspended

record upload_state =
  confirmed_off :: u64
  in_flight_off :: u64
  in_flight_len :: u32
  in_flight_first_packet :: bool
  consecutive_no_progress :: u32
  restarts :: u32
  retries :: u32
  progressed :: bool
  first_packet_pending :: bool
  phase :: phase

definition UploadState :: upload_state where
  "UploadState = \<lparr>confirmed_off = 0, in_flight_off = 0, in_flight_len = 0,
     in_flight_first_packet = False, consecutive_no_progress = 0, restarts = 0, retries = 0,
     progressed = False, first_packet_pending = True, phase = Phase_Idle\<rparr>"

record upload_request =
  off :: u64
  len :: u32
  first_packet :: bool

definition no_request :: upload_request where
  "no_request = \<lparr>off = 0, len = 0, first_packet = False\<rparr>"

record upload_response =
  resp_off :: "u64 option"
  resp_match :: "bool option"
  failure :: "error option"

datatype action = SendChunk | Complete | Fail | Suspend

record step =
  action :: action
  request :: upload_request
  step_error :: error
  step_match :: "bool option"
  completed_on_first_packet :: bool

definition Step :: "action \<Rightarrow> upload_request \<Rightarrow> error \<Rightarrow> bool option \<Rightarrow> step" where
  "Step a r e m = \<lparr>action = a, request = r, step_error = e, step_match = m,
     completed_on_first_packet = False\<rparr>"

section \<open>Decisions\<close>

definition fail_with :: "upload_state \<Rightarrow> error \<Rightarrow> upload_state \<times> step" where
  "fail_with st e = (st\<lparr>phase := Phase_Failed\<rparr>, Step Fail no_request e None)"

definition refuse :: "string \<Rightarrow> step" where
  "refuse why = Step Fail no_request (Error InvalidState why) None"

definition send_from :: "upload_state \<Rightarrow> upload_config \<Rightarrow> step" where
  "send_from st cfg =
     (let first = first_packet_pending st;
          o' = (if first then 0 else confirmed_off st);
          remaining = image_size cfg - o';
          n = (if remaining < ucast (chunk_size cfg) then ucast remaining else chunk_size cfg)
      in Step SendChunk \<lparr>off = o', len = n, first_packet = first\<rparr> no_error None)"

definition is_transient :: "error \<Rightarrow> bool" where
  "is_transient e \<longleftrightarrow>
     (if code e = Timeout then True
      else if code e \<noteq> ProtocolError then False
      else smp_error e = Some smp_Busy \<or> smp_error e = Some smp_NoMemory)"

definition plan_next :: "upload_state \<Rightarrow> upload_config \<Rightarrow> step" where
  "plan_next st cfg =
     (if phase st = Phase_Failed then refuse ''upload: session already failed''
      else if phase st = Phase_Suspended then refuse ''upload: session suspended''
      else if confirmed_off st \<ge> image_size cfg then Step Complete no_request no_error None
      else send_from st cfg)"

definition resume :: "upload_state \<Rightarrow> upload_config \<Rightarrow> upload_state \<times> step" where
  "resume st cfg =
     (if phase st \<noteq> Phase_Suspended then (st, refuse ''upload: no suspended session'')
      else let st' = st\<lparr>first_packet_pending := True, phase := Phase_Idle, retries := 0,
                        consecutive_no_progress := 0\<rparr>
           in (st', plan_next st' cfg))"

definition record_sent :: "upload_state \<Rightarrow> upload_request \<Rightarrow> upload_state" where
  "record_sent st r = st\<lparr>in_flight_off := off r, in_flight_len := len r,
     in_flight_first_packet := first_packet r, phase := Phase_Sending\<rparr>"

text \<open>\<open>on_response\<close> when there was no usable response.\<close>

definition on_failure :: "upload_state \<Rightarrow> error \<Rightarrow> upload_config \<Rightarrow> upload_state \<times> step" where
  "on_failure st e cfg =
     (if is_transient e \<and> retries st < max_chunk_retries cfg then
        (st\<lparr>retries := retries st + 1\<rparr>,
         Step SendChunk \<lparr>off = in_flight_off st, len = in_flight_len st,
           first_packet = in_flight_first_packet st\<rparr> no_error None)
      else if code e = Disconnected then
        (st\<lparr>phase := Phase_Suspended\<rparr>, Step Suspend no_request e None)
      else fail_with st e)"

text \<open>\<open>on_response\<close> when the server reported an offset inside the image.\<close>

definition on_offset :: "upload_state \<Rightarrow> u64 \<Rightarrow> upload_config \<Rightarrow> upload_state \<times> step" where
  "on_offset st reported cfg =
     (if reported = 0 then
        if restarts st \<ge> max_restarts cfg then
          fail_with st (Error UpdateFailed ''upload: too many restarts'')
        else let st' = st\<lparr>restarts := restarts st + 1, confirmed_off := 0,
                          first_packet_pending := True, consecutive_no_progress := 0, retries := 0\<rparr>
             in (st', send_from st' cfg)
      else if in_flight_first_packet st then
        let st' = st\<lparr>confirmed_off := reported, progressed := progressed st \<or> reported > 0,
                     first_packet_pending := False, consecutive_no_progress := 0, retries := 0\<rparr>
        in (st', send_from st' cfg)
      else if reported > confirmed_off st then
        let st' = st\<lparr>confirmed_off := reported, progressed := True,
                     first_packet_pending := False, consecutive_no_progress := 0, retries := 0\<rparr>
        in (st', send_from st' cfg)
      else
        let st1 = st\<lparr>consecutive_no_progress := consecutive_no_progress st + 1\<rparr>
        in if consecutive_no_progress st1 > max_no_progress cfg then
             fail_with st1 (Error UpdateFailed ''upload: server stopped advancing'')
           else let st' = st1\<lparr>confirmed_off := reported,
                          progressed := progressed st \<or> reported > 0,
                          first_packet_pending := False, retries := 0\<rparr>
                in (st', send_from st' cfg))"

definition on_response ::
    "upload_state \<Rightarrow> upload_response \<Rightarrow> upload_config \<Rightarrow> upload_state \<times> step" where
  "on_response st resp cfg =
     (case failure resp of
        Some e \<Rightarrow> on_failure st e cfg
      | None \<Rightarrow>
          (case resp_off resp of
             None \<Rightarrow> fail_with st (Error MalformedMessage ''upload: response has no offset'')
           | Some reported \<Rightarrow>
               if reported > image_size cfg then
                 fail_with st (Error MalformedMessage ''upload: offset beyond the image'')
               else if reported = image_size cfg then
                 if resp_match resp = Some False then
                   fail_with st (Error ImageMismatch ''upload: device hash does not match the file'')
                 else (st\<lparr>confirmed_off := reported, phase := Phase_Done\<rparr>,
                       (Step Complete no_request no_error (resp_match resp))
                         \<lparr>completed_on_first_packet :=
                             in_flight_first_packet st \<and> \<not> progressed st\<rparr>)
               else on_offset st reported cfg))"

section \<open>Chunk sizing\<close>

definition bstr_header_size :: "u64 \<Rightarrow> u64" where
  "bstr_header_size n = (if n < 24 then 1 else if n \<le> 0xFF then 2 else if n \<le> 0xFFFF then 3 else 5)"

definition kProbeBufferSize :: u64 where "kProbeBufferSize = 256"
definition kChunkDataHeaderSize :: u64 where
  "kChunkDataHeaderSize = bstr_header_size (ucast kUploadChunkMax)"

record first_packet_fields =
  fp_image_size :: u64
  fp_image :: u32
  fp_sha :: "bytes option"
  fp_upgrade_only :: bool

record chunk_budget =
  server_buf_size :: "u32 option"
  transport_max_message_size :: u64
  transport_message_overhead :: u64
  configured_max :: u32

text \<open>
  The size of the probe map is the CBOR library's: \<open>probe fields\<close> is the length of the
  encoding, \<open>None\<close> when it did not fit the \<open>kProbeBufferSize\<close> bytes of the buffer.
\<close>

type_synonym probe = "first_packet_fields \<Rightarrow> u64 option"

definition first_packet_overhead :: "probe \<Rightarrow> first_packet_fields \<Rightarrow> u64" where
  "first_packet_overhead probe fp =
     (case probe fp of
        None \<Rightarrow> kProbeBufferSize
      | Some n \<Rightarrow> (n - 1) + kChunkDataHeaderSize)"

definition compute_chunk_size ::
    "probe \<Rightarrow> chunk_budget \<Rightarrow> first_packet_fields \<Rightarrow> u32 result" where
  "compute_chunk_size probe budget fp =
     (let budget0 = (case server_buf_size budget of
            Some n \<Rightarrow> if n > 0 then ucast n else ucast kDefaultSmpMessageBudget
          | None \<Rightarrow> ucast kDefaultSmpMessageBudget) :: u64
      in if budget0 \<le> transport_message_overhead budget then
           fail MessageTooLarge ''upload: no room for a chunk''
         else let budget1 = budget0 - transport_message_overhead budget;
                  message_budget = (if transport_max_message_size budget > 0
                    then min budget1 (transport_max_message_size budget) else budget1);
                  overhead = of_nat kHeaderSize + first_packet_overhead probe fp
              in if message_budget \<le> overhead then
                   fail MessageTooLarge ''upload: no room for a chunk''
                 else let available = message_budget - overhead;
                          capped = min available (ucast (configured_max budget))
                      in if capped < ucast kUploadChunkMin then
                           fail MessageTooLarge ''upload: chunk below the 32-byte minimum''
                         else Inr (ucast capped))"

section \<open>The session as the driver runs it\<close>

text \<open>
  The driver sends what a step asks for and records it (\<open>upload_driver.cpp\<close>): one round is a
  response folded into the state followed, for \<open>SendChunk\<close>, by \<open>record_sent\<close>. A run stops
  at the first step that is not \<open>SendChunk\<close>.
\<close>

definition session_step :: "upload_config \<Rightarrow> upload_state \<Rightarrow> upload_response \<Rightarrow> upload_state \<times> step" where
  "session_step cfg st resp =
     (case on_response st resp cfg of (st', s) \<Rightarrow>
        (if action s = SendChunk then record_sent st' (request s) else st', s))"

fun drive :: "upload_config \<Rightarrow> upload_state \<Rightarrow> upload_response list \<Rightarrow> upload_state \<times> step list" where
  "drive cfg st [] = (st, [])"
| "drive cfg st (r # rs) =
     (case session_step cfg st r of (st', s) \<Rightarrow>
        if action s = SendChunk then (case drive cfg st' rs of (st'', ss) \<Rightarrow> (st'', s # ss))
        else (st', [s]))"

definition started :: "upload_config \<Rightarrow> upload_state" where
  "started cfg = record_sent UploadState (request (plan_next UploadState cfg))"

text \<open>
  The sessions with a request out, with the requests sent so far: started, continued by any
  response that asks for a chunk, or resumed after a response that suspended it.
\<close>

inductive session :: "upload_config \<Rightarrow> upload_state \<Rightarrow> upload_request list \<Rightarrow> bool"
  for cfg :: upload_config where
  start: "plan_next UploadState cfg = s \<Longrightarrow> action s = SendChunk \<Longrightarrow>
    session cfg (record_sent UploadState (request s)) [request s]"
| respond: "session cfg st rs \<Longrightarrow> on_response st resp cfg = (st', s) \<Longrightarrow> action s = SendChunk \<Longrightarrow>
    session cfg (record_sent st' (request s)) (rs @ [request s])"
| resumed: "session cfg st rs \<Longrightarrow> on_response st resp cfg = (st', s) \<Longrightarrow> action s = Suspend \<Longrightarrow>
    resume st' cfg = (st'', s') \<Longrightarrow> action s' = SendChunk \<Longrightarrow>
    session cfg (record_sent st'' (request s')) (rs @ [request s'])"

definition config_ok :: "upload_config \<Rightarrow> bool" where
  "config_ok cfg \<longleftrightarrow> 0 < image_size cfg \<and> 0 < chunk_size cfg"

text \<open>A request the server can serve: inside the image, not empty, no larger than a chunk, and
  a first packet exactly when it is at offset zero.\<close>

definition request_ok :: "upload_config \<Rightarrow> upload_request \<Rightarrow> bool" where
  "request_ok cfg r \<longleftrightarrow> unat (off r) + unat (len r) \<le> unat (image_size cfg) \<and>
     0 < len r \<and> len r \<le> chunk_size cfg \<and> (first_packet r \<longleftrightarrow> off r = 0)"

definition in_flight :: "upload_state \<Rightarrow> upload_request" where
  "in_flight st = \<lparr>off = in_flight_off st, len = in_flight_len st,
     first_packet = in_flight_first_packet st\<rparr>"

text \<open>The invariant of a session with a request out.\<close>

definition session_inv :: "upload_config \<Rightarrow> upload_state \<Rightarrow> bool" where
  "session_inv cfg st \<longleftrightarrow> phase st = Phase_Sending \<and> confirmed_off st < image_size cfg \<and>
     (\<not> first_packet_pending st \<longrightarrow> 0 < confirmed_off st) \<and> request_ok cfg (in_flight st) \<and>
     restarts st \<le> max_restarts cfg \<and> retries st \<le> max_chunk_retries cfg \<and>
     consecutive_no_progress st \<le> max_no_progress cfg"

named_theorems upload_simps \<open>definitions of the upload decisions\<close>

declare fail_with_def [upload_simps] refuse_def [upload_simps] Step_def [upload_simps]
  record_sent_def [upload_simps] on_failure_def [upload_simps] on_offset_def [upload_simps]
  on_response_def [upload_simps] session_step_def [upload_simps] Let_def [upload_simps]

lemma unat_ucast_u32: "unat (x :: u64) < 2 ^ 32 \<Longrightarrow> unat (ucast x :: u32) = unat x"
  by (simp add: unsigned_ucast_eq take_bit_nat_eq_self)

lemma unat_ucast_u64 [simp]: "unat (ucast (x :: u32) :: u64) = unat x"
  by (simp add: unsigned_ucast_eq take_bit_nat_eq_self order_less_trans [OF unat_u32_less])

lemma send_from_action [simp]: "action (send_from st cfg) = SendChunk"
  by (simp add: send_from_def Let_def Step_def)

lemma send_from_ok:
  assumes "config_ok cfg" and "confirmed_off st < image_size cfg"
    and "\<not> first_packet_pending st \<longrightarrow> 0 < confirmed_off st"
  shows "request_ok cfg (request (send_from st cfg))"
proof -
  define o' where "o' = (if first_packet_pending st then 0 else confirmed_off st)"
  define rem where "rem = image_size cfg - o'"
  have lt: "o' < image_size cfg" using assms by (auto simp: o'_def config_ok_def)
  then have rem: "unat rem = unat (image_size cfg) - unat o'" and "unat o' < unat (image_size cfg)"
    by (auto simp: rem_def unat_sub word_less_nat_alt word_le_nat_alt)
  moreover have "rem < ucast (chunk_size cfg) \<Longrightarrow> unat (ucast rem :: u32) = unat rem"
    using less_trans [OF _ unat_u32_less, of "unat rem" "chunk_size cfg"]
    by (intro unat_ucast_u32) (simp add: word_less_nat_alt)
  ultimately show ?thesis
    using assms
    by (auto simp: send_from_def Let_def Step_def request_ok_def config_ok_def word_less_nat_alt
        word_le_nat_alt simp flip: o'_def rem_def) (auto simp: o'_def split: if_splits)
qed

text \<open>A request sent and recorded from a consistent state re-establishes the invariant.\<close>

lemma record_sent_inv:
  assumes "request_ok cfg r" and "confirmed_off st < image_size cfg"
    and "\<not> first_packet_pending st \<longrightarrow> 0 < confirmed_off st"
    and "restarts st \<le> max_restarts cfg" and "retries st \<le> max_chunk_retries cfg"
    and "consecutive_no_progress st \<le> max_no_progress cfg"
  shows "session_inv cfg (record_sent st r)"
  using assms by (simp add: session_inv_def record_sent_def in_flight_def request_ok_def)

lemma started_inv:
  assumes "config_ok cfg"
  shows "session_inv cfg (started cfg)"
proof -
  have "plan_next UploadState cfg = send_from UploadState cfg"
    using assms by (auto simp: plan_next_def UploadState_def config_ok_def)
  then show ?thesis
    using send_from_ok [OF assms, of UploadState] assms
    by (auto simp: started_def UploadState_def config_ok_def intro!: record_sent_inv)
qed

lemma on_failure_inv:
  assumes "session_inv cfg st" and "on_failure st e cfg = (st', s)" and "action s = SendChunk"
  shows "session_inv cfg (record_sent st' (request s))" and "request s = in_flight st"
    and "st' = st\<lparr>retries := retries st + 1\<rparr>" and "retries st < max_chunk_retries cfg"
  using assms
  by (auto simp: upload_simps session_inv_def in_flight_def inc_le split: if_splits)

lemma on_offset_inv:
  assumes inv: "session_inv cfg st" and cfg: "config_ok cfg" and rep: "reported < image_size cfg"
    and run: "on_offset st reported cfg = (st', s)" and snd: "action s = SendChunk"
  shows "session_inv cfg (record_sent st' (request s))" and "request_ok cfg (request s)"
proof -
  have st': "confirmed_off st' = reported" "first_packet_pending st' \<longleftrightarrow> reported = 0"
    "restarts st' \<le> max_restarts cfg" "retries st' \<le> max_chunk_retries cfg"
    "consecutive_no_progress st' \<le> max_no_progress cfg" "s = send_from st' cfg"
    using inv run snd by (auto simp: upload_simps session_inv_def inc_le split: if_splits)
  show ok: "request_ok cfg (request s)"
    unfolding st'(6) using st' rep by (intro send_from_ok [OF cfg]) (auto simp: word_gt_0)
  show "session_inv cfg (record_sent st' (request s))"
    using st' rep ok by (intro record_sent_inv) (auto simp: word_gt_0)
qed

lemma on_response_cases:
  assumes "on_response st resp cfg = (st', s)" and "action s = SendChunk"
  obtains (retry) e where "failure resp = Some e" and "on_failure st e cfg = (st', s)"
  | (offset) reported where "failure resp = None" and "resp_off resp = Some reported"
      and "reported < image_size cfg" and "on_offset st reported cfg = (st', s)"
  using assms by (auto simp: on_response_def fail_with_def Step_def split: option.splits if_splits)

lemma session_step_inv:
  assumes inv: "session_inv cfg st" and cfg: "config_ok cfg"
    and run: "session_step cfg st resp = (st', s)" and snd: "action s = SendChunk"
  shows "session_inv cfg st' \<and> request_ok cfg (request s)"
proof -
  obtain st1 where r: "on_response st resp cfg = (st1, s)" and st': "st' = record_sent st1 (request s)"
    using run snd by (auto simp: session_step_def split: prod.splits if_splits)
  from r snd show ?thesis
  proof (cases rule: on_response_cases)
    case (retry e)
    then show ?thesis using on_failure_inv [OF inv _ snd] inv st' by (auto simp: session_inv_def)
  next
    case (offset reported)
    then show ?thesis using on_offset_inv [OF inv cfg _ _ snd] st' by auto
  qed
qed

lemma suspend_cases:
  assumes "on_response st resp cfg = (st', s)" and "action s = Suspend"
  shows "\<exists>e. failure resp = Some e \<and> code e = Disconnected \<and> s = Step Suspend no_request e None"
    and "st' = st\<lparr>phase := Phase_Suspended\<rparr>"
  using assms by (auto simp: upload_simps send_from_def split: option.splits if_splits)

lemma resume_suspended:
  assumes "session_inv cfg st"
  shows "resume (st\<lparr>phase := Phase_Suspended\<rparr>) cfg =
    (st\<lparr>phase := Phase_Idle, first_packet_pending := True, retries := 0, consecutive_no_progress := 0\<rparr>,
     send_from (st\<lparr>first_packet_pending := True\<rparr>) cfg)"
  using assms by (auto simp: resume_def plan_next_def session_inv_def send_from_def Let_def)

lemma resumed_inv:
  assumes inv: "session_inv cfg st" and cfg: "config_ok cfg"
    and run: "resume (st\<lparr>phase := Phase_Suspended\<rparr>) cfg = (st', s)"
  shows "session_inv cfg (record_sent st' (request s))" and "request_ok cfg (request s)"
    and "first_packet (request s)"
proof -
  have st': "st' = st\<lparr>phase := Phase_Idle, first_packet_pending := True, retries := 0,
      consecutive_no_progress := 0\<rparr>" and s: "s = send_from (st\<lparr>first_packet_pending := True\<rparr>) cfg"
    using run resume_suspended [OF inv] by auto
  show ok: "request_ok cfg (request s)"
    unfolding s using inv by (intro send_from_ok [OF cfg]) (auto simp: session_inv_def)
  show "session_inv cfg (record_sent st' (request s))"
    unfolding st' using inv ok by (intro record_sent_inv) (auto simp: session_inv_def)
  show "first_packet (request s)" by (simp add: s send_from_def Let_def Step_def)
qed

lemma session_inv_reached:
  assumes "session cfg st rs" and "config_ok cfg"
  shows "session_inv cfg st"
  using assms
proof induction
  case (start s)
  then show ?case using started_inv [of cfg] by (simp add: started_def)
next
  case (respond st rs resp st' s)
  then show ?case using session_step_inv [of cfg st resp] by (simp add: session_step_def)
next
  case (resumed st rs resp st' s st'' s')
  then show ?case using resumed_inv(1) suspend_cases(2) by metis
qed

text \<open>As long as the server has reported no progress, only first packets have been sent.\<close>

lemma not_progressed_first:
  assumes "session cfg st rs" and "config_ok cfg" and "\<not> progressed st"
  shows "list_all first_packet rs \<and> in_flight_first_packet st"
  using assms
proof induction
  case (start s)
  then show ?case
    by (auto simp: plan_next_def refuse_def Step_def send_from_def UploadState_def record_sent_def Let_def split: if_splits)
next
  case (respond st rs resp st' s)
  from respond.hyps(2,3) have "\<not> progressed st \<and> first_packet (request s)"
    using respond.IH respond.prems respond.hyps(3)
    by (cases rule: on_response_cases)
      (auto simp: upload_simps send_from_def word_gt_0 split: if_splits)
  then show ?case using respond by (simp add: record_sent_def)
next
  case (resumed st rs resp st' s st'' s')
  have inv: "session_inv cfg st" using resumed session_inv_reached by blast
  have "progressed st'' = progressed st" "first_packet (request s')"
    using resumed suspend_cases(2) resume_suspended [OF inv] resumed_inv(3) [OF inv] by force+
  then show ?case using resumed by (auto simp: record_sent_def)
qed

section \<open>Termination against a server that does not rewind\<close>

text \<open>
  A potential in mixed radix: restarts left, bytes left, repeats left, retries left. A round
  that sends again lowers it, unless the server reports an offset below the one it has
  confirmed.
\<close>

definition potential :: "upload_config \<Rightarrow> upload_state \<Rightarrow> nat" where
  "potential cfg st =
     (((unat (max_restarts cfg) - unat (restarts st)) * Suc (unat (image_size cfg)) +
       (unat (image_size cfg) - unat (confirmed_off st))) * Suc (unat (max_no_progress cfg)) +
      (unat (max_no_progress cfg) - unat (consecutive_no_progress st))) *
       Suc (unat (max_chunk_retries cfg)) +
      (unat (max_chunk_retries cfg) - unat (retries st))"

definition upload_bound :: "upload_config \<Rightarrow> nat" where
  "upload_bound cfg =
     ((unat (max_restarts cfg) * Suc (unat (image_size cfg)) + unat (image_size cfg)) *
       Suc (unat (max_no_progress cfg)) + unat (max_no_progress cfg)) *
       Suc (unat (max_chunk_retries cfg)) + unat (max_chunk_retries cfg)"

definition rewinds :: "upload_state \<Rightarrow> upload_response \<Rightarrow> bool" where
  "rewinds st resp \<longleftrightarrow> failure resp = None \<and> \<not> in_flight_first_packet st \<and>
     (case resp_off resp of None \<Rightarrow> False | Some r \<Rightarrow> 0 < r \<and> r < confirmed_off st)"

fun never_rewinds :: "upload_config \<Rightarrow> upload_state \<Rightarrow> upload_response list \<Rightarrow> bool" where
  "never_rewinds cfg st [] = True"
| "never_rewinds cfg st (r # rs) =
     (\<not> rewinds st r \<and>
      (case session_step cfg st r of (st', s) \<Rightarrow>
         action s = SendChunk \<longrightarrow> never_rewinds cfg st' rs))"

text \<open>Within one attempt a first packet is only out while nothing is confirmed.\<close>

definition fresh :: "upload_state \<Rightarrow> bool" where
  "fresh st \<longleftrightarrow> (in_flight_first_packet st \<longrightarrow> confirmed_off st = 0)"

lemma radix_less: "(a' :: nat) < a \<Longrightarrow> b' \<le> m \<Longrightarrow> a' * Suc m + b' < a * Suc m + b"
proof -
  assume "a' < a" and "b' \<le> m"
  then have "a' * Suc m + b' < Suc a' * Suc m" by simp
  also have "\<dots> \<le> a * Suc m" using \<open>a' < a\<close> by (simp only: mult_le_mono1 Suc_leI)
  finally show ?thesis by simp
qed

lemma potential_retry:
  "retries st < max_chunk_retries cfg \<Longrightarrow> potential cfg (st\<lparr>retries := retries st + 1\<rparr>) < potential cfg st"
  unfolding potential_def
  by (intro add_le_less_mono) (auto simp: unat_Suc_less word_less_nat_alt)

lemma potential_repeat:
  assumes "unat (consecutive_no_progress st') = Suc (unat (consecutive_no_progress st))"
    and "consecutive_no_progress st' \<le> max_no_progress cfg"
    and "restarts st' = restarts st" and "confirmed_off st' = confirmed_off st"
  shows "potential cfg st' < potential cfg st"
  using assms(1,2) unfolding potential_def assms(3,4)
  by (intro radix_less add_le_less_mono order_refl) (auto simp: word_le_nat_alt)

lemma potential_advance:
  assumes "confirmed_off st < confirmed_off st'" and "confirmed_off st' \<le> image_size cfg"
    and "restarts st' = restarts st"
  shows "potential cfg st' < potential cfg st"
  using assms(1,2) unfolding potential_def assms(3)
  by (intro radix_less add_le_less_mono order_refl) (auto simp: word_le_nat_alt word_less_nat_alt)

lemma potential_restart:
  assumes "unat (restarts st') = Suc (unat (restarts st))" and "restarts st' \<le> max_restarts cfg"
  shows "potential cfg st' < potential cfg st"
  using assms unfolding potential_def
  by (intro radix_less) (auto simp: word_le_nat_alt)

lemma potential_record_sent [simp]: "potential cfg (record_sent st r) = potential cfg st"
  by (simp add: potential_def record_sent_def)

lemma on_offset_potential:
  assumes inv: "session_inv cfg st" and fr: "fresh st" and rep: "reported < image_size cfg"
    and keep: "in_flight_first_packet st \<or> reported = 0 \<or> confirmed_off st \<le> reported"
    and room: "max_no_progress cfg < - 1"
    and run: "on_offset st reported cfg = (st', s)" and snd: "action s = SendChunk"
  shows "potential cfg st' < potential cfg st \<and> fresh (record_sent st' (request s))"
proof -
  have np: "unat (consecutive_no_progress st + 1) = Suc (unat (consecutive_no_progress st))"
    using inv room by (intro unat_Suc_less [of _ "- 1"]) (auto simp: session_inv_def intro: le_less_trans)
  consider (restart) "reported = 0" | (advance) "confirmed_off st < reported"
    | (repeat) "reported = confirmed_off st" "reported \<noteq> 0" "\<not> in_flight_first_packet st"
    using keep fr by (fastforce simp: fresh_def word_gt_0)
  then show ?thesis
  proof cases
    case restart
    then show ?thesis
      using run snd unat_Suc_less [of "restarts st" "max_restarts cfg"]
      by (auto simp: upload_simps send_from_def fresh_def inc_le intro!: potential_restart
          split: if_splits)
  next
    case advance
    then show ?thesis
      using run snd rep
      by (auto simp: upload_simps send_from_def fresh_def intro!: potential_advance split: if_splits)
  next
    case repeat
    then show ?thesis
      using run snd np
      by (auto simp: upload_simps send_from_def fresh_def intro!: potential_repeat split: if_splits)
  qed
qed

lemma session_step_potential:
  assumes inv: "session_inv cfg st" and fr: "fresh st" and keep: "\<not> rewinds st resp"
    and room: "max_no_progress cfg < - 1"
    and run: "session_step cfg st resp = (st', s)" and snd: "action s = SendChunk"
  shows "potential cfg st' < potential cfg st \<and> fresh st'"
proof -
  obtain st1 where r: "on_response st resp cfg = (st1, s)" and st': "st' = record_sent st1 (request s)"
    using run snd by (auto simp: session_step_def split: prod.splits if_splits)
  from r snd show ?thesis
  proof (cases rule: on_response_cases)
    case (retry e)
    then show ?thesis
      using on_failure_inv(2-4) [OF inv retry(2) snd] fr st' potential_retry [of st cfg]
      by (simp add: fresh_def) (simp add: record_sent_def in_flight_def)
  next
    case (offset reported)
    then have "in_flight_first_packet st \<or> reported = 0 \<or> confirmed_off st \<le> reported"
      using keep by (auto simp: rewinds_def word_gt_0)
    then show ?thesis using on_offset_potential [OF inv fr offset(3) _ room offset(4) snd] st' by simp
  qed
qed

text \<open>A run that is still sending after \<open>n\<close> responses has used \<open>n\<close> of its potential.\<close>

lemma drive_length:
  assumes "session_inv cfg st" and "fresh st" and "config_ok cfg" and "max_no_progress cfg < - 1"
    and "never_rewinds cfg st rs"
  shows "length (snd (drive cfg st rs)) \<le> Suc (potential cfg st)"
  using assms
proof (induction rs arbitrary: st)
  case (Cons r rs)
  obtain st' t where st: "session_step cfg st r = (st', t)" by fastforce
  show ?case
  proof (cases "action t = SendChunk")
    case True
    then have "potential cfg st' < potential cfg st" "fresh st'" "session_inv cfg st'"
      "never_rewinds cfg st' rs"
      using Cons.prems st session_step_inv [OF Cons.prems(1,3) st True]
        session_step_potential [OF Cons.prems(1,2) _ Cons.prems(4) st True] by auto
    then show ?thesis using Cons.IH [of st'] Cons.prems True st by (auto split: prod.splits)
  qed (use Cons.prems st in auto)
qed simp

lemma drive_again:
  "session_step cfg st r = (st', s) \<Longrightarrow> action s = SendChunk \<Longrightarrow>
     snd (drive cfg st (r # rs)) = s # snd (drive cfg st' rs)"
  by (simp split: prod.splits)

lemma drive_full:
  assumes "\<forall>s \<in> set (snd (drive cfg st rs)). action s = SendChunk"
  shows "length (snd (drive cfg st rs)) = length rs"
  using assms
proof (induction rs arbitrary: st)
  case (Cons r rs)
  obtain st' s where st: "session_step cfg st r = (st', s)" by fastforce
  then have "action s = SendChunk" using Cons.prems by (auto split: prod.splits if_splits)
  then show ?case using Cons.IH [of st'] Cons.prems drive_again [OF st] by (simp del: drive.simps)
qed simp

lemma first_packet_overhead_bound:
  assumes "\<forall>f n. probe f = Some n \<longrightarrow> 1 \<le> n \<and> n \<le> kProbeBufferSize"
  shows "unat (first_packet_overhead probe fp) \<le> 258"
proof (cases "probe fp")
  case (Some n)
  then have "unat n \<le> 256" using assms by (auto simp: kProbeBufferSize_def word_le_nat_alt)
  then show ?thesis
    unfolding first_packet_overhead_def Some option.case kChunkDataHeaderSize_def bstr_header_size_def
      kUploadChunkMax_def
    by (simp add: unat_word_ariths)
qed (simp add: first_packet_overhead_def kProbeBufferSize_def)

text \<open>The message budget, as a number: what the server takes less what the transport adds.\<close>

definition server_budget :: "chunk_budget \<Rightarrow> nat" where
  "server_budget b =
     (case server_buf_size b of Some k \<Rightarrow> if k = 0 then 256 else unat k | None \<Rightarrow> 256)"

lemma unat_server_budget:
  "unat ((case server_buf_size b of
        Some n \<Rightarrow> if n > 0 then ucast n else ucast kDefaultSmpMessageBudget
      | None \<Rightarrow> ucast kDefaultSmpMessageBudget) :: u64) = server_budget b"
  by (auto simp: server_budget_def kDefaultSmpMessageBudget_def word_gt_0 split: option.splits)

lemma capped_fits:
  fixes room :: u64 and ovh :: u64 and cap :: u32
  assumes "ovh < room" and "ucast kUploadChunkMin \<le> min (room - ovh) (ucast cap)"
  defines "n \<equiv> ucast (min (room - ovh) (ucast cap)) :: u32"
  shows "kUploadChunkMin \<le> n \<and> n \<le> cap \<and> unat ovh + unat n \<le> unat room"
proof -
  have u: "unat (min (room - ovh) (ucast cap)) = min (unat room - unat ovh) (unat cap)"
    using assms(1) by (auto simp: min_def word_le_nat_alt unat_sub word_less_nat_alt)
  moreover have "unat cap < 2 ^ 32" by (rule less_le_trans [OF unat_u32_less]) simp
  ultimately have n: "unat n = min (unat room - unat ovh) (unat cap)"
    unfolding n_def by (subst unat_ucast_u32) linarith+
  have "unat kUploadChunkMin \<le> unat n"
    using assms(2) u unfolding n word_le_nat_alt by simp
  then show ?thesis using n assms(1) by (simp add: word_le_nat_alt word_less_nat_alt)
qed

section \<open>Properties\<close>

text \<open>
  C24. Every request of a session, over any responses and any number of suspensions and
  resumes, lies inside the image, is not empty, is at most one chunk, and is a first packet
  exactly when it starts at offset zero; the session invariant holds throughout.
\<close>

theorem upload_session_safe:
  assumes "config_ok cfg" and "session cfg st rs"
  shows "session_inv cfg st \<and> (\<forall>r \<in> set rs. request_ok cfg r) \<and> rs \<noteq> [] \<and> last rs = in_flight st"
  using assms(2)
proof induction
  case (start s)
  then show ?case
    using started_inv [OF assms(1)]
    by (simp add: started_def) (simp add: session_inv_def in_flight_def record_sent_def request_ok_def)
next
  case (respond st rs resp st' s)
  then show ?case
    using session_step_inv [of cfg st resp] assms(1)
    by (auto simp: session_step_def in_flight_def record_sent_def)
next
  case (resumed st rs resp st' s st'' s')
  then show ?case
    using resumed_inv [of cfg st st'' s'] suspend_cases(2) [OF resumed.hyps(2,3)] assms(1)
    by (auto simp: in_flight_def record_sent_def)
qed

definition demo_config :: upload_config where
  "demo_config = \<lparr>image_size = 100, chunk_size = 64, image = 0, sha = None, upgrade_only = False,
     max_chunk_retries = 3, max_restarts = 2, max_no_progress = 3\<rparr>"

lemma demo_config_ok: "config_ok demo_config"
  by (simp add: demo_config_def config_ok_def)

lemma demo_session: "session demo_config (started demo_config) [\<lparr>off = 0, len = 64, first_packet = True\<rparr>]"
proof -
  have s: "plan_next UploadState demo_config =
      Step SendChunk \<lparr>off = 0, len = 64, first_packet = True\<rparr> no_error None"
    by (simp add: plan_next_def UploadState_def demo_config_def send_from_def)
  show ?thesis using session.start [OF s] by (simp add: s started_def Step_def)
qed

theorem upload_session_safe_witness:
  "session_inv demo_config (started demo_config) \<and> in_flight (started demo_config) =
     \<lparr>off = 0, len = 64, first_packet = True\<rparr>"
  using upload_session_safe [OF demo_config_ok demo_session] by simp

text \<open>
  What a session makes of a response: it completes exactly when the server reports the
  whole image and does not report a hash mismatch, and suspends exactly when the link is gone;
  an upload reported as complete on its first packet never sent anything but first packets; a
  suspended session resumes with a first packet.
\<close>

theorem upload_outcome:
  assumes "config_ok cfg" and "session cfg st rs" and "on_response st resp cfg = (st', s)"
  shows "(action s = Complete \<longleftrightarrow> failure resp = None \<and> resp_off resp = Some (image_size cfg) \<and>
            resp_match resp \<noteq> Some False) \<and>
         (action s = Complete \<longrightarrow> phase st' = Phase_Done \<and> confirmed_off st' = image_size cfg \<and>
            step_match s = resp_match resp \<and>
            (completed_on_first_packet s \<longrightarrow> list_all first_packet rs)) \<and>
         (action s = Suspend \<longleftrightarrow> (\<exists>e. failure resp = Some e \<and> code e = Disconnected)) \<and>
         (action s = Suspend \<longrightarrow> action (snd (resume st' cfg)) = SendChunk \<and>
            first_packet (request (snd (resume st' cfg)))) \<and>
         (action s = Fail \<longleftrightarrow> phase st' = Phase_Failed)"
proof (intro conjI)
  have inv: "session_inv cfg st" using session_inv_reached assms by blast
  show "action s = Complete \<longleftrightarrow> failure resp = None \<and> resp_off resp = Some (image_size cfg) \<and>
      resp_match resp \<noteq> Some False"
    using assms(3) by (auto simp: upload_simps send_from_def split: option.splits if_splits)
  show "action s = Complete \<longrightarrow> phase st' = Phase_Done \<and> confirmed_off st' = image_size cfg \<and>
      step_match s = resp_match resp \<and> (completed_on_first_packet s \<longrightarrow> list_all first_packet rs)"
    using assms(3) not_progressed_first [OF assms(2,1)]
    by (auto simp: upload_simps send_from_def split: option.splits if_splits)
  show "action s = Suspend \<longleftrightarrow> (\<exists>e. failure resp = Some e \<and> code e = Disconnected)"
    using assms(3)
    by (auto simp: upload_simps send_from_def is_transient_def split: option.splits if_splits)
  show "action s = Suspend \<longrightarrow> action (snd (resume st' cfg)) = SendChunk \<and>
      first_packet (request (snd (resume st' cfg)))"
    using suspend_cases(2) [OF assms(3)] resume_suspended [OF inv]
    by (auto simp: send_from_def Let_def Step_def)
  show "action s = Fail \<longleftrightarrow> phase st' = Phase_Failed"
    using assms(3) inv
    by (auto simp: upload_simps send_from_def session_inv_def split: option.splits if_splits)
qed

definition demo_done :: upload_response where
  "demo_done = \<lparr>resp_off = Some 100, resp_match = Some True, failure = None\<rparr>"

theorem upload_outcome_witness:
  "\<exists>st' s. on_response (started demo_config) demo_done demo_config = (st', s) \<and> action s = Complete \<and>
     phase st' = Phase_Done"
proof -
  obtain st' s where run: "on_response (started demo_config) demo_done demo_config = (st', s)"
    by fastforce
  then show ?thesis
    using upload_outcome [OF demo_config_ok demo_session run] by (simp add: demo_done_def demo_config_def)
qed

text \<open>
  A request that keeps failing transiently is sent again byte for byte, exactly as often as
  the retries left allow, and then the session fails with the error it was given.
\<close>

theorem upload_retry_exact:
  assumes "session_inv cfg st" and "is_transient e" and "failure resp = Some e"
    and "n = unat (max_chunk_retries cfg) - unat (retries st)"
  shows "snd (drive cfg st (replicate (Suc n) resp @ rest)) =
    replicate n (Step SendChunk (in_flight st) no_error None) @ [Step Fail no_request e None]"
  using assms
proof (induction n arbitrary: st)
  case 0
  then have "\<not> retries st < max_chunk_retries cfg" "code e \<noteq> Disconnected"
    by (auto simp: word_less_nat_alt is_transient_def split: if_splits)
  then show ?case using 0 by (auto simp: upload_simps)
next
  case (Suc n)
  then have lt: "retries st < max_chunk_retries cfg" by (simp add: word_less_nat_alt)
  define st' where "st' = record_sent (st\<lparr>retries := retries st + 1\<rparr>) (in_flight st)"
  have step: "session_step cfg st resp = (st', Step SendChunk (in_flight st) no_error None)"
    using Suc.prems lt by (simp add: upload_simps st'_def in_flight_def)
  have st': "unat (retries st') = Suc (unat (retries st))" "in_flight st' = in_flight st"
    using lt by (simp_all add: st'_def record_sent_def in_flight_def unat_Suc_less)
  have "session_inv cfg st'"
    using Suc.prems(1) lt by (simp add: st'_def session_inv_def record_sent_def in_flight_def inc_le)
  moreover have "n = unat (max_chunk_retries cfg) - unat (retries st')"
    using Suc.prems(4) st' by linarith
  ultimately have "snd (drive cfg st' (replicate (Suc n) resp @ rest)) =
      replicate n (Step SendChunk (in_flight st) no_error None) @ [Step Fail no_request e None]"
    using Suc.IH [OF _ Suc.prems(2,3), of st'] st'(2) by simp
  moreover have "snd (drive cfg st (replicate (Suc (Suc n)) resp @ rest)) =
      Step SendChunk (in_flight st) no_error None # snd (drive cfg st' (replicate (Suc n) resp @ rest))"
    using drive_again [OF step] by (simp add: Step_def del: drive.simps)
  ultimately show ?case by (simp only: replicate_Suc append_Cons)
qed

theorem upload_retry_exact_witness:
  "map action (snd (drive demo_config (started demo_config)
     (replicate (Suc 3) \<lparr>resp_off = None, resp_match = None, failure = Some (Error Timeout ''t'')\<rparr> @ []))) =
   [SendChunk, SendChunk, SendChunk, Fail]"
proof -
  have n: "3 = unat (max_chunk_retries demo_config) - unat (retries (started demo_config))"
    by (simp add: demo_config_def started_def record_sent_def UploadState_def)
  have e: "is_transient (Error Timeout ''t'')" by (simp add: is_transient_def Error_def)
  show ?thesis
    by (subst upload_retry_exact [OF started_inv [OF demo_config_ok] e _ n])
      (simp_all add: Step_def numeral_3_eq_3)
qed

text \<open>
  C25. An upload ends: against any server that does not report a non-zero offset below the one
  the session has confirmed, whatever else it reports and however often the link times out, a
  session makes at most \<open>upload_bound\<close> + 1 decisions before it completes, fails or suspends.
\<close>

theorem upload_ends:
  assumes "config_ok cfg" and "max_no_progress cfg < - 1" and "never_rewinds cfg (started cfg) rs"
    and "Suc (upload_bound cfg) < length rs"
  shows "\<exists>s \<in> set (snd (drive cfg (started cfg) rs)). action s \<noteq> SendChunk"
proof -
  have "fresh (started cfg)" by (simp add: started_def fresh_def record_sent_def UploadState_def)
  then have "length (snd (drive cfg (started cfg) rs)) \<le> Suc (potential cfg (started cfg))"
    using drive_length started_inv assms by blast
  also have "potential cfg (started cfg) = upload_bound cfg"
    by (simp add: started_def upload_bound_def) (simp add: potential_def UploadState_def)
  finally show ?thesis using drive_full [of cfg "started cfg" rs] assms(4) by force
qed

definition demo_repeat :: "upload_response list" where
  "demo_repeat = replicate 5000 \<lparr>resp_off = None, resp_match = None, failure = Some (Error Timeout ''t'')\<rparr>"

lemma never_rewinds_failing: "\<forall>r \<in> set rs. failure r \<noteq> None \<Longrightarrow> never_rewinds cfg st rs"
  by (induction rs arbitrary: st) (auto simp: rewinds_def split: prod.splits)

theorem upload_ends_witness:
  "\<exists>s \<in> set (snd (drive demo_config (started demo_config) demo_repeat)). action s \<noteq> SendChunk"
proof (rule upload_ends [OF demo_config_ok])
  show "max_no_progress demo_config < - 1" by (simp add: demo_config_def)
  show "never_rewinds demo_config (started demo_config) demo_repeat"
    by (rule never_rewinds_failing) (simp add: demo_repeat_def)
  show "Suc (upload_bound demo_config) < length demo_repeat"
    by (simp add: upload_bound_def demo_config_def demo_repeat_def)
qed

text \<open>
  A server that advances and steps back in turn keeps an upload going for ever: each advance
  clears the count of responses without progress, so the limit on them is never reached, and
  after every number of rounds the session is sending again.
\<close>

fun pingpong :: "nat \<Rightarrow> upload_response list" where
  "pingpong 0 = []"
| "pingpong (Suc n) = \<lparr>resp_off = Some 2, resp_match = None, failure = None\<rparr> #
     \<lparr>resp_off = Some 1, resp_match = None, failure = None\<rparr> # pingpong n"

theorem pingpong_unbounded:
  assumes "config_ok cfg" and "2 < image_size cfg" and "0 < max_no_progress cfg"
    and "session_inv cfg st" and "confirmed_off st < 2"
  shows "length (snd (drive cfg st (pingpong n))) = 2 * n \<and>
    (\<forall>s \<in> set (snd (drive cfg st (pingpong n))). action s = SendChunk)"
  using assms(4,5)
proof (induction n arbitrary: st)
  case (Suc n)
  let ?r = "\<lambda>k. \<lparr>resp_off = Some k, resp_match = None, failure = None\<rparr>"
  obtain st1 s1 where a: "session_step cfg st (?r 2) = (st1, s1)" by fastforce
  obtain st2 s2 where b: "session_step cfg st1 (?r 1) = (st2, s2)" by fastforce
  have s1: "action s1 = SendChunk" "confirmed_off st1 = 2" "consecutive_no_progress st1 = 0"
    "\<not> in_flight_first_packet st1"
    using a assms(2) Suc.prems(2) by (auto simp: upload_simps send_from_def split: if_splits)
  have "1 < image_size cfg" "\<not> max_no_progress cfg < 1" "image_size cfg \<noteq> 1"
    using assms(2,3) by (auto simp: word_less_nat_alt)
  then have s2: "action s2 = SendChunk" "confirmed_off st2 = 1"
    using b s1 by (auto simp: upload_simps send_from_def split: if_splits)
  have "session_inv cfg st2"
    using session_step_inv [OF _ assms(1) b s2(1)] session_step_inv [OF Suc.prems(1) assms(1) a s1(1)] by blast
  then show ?case using Suc.IH [of st2] a b s1 s2 by (auto split: prod.splits)
qed simp

theorem pingpong_unbounded_witness:
  "length (snd (drive demo_config (started demo_config) (pingpong 1000))) = 2000"
  using pingpong_unbounded [OF demo_config_ok _ _ started_inv [OF demo_config_ok], of 1000]
  by (simp add: demo_config_def started_def record_sent_def UploadState_def)


definition demo_budget :: chunk_budget where
  "demo_budget = \<lparr>server_buf_size = Some 512, transport_max_message_size = 0,
     transport_message_overhead = 4, configured_max = 512\<rparr>"

definition demo_fields :: first_packet_fields where
  "demo_fields = \<lparr>fp_image_size = 1000, fp_image = 0, fp_sha = None, fp_upgrade_only = False\<rparr>"


end
