(* ===== verification/ImageValues.thy ===== *)
theory ImageValues
  imports Errors
begin

text \<open>
  The two values a device reports about an image, from \<open>src/image/image_values.cpp\<close> and
  \<open>include/smply/mcuboot_image.hpp\<close>: \<open>ImageHash\<close>, as the bytes \<open>bytes()\<close> shows
  (the empty list is a default-constructed hash), and \<open>ImageVersion\<close> with its parser and
  printer. In the parser the cursor \<open>at\<close> is the text still ahead of it.
\<close>

section \<open>Hashes\<close>

type_synonym image_hash = bytes

definition kMaxImageHashLength :: nat where "kMaxImageHashLength = 64"

definition ImageHash_from :: "bytes \<Rightarrow> image_hash result" where
  "ImageHash_from bs =
     (if bs = [] then fail CborDecode ''image: empty hash''
      else if length bs > kMaxImageHashLength then fail CborDecode ''image: hash too long''
      else Inr bs)"

section \<open>Versions\<close>

definition kMaxVersionStringLength :: nat where "kMaxVersionStringLength = 32"

record image_version =
  major :: u8
  minor :: u8
  revision :: u16
  build :: u32

definition is_digit :: "char \<Rightarrow> bool" where
  "is_digit c \<longleftrightarrow> of_char c \<ge> (48 :: nat) \<and> of_char c \<le> (57 :: nat)"

definition digit_value :: "char \<Rightarrow> nat" where
  "digit_value c = of_char c - 48"

text \<open>
  The digits of one component, from the value so far. The value is checked against the limit
  after every digit, and the limit is at most \<open>2 ^ 32 - 1\<close>, so the 64-bit accumulator of the
  source never wraps.
\<close>

fun digits :: "nat \<Rightarrow> nat \<Rightarrow> string \<Rightarrow> (nat \<times> string) result" where
  "digits limit v [] = Inr (v, [])"
| "digits limit v (c # cs) =
     (if is_digit c then
        let v' = v * 10 + digit_value c
        in if v' > limit then fail InvalidArgument ''image: version component too large''
           else digits limit v' cs
      else Inr (v, c # cs))"

definition number :: "nat \<Rightarrow> string \<Rightarrow> (nat \<times> string) result" where
  "number limit text =
     (case digits limit 0 text of
        Inl e \<Rightarrow> Inl e
      | Inr (v, rest) \<Rightarrow>
          if length rest = length text
          then fail InvalidArgument ''image: version component missing'' else Inr (v, rest))"

definition separator :: "char \<Rightarrow> string \<Rightarrow> string option" where
  "separator expected text =
     (case text of c # cs \<Rightarrow> if c = expected then Some cs else None | [] \<Rightarrow> None)"

definition finish_version :: "image_version \<Rightarrow> string \<Rightarrow> image_version result" where
  "finish_version v text =
     (if text \<noteq> [] then fail InvalidArgument ''image: trailing text after version'' else Inr v)"

definition parse_build :: "image_version \<Rightarrow> string \<Rightarrow> image_version result" where
  "parse_build v text =
     (case (case separator CHR ''.'' text of Some t \<Rightarrow> Some t | None \<Rightarrow> separator CHR ''+'' text) of
        None \<Rightarrow> finish_version v text
      | Some t \<Rightarrow>
          (case number 4294967295 t of
             Inl e \<Rightarrow> Inl e
           | Inr (b, t') \<Rightarrow> finish_version (v\<lparr>build := of_nat b\<rparr>) t'))"

definition ImageVersion_parse :: "string \<Rightarrow> image_version result" where
  "ImageVersion_parse text =
     (if text = [] \<or> length text > kMaxVersionStringLength
      then fail InvalidArgument ''image: version string not parseable''
      else case number 255 text of
        Inl e \<Rightarrow> Inl e
      | Inr (ma, t1) \<Rightarrow>
          (case separator CHR ''.'' t1 of
             None \<Rightarrow> fail InvalidArgument ''image: version needs major.minor.revision''
           | Some t2 \<Rightarrow>
               (case number 255 t2 of
                  Inl e \<Rightarrow> Inl e
                | Inr (mi, t3) \<Rightarrow>
                    (case separator CHR ''.'' t3 of
                       None \<Rightarrow> fail InvalidArgument ''image: version needs major.minor.revision''
                     | Some t4 \<Rightarrow>
                         (case number 65535 t4 of
                            Inl e \<Rightarrow> Inl e
                          | Inr (re, t5) \<Rightarrow>
                              parse_build \<lparr>major = of_nat ma, minor = of_nat mi,
                                revision = of_nat re, build = 0\<rparr> t5)))))"

text \<open>\<open>std::to_string\<close> on an unsigned integer.\<close>

fun decimal :: "nat \<Rightarrow> string" where
  "decimal n = (if n < 10 then [char_of (48 + n)] else decimal (n div 10) @ [char_of (48 + n mod 10)])"

declare decimal.simps [simp del]

definition ImageVersion_to_string :: "image_version \<Rightarrow> string" where
  "ImageVersion_to_string v =
     decimal (unat (major v)) @ CHR ''.'' # decimal (unat (minor v)) @ CHR ''.'' #
     decimal (unat (revision v)) @ (if build v \<noteq> 0 then CHR ''.'' # decimal (unat (build v)) else [])"

section \<open>Printing and parsing\<close>

definition not_digit_ahead :: "string \<Rightarrow> bool" where
  "not_digit_ahead t \<longleftrightarrow> (t = [] \<or> \<not> is_digit (hd t))"

lemma not_digit_ahead_simps [simp]: "not_digit_ahead []" "not_digit_ahead (CHR ''.'' # t)"
  "not_digit_ahead (CHR ''+'' # t)"
  by (simp_all add: not_digit_ahead_def is_digit_def)

lemma digit_char [simp]:
  "d < 10 \<Longrightarrow> is_digit (char_of (48 + d))" "d < 10 \<Longrightarrow> digit_value (char_of (48 + d)) = d"
  by (simp_all add: is_digit_def digit_value_def)

lemma digits_stop: "not_digit_ahead t \<Longrightarrow> digits limit v t = Inr (v, t)"
  by (cases t) (auto simp: not_digit_ahead_def)

lemma decimal_nonempty [simp]: "decimal n \<noteq> []"
  by (subst decimal.simps) simp

text \<open>Reading a printed number behind some digits already read.\<close>

lemma digits_decimal:
  "v = 0 \<Longrightarrow> n \<le> limit \<Longrightarrow> digits limit v (decimal n @ t) = digits limit n t"
proof (induction n arbitrary: v t rule: decimal.induct)
  case (1 n)
  show ?case
  proof (cases "n < 10")
    case True
    then show ?thesis using 1 by (subst decimal.simps) (simp add: Let_def)
  next
    case False
    have le: "n div 10 \<le> limit" using 1 by (meson div_le_dividend le_trans)
    have "digits limit v (decimal n @ t) =
        digits limit v (decimal (n div 10) @ char_of (48 + n mod 10) # t)"
      using False by (subst decimal.simps) simp
    also have "\<dots> = digits limit (n div 10) (char_of (48 + n mod 10) # t)"
      using 1 False le by blast
    also have "\<dots> = digits limit n t"
      using 1(3) by (simp add: Let_def)
    finally show ?thesis .
  qed
qed

lemma number_decimal:
  "n \<le> limit \<Longrightarrow> not_digit_ahead t \<Longrightarrow> number limit (decimal n @ t) = Inr (n, t)"
  by (simp add: number_def digits_decimal digits_stop)

lemma length_decimal: "n < 10 ^ Suc k \<Longrightarrow> length (decimal n) \<le> Suc k"
proof (induction k arbitrary: n)
  case 0
  then show ?case by (subst decimal.simps) simp
next
  case (Suc k)
  show ?case
  proof (cases "n < 10")
    case True
    then show ?thesis by (subst decimal.simps) simp
  next
    case False
    have "n div 10 < 10 ^ Suc k" using Suc.prems by (simp add: less_mult_imp_div_less)
    then show ?thesis using Suc.IH False by (subst decimal.simps) simp
  qed
qed

lemma length_to_string:
  "length (ImageVersion_to_string v) \<le> (if build v = 0 then 13 else 24)"
proof -
  have "unat (major v) < 10 ^ Suc 2" "unat (minor v) < 10 ^ Suc 2"
    by (rule less_trans [OF unat_u8_less], simp)+
  moreover have "unat (revision v) < 10 ^ Suc 4" "unat (build v) < 10 ^ Suc 9"
    by (rule less_trans [OF unat_u16_less], simp, rule less_trans [OF unat_u32_less], simp)
  ultimately show ?thesis
    using length_decimal [of "unat (major v)" 2] length_decimal [of "unat (minor v)" 2]
      length_decimal [of "unat (revision v)" 4] length_decimal [of "unat (build v)" 9]
    by (simp add: ImageVersion_to_string_def del: power_Suc)
qed

section \<open>Properties\<close>

text \<open>
  Every version survives printing and parsing, the build number included whether it is
  zero (then it is not printed) or not, and so does imgtool's form with a plus sign.
\<close>

theorem image_version_roundtrip:
  "ImageVersion_parse (ImageVersion_to_string v) = Inr v \<and>
   ImageVersion_parse (ImageVersion_to_string (v\<lparr>build := 0\<rparr>) @ CHR ''+'' # decimal (unat (build v))) = Inr v"
proof
  have le: "unat (major v) \<le> 255" "unat (minor v) \<le> 255" "unat (revision v) \<le> 65535"
    "unat (build v) \<le> 4294967295"
    using unat_u8_less [of "major v"] unat_u8_less [of "minor v"] unat_u16_less [of "revision v"]
      unat_u32_less [of "build v"] by linarith+
  have ne: "ImageVersion_to_string w @ t \<noteq> []" for w t by (simp add: ImageVersion_to_string_def)
  note [simp] = number_decimal [OF le(1)] number_decimal [OF le(2)] number_decimal [OF le(3)]
    number_decimal [OF le(4)] number_decimal [OF le(4), of "[]", simplified]
    number_decimal [OF le(3), of "[]", simplified] separator_def
  have "length (ImageVersion_to_string v) \<le> 32"
    using length_to_string [of v] by (simp split: if_splits)
  then show "ImageVersion_parse (ImageVersion_to_string v) = Inr v"
    using ne [of v "[]"]
    by (simp add: ImageVersion_parse_def kMaxVersionStringLength_def)
      (simp add: ImageVersion_to_string_def parse_build_def finish_version_def)
  have "length (decimal (unat (build v))) \<le> 10"
    using length_decimal [of "unat (build v)" 9] le(4) by simp
  then show "ImageVersion_parse (ImageVersion_to_string (v\<lparr>build := 0\<rparr>) @
      CHR ''+'' # decimal (unat (build v))) = Inr v"
    using length_to_string [of "v\<lparr>build := 0\<rparr>"] ne [of "v\<lparr>build := 0\<rparr>"]
    by (simp add: ImageVersion_parse_def kMaxVersionStringLength_def)
      (simp add: ImageVersion_to_string_def parse_build_def finish_version_def)
qed

end
