(* ===== verification/Sha256.thy ===== *)
theory Sha256
  imports Prelude
begin

text \<open>
  The incremental SHA-256 of \<open>src/image/sha256.hpp\<close> and \<open>src/image/sha256.cpp\<close>: compression
  of a block, absorption of chunks of any size through a partial block, padding. The reference
  is the one-shot definition of FIPS 180-4: pad the whole message, cut it into blocks, fold the
  compression with its message schedule given by the recurrence of the standard. The partial
  block is the list of the first \<open>buffered_\<close> bytes of \<open>buffer_\<close>; nothing reads the others.
\<close>

section \<open>Words\<close>

definition kSha256DigestSize :: nat where "kSha256DigestSize = 32"
definition kSha256BlockSize :: nat where "kSha256BlockSize = 64"

definition kRoundConstants :: "u32 list" where
  "kRoundConstants =
    [0x428A2F98, 0x71374491, 0xB5C0FBCF, 0xE9B5DBA5, 0x3956C25B, 0x59F111F1, 0x923F82A4,
     0xAB1C5ED5, 0xD807AA98, 0x12835B01, 0x243185BE, 0x550C7DC3, 0x72BE5D74, 0x80DEB1FE,
     0x9BDC06A7, 0xC19BF174, 0xE49B69C1, 0xEFBE4786, 0x0FC19DC6, 0x240CA1CC, 0x2DE92C6F,
     0x4A7484AA, 0x5CB0A9DC, 0x76F988DA, 0x983E5152, 0xA831C66D, 0xB00327C8, 0xBF597FC7,
     0xC6E00BF3, 0xD5A79147, 0x06CA6351, 0x14292967, 0x27B70A85, 0x2E1B2138, 0x4D2C6DFC,
     0x53380D13, 0x650A7354, 0x766A0ABB, 0x81C2C92E, 0x92722C85, 0xA2BFE8A1, 0xA81A664B,
     0xC24B8B70, 0xC76C51A3, 0xD192E819, 0xD6990624, 0xF40E3585, 0x106AA070, 0x19A4C116,
     0x1E376C08, 0x2748774C, 0x34B0BCB5, 0x391C0CB3, 0x4ED8AA4A, 0x5B9CCA4F, 0x682E6FF3,
     0x748F82EE, 0x78A5636F, 0x84C87814, 0x8CC70208, 0x90BEFFFA, 0xA4506CEB, 0xBEF9A3F7,
     0xC67178F2]"

definition initial_state :: "u32 list" where
  "initial_state = [0x6A09E667, 0xBB67AE85, 0x3C6EF372, 0xA54FF53A, 0x510E527F, 0x9B05688C,
     0x1F83D9AB, 0x5BE0CD19]"

definition rotate_right :: "u32 \<Rightarrow> nat \<Rightarrow> u32" where
  "rotate_right value bits = drop_bit bits value OR push_bit (32 - bits) value"

text \<open>\<open>load_be32\<close> on a pointer is a load at an index of the block.\<close>

definition load_be32 :: "bytes \<Rightarrow> nat \<Rightarrow> u32" where
  "load_be32 from i = push_bit 24 (ucast (from ! i)) OR push_bit 16 (ucast (from ! (i + 1))) OR
     push_bit 8 (ucast (from ! (i + 2))) OR ucast (from ! (i + 3))"

definition store_be32 :: "u32 \<Rightarrow> bytes" where
  "store_be32 value = [ucast (drop_bit 24 value AND 0xFF), ucast (drop_bit 16 value AND 0xFF),
     ucast (drop_bit 8 value AND 0xFF), ucast (value AND 0xFF)]"

section \<open>Compression\<close>

text \<open>One step of the second loop over the schedule: the word at index \<open>i\<close>, from the words
  before it.\<close>

definition extend_schedule :: "nat \<Rightarrow> u32 list \<Rightarrow> u32 list" where
  "extend_schedule i schedule =
     (let s0 = rotate_right (schedule ! (i - 15)) 7 XOR rotate_right (schedule ! (i - 15)) 18 XOR
            drop_bit 3 (schedule ! (i - 15));
          s1 = rotate_right (schedule ! (i - 2)) 17 XOR rotate_right (schedule ! (i - 2)) 19 XOR
            drop_bit 10 (schedule ! (i - 2))
      in schedule @ [schedule ! (i - 16) + s0 + schedule ! (i - 7) + s1])"

definition message_schedule :: "bytes \<Rightarrow> u32 list" where
  "message_schedule block =
     fold extend_schedule [16..<64] (map (\<lambda>i. load_be32 block (i * 4)) [0..<16])"

type_synonym working = "u32 \<times> u32 \<times> u32 \<times> u32 \<times> u32 \<times> u32 \<times> u32 \<times> u32"

fun sha_round :: "u32 \<Rightarrow> u32 \<Rightarrow> working \<Rightarrow> working" where
  "sha_round k w (a, b, c, d, e, f, g, h) =
     (let sigma1 = rotate_right e 6 XOR rotate_right e 11 XOR rotate_right e 25;
          chosen = (e AND f) XOR (NOT e AND g);
          temp1 = h + sigma1 + chosen + k + w;
          sigma0 = rotate_right a 2 XOR rotate_right a 13 XOR rotate_right a 22;
          majority = (a AND b) XOR (a AND c) XOR (b AND c);
          temp2 = sigma0 + majority
      in (temp1 + temp2, a, b, c, d + temp1, e, f, g))"

fun add_working :: "u32 list \<Rightarrow> working \<Rightarrow> u32 list" where
  "add_working st (a, b, c, d, e, f, g, h) =
     [st ! 0 + a, st ! 1 + b, st ! 2 + c, st ! 3 + d, st ! 4 + e, st ! 5 + f, st ! 6 + g, st ! 7 + h]"

definition compress :: "bytes \<Rightarrow> u32 list \<Rightarrow> u32 list" where
  "compress block st =
     (let schedule = message_schedule block in
      add_working st
        (fold (\<lambda>i. sha_round (kRoundConstants ! i) (schedule ! i)) [0..<64]
          (st ! 0, st ! 1, st ! 2, st ! 3, st ! 4, st ! 5, st ! 6, st ! 7)))"

section \<open>Absorbing and finishing\<close>

record sha256 =
  sha_state :: "u32 list"
  sha_length :: u64
  sha_buffer :: bytes

definition Sha256 :: sha256 where
  "Sha256 = \<lparr>sha_state = initial_state, sha_length = 0, sha_buffer = []\<rparr>"

function absorb :: "bytes \<Rightarrow> sha256 \<Rightarrow> sha256" where
  "absorb data s =
     (if kSha256BlockSize \<le> length data then
        absorb (drop kSha256BlockSize data)
          (s\<lparr>sha_state := compress (take kSha256BlockSize data) (sha_state s)\<rparr>)
      else s\<lparr>sha_buffer := data\<rparr>)"
  by pat_completeness auto
termination by (relation "measure (length \<circ> fst)") (auto simp: kSha256BlockSize_def)

declare absorb.simps [simp del]

definition update :: "bytes \<Rightarrow> sha256 \<Rightarrow> sha256" where
  "update data s0 =
     (let s = s0\<lparr>sha_length := sha_length s0 + of_nat (length data)\<rparr> in
      if sha_buffer s \<noteq> [] then
        let wanted = min (kSha256BlockSize - length (sha_buffer s)) (length data);
            held = sha_buffer s @ take wanted data;
            rest = drop wanted data
        in if length held < kSha256BlockSize then s\<lparr>sha_buffer := held\<rparr>
           else absorb rest (s\<lparr>sha_state := compress held (sha_state s), sha_buffer := []\<rparr>)
      else absorb data s)"

definition finish :: "sha256 \<Rightarrow> bytes" where
  "finish s =
     (let bit_length = sha_length s * 8;
          tail = sha_buffer s @ [0x80];
          (st, held) =
            (if length tail > kSha256BlockSize - 8
             then (compress (tail @ replicate (kSha256BlockSize - length tail) 0) (sha_state s), [])
             else (sha_state s, tail));
          last = held @ replicate (kSha256BlockSize - 8 - length held) 0 @
            store_be32 (ucast (drop_bit 32 bit_length)) @ store_be32 (ucast (bit_length AND 0xFFFFFFFF))
      in concat (map store_be32 (compress last st)))"

section \<open>The standard\<close>

text \<open>The functions and the message schedule of FIPS 180-4, sections 3.2, 4.1.2 and 6.2.2.\<close>

definition ROTR :: "nat \<Rightarrow> u32 \<Rightarrow> u32" where
  "ROTR n x = drop_bit n x OR push_bit (32 - n) x"

definition small_sigma0 :: "u32 \<Rightarrow> u32" where
  "small_sigma0 x = ROTR 7 x XOR ROTR 18 x XOR drop_bit 3 x"

definition small_sigma1 :: "u32 \<Rightarrow> u32" where
  "small_sigma1 x = ROTR 17 x XOR ROTR 19 x XOR drop_bit 10 x"

definition big_sigma0 :: "u32 \<Rightarrow> u32" where
  "big_sigma0 x = ROTR 2 x XOR ROTR 13 x XOR ROTR 22 x"

definition big_sigma1 :: "u32 \<Rightarrow> u32" where
  "big_sigma1 x = ROTR 6 x XOR ROTR 11 x XOR ROTR 25 x"

definition Ch :: "u32 \<Rightarrow> u32 \<Rightarrow> u32 \<Rightarrow> u32" where
  "Ch x y z = (x AND y) XOR (NOT x AND z)"

definition Maj :: "u32 \<Rightarrow> u32 \<Rightarrow> u32 \<Rightarrow> u32" where
  "Maj x y z = (x AND y) XOR (x AND z) XOR (y AND z)"

fun fips_w :: "bytes \<Rightarrow> nat \<Rightarrow> u32" where
  "fips_w block t =
     (if t < 16 then load_be32 block (4 * t)
      else small_sigma1 (fips_w block (t - 2)) + fips_w block (t - 7) +
        small_sigma0 (fips_w block (t - 15)) + fips_w block (t - 16))"

declare fips_w.simps [simp del]

fun fips_round :: "bytes \<Rightarrow> nat \<Rightarrow> working \<Rightarrow> working" where
  "fips_round block t (a, b, c, d, e, f, g, h) =
     (let t1 = h + big_sigma1 e + Ch e f g + kRoundConstants ! t + fips_w block t;
          t2 = big_sigma0 a + Maj a b c
      in (t1 + t2, a, b, c, d + t1, e, f, g))"

definition fips_compress :: "bytes \<Rightarrow> u32 list \<Rightarrow> u32 list" where
  "fips_compress block st = add_working st (fold (fips_round block) [0..<64]
     (st ! 0, st ! 1, st ! 2, st ! 3, st ! 4, st ! 5, st ! 6, st ! 7))"

text \<open>Padding (5.1.1) and the cut into blocks (5.2.1).\<close>

definition pad :: "bytes \<Rightarrow> bytes" where
  "pad msg = msg @ [0x80] @ replicate ((119 - length msg mod 64) mod 64) 0 @
     store_be32 (ucast (drop_bit 32 (of_nat (length msg * 8) :: u64))) @
     store_be32 (ucast (of_nat (length msg * 8) :: u64))"

function blocks :: "bytes \<Rightarrow> bytes list" where
  "blocks bs = (if length bs < 64 then [] else take 64 bs # blocks (drop 64 bs))"
  by pat_completeness auto
termination by (relation "measure length") auto

declare blocks.simps [simp del]

definition sha256_spec :: "bytes \<Rightarrow> bytes" where
  "sha256_spec msg = concat (map store_be32 (fold fips_compress (blocks (pad msg)) initial_state))"

section \<open>Compression meets the standard\<close>

lemma rotate_right_ROTR: "rotate_right x n = ROTR n x"
  by (simp add: rotate_right_def ROTR_def)

lemma extend_schedule_fips:
  assumes "16 \<le> i" and "schedule = map (fips_w block) [0..<i]"
  shows "extend_schedule i schedule = map (fips_w block) [0..<Suc i]"
proof -
  have "extend_schedule i schedule = schedule @ [fips_w block i]"
    using assms fips_w.simps [of block i]
    by (simp add: extend_schedule_def Let_def rotate_right_ROTR small_sigma0_def small_sigma1_def
        ac_simps)
  then show ?thesis using assms(2) by simp
qed

lemma message_schedule_fips: "message_schedule block = map (fips_w block) [0..<64]"
proof -
  have init: "map (\<lambda>i. load_be32 block (i * 4)) [0..<16] = map (fips_w block) [0..<16]"
    by (simp add: fips_w.simps [of block] mult.commute)
  have "fold extend_schedule [16..<16 + n] (map (fips_w block) [0..<16]) = map (fips_w block) [0..<16 + n]" for n
  proof (induction n)
    case (Suc n)
    have "[16..<16 + Suc n] = [16..<16 + n] @ [16 + n]" by (metis add_Suc_right le_add1 upt_Suc_append)
    then show ?case using Suc extend_schedule_fips [of "16 + n" _ block] by simp
  qed simp
  from this [of 48] show ?thesis by (simp add: message_schedule_def init)
qed

lemma compress_fips: "compress = fips_compress"
proof (intro ext)
  fix block st
  have "sha_round (kRoundConstants ! i) (message_schedule block ! i) = fips_round block i" if "i < 64" for i
    using that by (auto simp: fun_eq_iff message_schedule_fips Let_def rotate_right_ROTR
        big_sigma0_def big_sigma1_def Ch_def Maj_def)
  then have "fold (\<lambda>i. sha_round (kRoundConstants ! i) (message_schedule block ! i)) [0..<64] x =
      fold (fips_round block) [0..<64] x" for x
    by (intro fold_cong) auto
  then show "compress block st = fips_compress block st"
    by (simp add: compress_def fips_compress_def Let_def)
qed

section \<open>Absorbing meets the standard\<close>

lemma blocks_append: "64 dvd length xs \<Longrightarrow> blocks (xs @ ys) = blocks xs @ blocks ys"
proof (induction xs rule: blocks.induct)
  case (1 xs)
  show ?case
  proof (cases "length xs < 64")
    case True
    then have "xs = []" using "1.prems" by (metis dvd_imp_le length_0_conv length_greater_0_conv not_less)
    then show ?thesis by (simp add: blocks.simps [of "[]"])
  next
    case False
    then have "64 dvd length (drop 64 xs)" using "1.prems" by (simp add: dvd_diff_nat)
    then show ?thesis using "1.IH" False by (simp add: blocks.simps [of xs] blocks.simps [of "xs @ ys"])
  qed
qed

lemma blocks_single: "length xs = 64 \<Longrightarrow> blocks xs = [xs]"
  by (simp add: blocks.simps [of xs] blocks.simps [of "[]"])

lemma blocks_front:
  "64 dvd length front \<Longrightarrow> length a = 64 \<Longrightarrow> blocks (front @ a) = blocks front @ [a]"
  "64 dvd length front \<Longrightarrow> length a = 64 \<Longrightarrow> length b = 64 \<Longrightarrow>
     blocks (front @ a @ b) = blocks front @ [a, b]"
  by (simp_all add: blocks_append blocks_single)

text \<open>The state after absorbing \<open>msg\<close>: whole blocks compressed, the rest held.\<close>

definition compressed :: "bytes \<Rightarrow> u32 list" where
  "compressed front = fold compress (blocks front) initial_state"

definition absorbed :: "bytes \<Rightarrow> sha256 \<Rightarrow> bool" where
  "absorbed msg s \<longleftrightarrow> (\<exists>front. msg = front @ sha_buffer s \<and> 64 dvd length front \<and>
     length (sha_buffer s) < 64 \<and> sha_state s = compressed front) \<and> sha_length s = of_nat (length msg)"

lemma compressed_block:
  "64 dvd length front \<Longrightarrow> length blk = 64 \<Longrightarrow>
     compressed (front @ blk) = compress blk (compressed front)"
  by (simp add: compressed_def blocks_append blocks_single)

lemma absorb_absorbed:
  "64 dvd length front \<Longrightarrow> sha_state s = compressed front \<Longrightarrow>
     sha_length s = of_nat (length (front @ data)) \<Longrightarrow> absorbed (front @ data) (absorb data s)"
proof (induction data s arbitrary: front rule: absorb.induct)
  case (1 data s)
  show ?case
  proof (cases "64 \<le> length data")
    case True
    let ?blk = "take 64 data"
    have "absorbed ((front @ ?blk) @ drop 64 data)
        (absorb (drop 64 data) (s\<lparr>sha_state := compress ?blk (sha_state s)\<rparr>))"
      using "1.prems" True
      by (intro "1.IH" [unfolded kSha256BlockSize_def]) (simp_all add: compressed_block)
    then show ?thesis using True by (simp add: absorb.simps [of data s] kSha256BlockSize_def)
  next
    case False
    then show ?thesis using "1.prems"
      by (auto simp: absorb.simps [of data s] kSha256BlockSize_def absorbed_def)
  qed
qed

lemma update_absorbed:
  assumes "absorbed msg s"
  shows "absorbed (msg @ data) (update data s)"
proof -
  obtain front where f: "msg = front @ sha_buffer s" "64 dvd length front" "length (sha_buffer s) < 64"
    "sha_state s = compressed front" "sha_length s = of_nat (length msg)"
    using assms by (auto simp: absorbed_def)
  let ?s = "s\<lparr>sha_length := sha_length s + of_nat (length data)\<rparr>"
  let ?wanted = "min (64 - length (sha_buffer s)) (length data)"
  let ?held = "sha_buffer s @ take ?wanted data"
  show ?thesis
  proof (cases "sha_buffer s = []")
    case True
    then show ?thesis using f absorb_absorbed [of front ?s data]
      by (simp add: update_def Let_def)
  next
    case False
    show ?thesis
    proof (cases "length ?held < 64")
      case True
      then have "?wanted = length data" using f(3) by auto
      then show ?thesis using False True f
        by (simp add: update_def Let_def kSha256BlockSize_def absorbed_def)
    next
      case full: False
      then have len: "length ?held = 64" using f(3) by auto
      define held where "held = ?held"
      have held: "length held = 64" "sha_buffer s @ data = held @ drop ?wanted data"
        using len by (simp_all add: held_def)
      have "absorbed ((front @ held) @ drop ?wanted data)
          (absorb (drop ?wanted data) (?s\<lparr>sha_state := compress held (sha_state s), sha_buffer := []\<rparr>))"
      proof (rule absorb_absorbed)
        show "64 dvd length (front @ held)" using f(2) held(1) by simp
        have "length (front @ held @ drop ?wanted data) = length msg + length data"
          using arg_cong [OF held(2), of length] f(1) by simp
        then show "sha_length (?s\<lparr>sha_state := compress held (sha_state s), sha_buffer := []\<rparr>) =
            of_nat (length ((front @ held) @ drop ?wanted data))"
          using f(5) by simp
      qed (simp add: compressed_block f(2,4) held(1))
      moreover have "msg @ data = (front @ held) @ drop ?wanted data"
        using f(1) held(2) by simp
      moreover have "update data s =
          absorb (drop ?wanted data) (?s\<lparr>sha_state := compress held (sha_state s), sha_buffer := []\<rparr>)"
        using False full unfolding held_def by (simp add: update_def Let_def kSha256BlockSize_def)
      ultimately show ?thesis by (simp only:)
    qed
  qed
qed

lemma init_absorbed: "absorbed [] Sha256"
  by (auto simp: absorbed_def Sha256_def compressed_def blocks.simps [of "[]"])

lemma updates_absorbed: "absorbed msg s \<Longrightarrow> absorbed (msg @ concat chunks) (fold update chunks s)"
  by (induction chunks arbitrary: msg s) (simp, metis append.assoc concat.simps(2) fold_simps(2) update_absorbed)

section \<open>Padding meets the standard\<close>

lemma bit_length:
  "(ucast ((x :: u64) AND 0xFFFFFFFF) :: u32) = ucast x"
proof -
  have "x AND 0xFFFFFFFF = take_bit 32 x" by (simp add: take_bit_eq_mask mask_eq_exp_minus_1)
  then show ?thesis by (simp only:) (intro bit_word_eqI, auto simp: bit_simps)
qed

lemma finish_spec:
  assumes "absorbed msg s"
  shows "finish s = sha256_spec msg"
proof -
  obtain front where f: "msg = front @ sha_buffer s" "64 dvd length front" "length (sha_buffer s) < 64"
    "sha_state s = compressed front" "sha_length s = of_nat (length msg)"
    using assms by (auto simp: absorbed_def)
  let ?tail = "sha_buffer s @ [0x80]"
  let ?size = "store_be32 (ucast (drop_bit 32 (of_nat (length msg * 8) :: u64))) @
     store_be32 (ucast (of_nat (length msg * 8) :: u64))"
  have size: "length ?size = 8" by (simp add: store_be32_def)
  have md: "length msg mod 64 = length (sha_buffer s)" using f(1-3) by auto
  have bits: "sha_length s * 8 = of_nat (length msg * 8)" using f(5) by simp
  show ?thesis
  proof (cases "length ?tail > 56")
    case True
    let ?one = "?tail @ replicate (64 - length ?tail) 0"
    let ?two = "replicate 56 0 @ ?size"
    have k: "(119 - length msg mod 64) mod 64 = 64 - length ?tail + 56"
      using True f(3) unfolding md by simp
    have "pad msg = front @ ?one @ ?two"
      using f(1) unfolding pad_def k replicate_add by simp
    moreover have "length ?one = 64" "length ?two = 64" using True f(3) size by simp_all
    ultimately have "blocks (pad msg) = blocks front @ [?one, ?two]"
      using blocks_front(2) [OF f(2)] by (simp only:)
    then show ?thesis using True f(4) bits
      by (simp add: finish_def sha256_spec_def Let_def kSha256BlockSize_def compress_fips
          compressed_def bit_length)
  next
    case False
    let ?one = "?tail @ replicate (56 - length ?tail) 0 @ ?size"
    have "119 - length (sha_buffer s) = (56 - length ?tail) + 64" using False by simp
    then have "(119 - length (sha_buffer s)) mod 64 = (56 - length ?tail) mod 64"
      by (simp only: mod_add_self2)
    then have k: "(119 - length msg mod 64) mod 64 = 56 - length ?tail" unfolding md by simp
    have "pad msg = front @ ?one" using f(1) unfolding pad_def k by simp
    moreover have "length ?one = 64" using False size by simp
    ultimately have "blocks (pad msg) = blocks front @ [?one]"
      using blocks_front(1) [OF f(2)] by (simp only:)
    then show ?thesis using False f(4) bits
      by (simp add: finish_def sha256_spec_def Let_def kSha256BlockSize_def compress_fips
          compressed_def bit_length)
  qed
qed

section \<open>Properties\<close>

text \<open>
  The incremental hash is SHA-256: absorbing a message in any chunks and finishing gives the
  digest FIPS 180-4 defines for the whole message - padded once, cut into blocks and compressed
  with the schedule of the standard's recurrence.
\<close>

theorem sha256_incremental: "finish (fold update chunks Sha256) = sha256_spec (concat chunks)"
  using finish_spec [OF updates_absorbed [OF init_absorbed]] by simp

end
