(* ===== verification/ImageFormat.thy ===== *)
theory ImageFormat
  imports ImageValues Sha256
begin

text \<open>
  The firmware file: \<open>include/smply/image_source.hpp\<close> and \<open>src/image/image_source.cpp\<close> (a
  source of bytes, the one over memory, the hash of a whole source),
  \<open>src/image/source_reader.hpp\<close> (exact reads, little-endian loads),
  \<open>src/image/mcuboot_header.cpp\<close> (the 32-byte header) and \<open>src/image/tlv.cpp\<close> (the TLV areas
  and the search for the image hash). Offsets and sizes are 64-bit in the source; every sum
  there is of fields of at most 32 bits, below \<open>2 ^ 34\<close>, so they are natural numbers here.
\<close>

section \<open>Sources\<close>

text \<open>\<open>src_read offset n\<close>: the bytes a read into a span of \<open>n\<close> bytes delivers.\<close>

record image_source =
  src_size :: nat
  src_read :: "nat \<Rightarrow> nat \<Rightarrow> bytes result"

definition memory_read :: "bytes \<Rightarrow> nat \<Rightarrow> nat \<Rightarrow> bytes result" where
  "memory_read bs offset n =
     (if offset \<ge> length bs then Inr []
      else let available = length bs - offset; wanted = min available n
        in Inr (subspan offset wanted bs))"

definition MemoryImageSource :: "bytes \<Rightarrow> image_source" where
  "MemoryImageSource bs = \<lparr>src_size = length bs, src_read = memory_read bs\<rparr>"

definition read_exact :: "image_source \<Rightarrow> nat \<Rightarrow> nat \<Rightarrow> bytes result" where
  "read_exact src offset n =
     (if offset > src_size src \<or> n > src_size src - offset then
        fail MalformedMessage ''image: read past the end of the image''
      else case src_read src offset n of
        Inl e \<Rightarrow> Inl e
      | Inr bs \<Rightarrow>
          if length bs \<noteq> n then fail InvalidArgument ''image: source returned a short read''
          else Inr bs)"

definition load_le16 :: "bytes \<Rightarrow> nat \<Rightarrow> u16" where
  "load_le16 from i = le16 (from ! i) (from ! (i + 1))"

definition load_le32 :: "bytes \<Rightarrow> nat \<Rightarrow> u32" where
  "load_le32 from i = le32 (from ! i) (from ! (i + 1)) (from ! (i + 2)) (from ! (i + 3))"

section \<open>Hashing a source\<close>

definition kStreamChunk :: nat where "kStreamChunk = 4096"

function hash_stream :: "image_source \<Rightarrow> nat \<Rightarrow> sha256 \<Rightarrow> bytes result" where
  "hash_stream src offset hasher =
     (if offset < src_size src then
        let remaining = src_size src - offset;
            wanted = (if remaining < kStreamChunk then remaining else kStreamChunk)
        in case src_read src offset wanted of
             Inl e \<Rightarrow> Inl e
           | Inr bs \<Rightarrow>
               if length bs \<noteq> wanted
               then fail InvalidArgument ''image: source returned a short read''
               else hash_stream src (offset + wanted) (update bs hasher)
      else Inr (finish hasher))"
  by pat_completeness auto
termination
  by (relation "measure (\<lambda>(src, offset, _). src_size src - offset)")
    (auto simp: kStreamChunk_def Let_def)

declare hash_stream.simps [simp del]

definition sha256_source :: "image_source \<Rightarrow> bytes result" where
  "sha256_source src = hash_stream src 0 Sha256"

section \<open>The header\<close>

definition kMcubootImageMagic :: u32 where "kMcubootImageMagic = 0x96F3B83D"
definition kMcubootImageMagicV1 :: u32 where "kMcubootImageMagicV1 = 0x96F3B83C"
definition kMcubootHeaderSize :: nat where "kMcubootHeaderSize = 32"
definition kMaxImageSize :: nat where "kMaxImageSize = 16 * 1024 * 1024"
definition kFlagEncrypted :: u32 where "kFlagEncrypted = 0x00000004 OR 0x00000008"

record image_info =
  header_size :: u32
  image_size :: u32
  protected_tlv_size :: u32
  info_flags :: u32
  info_version :: image_version
  encrypted :: bool

text \<open>The fields, at the offsets the source names.\<close>

definition header_fields :: "bytes \<Rightarrow> image_info" where
  "header_fields bs =
     \<lparr>header_size = ucast (load_le16 bs 8), image_size = load_le32 bs 12,
      protected_tlv_size = ucast (load_le16 bs 10), info_flags = load_le32 bs 16,
      info_version = \<lparr>major = bs ! 20, minor = bs ! 21, revision = load_le16 bs 22,
                 build = load_le32 bs 24\<rparr>,
      encrypted = (load_le32 bs 16 AND kFlagEncrypted \<noteq> 0)\<rparr>"

definition through_body :: "image_info \<Rightarrow> nat" where
  "through_body info = unat (header_size info) + unat (image_size info)"

definition parse_mcuboot_header :: "bytes \<Rightarrow> image_info result" where
  "parse_mcuboot_header bs =
     (if length bs < kMcubootHeaderSize then
        fail InvalidArgument ''image: header shorter than 32 bytes''
      else let magic = load_le32 bs 0 in
      if magic \<noteq> kMcubootImageMagic then
        if magic = kMcubootImageMagicV1
        then fail InvalidArgument ''image: MCUboot v1 image format, too old''
        else fail InvalidArgument ''image: not an MCUboot image (wrong magic; unsigned binary?)''
      else let info = header_fields bs in
      if unat (header_size info) < kMcubootHeaderSize then
        fail InvalidArgument ''image: header size below 32 bytes''
      else if through_body info > kMaxImageSize then
        fail InvalidArgument ''image: declared size implausibly large''
      else Inr info)"

section \<open>The TLV areas\<close>

definition kTlvInfoMagic :: u16 where "kTlvInfoMagic = 0x6907"
definition kTlvProtInfoMagic :: u16 where "kTlvProtInfoMagic = 0x6908"
definition kTlvHeaderSize :: nat where "kTlvHeaderSize = 4"
definition kMaxImageTlvs :: nat where "kMaxImageTlvs = 256"

definition kHashTlvs :: "(u16 \<times> u16) list" where
  "kHashTlvs = [(0x10, 32), (0x11, 48), (0x12, 64)]"

text \<open>The digest length a hash TLV of this type must have, \<open>None\<close> for other types.\<close>

definition hash_tlv_for :: "u16 \<Rightarrow> u16 option" where
  "hash_tlv_for type = map_of kHashTlvs type"

abbreviation malformed :: "string \<Rightarrow> 'a result" where
  "malformed what \<equiv> fail MalformedMessage what"

text \<open>The two 16-bit fields of an area header or of an entry header.\<close>

definition read_area_header :: "image_source \<Rightarrow> nat \<Rightarrow> (u16 \<times> u16) result" where
  "read_area_header src i =
     (case read_exact src i kTlvHeaderSize of
        Inl e \<Rightarrow> Inl e
      | Inr raw \<Rightarrow> Inr (load_le16 raw 0, load_le16 raw 2))"

record tlv_layout =
  first :: nat
  protected_end :: nat
  end_of_tlvs :: nat

definition unprotected_area :: "image_source \<Rightarrow> image_info \<Rightarrow> nat result" where
  "unprotected_area src info =
     (case read_area_header src (through_body info) of
        Inl e \<Rightarrow> Inl e
      | Inr (magic, area) \<Rightarrow>
          if magic = kTlvProtInfoMagic then
            if protected_tlv_size info \<noteq> ucast area then
              malformed ''image: protected TLV size disagrees with the header''
            else if unat area < kTlvHeaderSize then
              malformed ''image: protected TLV area smaller than its own header''
            else (case read_area_header src (through_body info + unat area) of
                Inl e \<Rightarrow> Inl e
              | Inr (magic2, total2) \<Rightarrow>
                  if magic2 \<noteq> kTlvInfoMagic then
                    malformed ''image: no unprotected TLV area after the protected one''
                  else Inr (unat total2))
          else if protected_tlv_size info \<noteq> 0 then
            malformed ''image: protected TLV size set but no protected area''
          else if magic \<noteq> kTlvInfoMagic then
            malformed ''image: no TLV area after the image body''
          else Inr (unat area))"

definition resolve_layout :: "image_source \<Rightarrow> image_info \<Rightarrow> tlv_layout result" where
  "resolve_layout src info =
     (case unprotected_area src info of
        Inl e \<Rightarrow> Inl e
      | Inr unprotected_total \<Rightarrow>
          if unprotected_total < kTlvHeaderSize then
            malformed ''image: TLV area smaller than its own header''
          else
            let base = through_body info;
                prot_end = base + unat (protected_tlv_size info);
                tlv_end = prot_end + unprotected_total
            in if tlv_end > src_size src then
                 malformed ''image: TLV area extends past the end of the image''
               else Inr \<lparr>first = base + kTlvHeaderSize, protected_end = prot_end,
                         end_of_tlvs = tlv_end\<rparr>)"

text \<open>What an entry with a hash type does to the hash found so far.\<close>

definition take_hash ::
    "image_source \<Rightarrow> nat \<Rightarrow> u16 \<Rightarrow> u16 \<Rightarrow> image_hash option \<Rightarrow> image_hash option result" where
  "take_hash src offset type tlv_len found =
     (case hash_tlv_for type of
        None \<Rightarrow> Inr found
      | Some want \<Rightarrow>
          if tlv_len \<noteq> want then malformed ''image: hash TLV has the wrong length for its type''
          else if found \<noteq> None then malformed ''image: more than one hash TLV''
          else (case read_exact src (offset + kTlvHeaderSize) (unat tlv_len) of
              Inl e \<Rightarrow> Inl e
            | Inr digest \<Rightarrow>
                (case ImageHash_from digest of Inl e \<Rightarrow> Inl e | Inr h \<Rightarrow> Inr (Some h))))"

function tlv_scan ::
    "image_source \<Rightarrow> image_info \<Rightarrow> tlv_layout \<Rightarrow> nat \<Rightarrow> nat \<Rightarrow> image_hash option \<Rightarrow>
     image_hash option result" where
  "tlv_scan src info layout offset visited found =
     (if offset < end_of_tlvs layout then
        if visited = kMaxImageTlvs then malformed ''image: too many TLV entries''
        else if protected_tlv_size info \<noteq> 0 \<and> offset = protected_end layout then
          tlv_scan src info layout (offset + kTlvHeaderSize) (visited + 1) found
        else if kTlvHeaderSize > end_of_tlvs layout - offset then
          malformed ''image: TLV entry header overruns the TLV area''
        else (case read_area_header src offset of
            Inl e \<Rightarrow> Inl e
          | Inr (type, tlv_len) \<Rightarrow>
              if unat tlv_len > end_of_tlvs layout - offset - kTlvHeaderSize then
                malformed ''image: TLV entry overruns the TLV area''
              else (case take_hash src offset type tlv_len found of
                  Inl e \<Rightarrow> Inl e
                | Inr found' \<Rightarrow>
                    tlv_scan src info layout (offset + kTlvHeaderSize + unat tlv_len) (visited + 1) found'))
      else Inr found)"
  by pat_completeness auto
termination
  by (relation "measure (\<lambda>(_, _, layout, offset, _). end_of_tlvs layout - offset)")
    (auto simp: kTlvHeaderSize_def)

declare tlv_scan.simps [simp del]

definition find_image_tlv_hash :: "image_source \<Rightarrow> image_info \<Rightarrow> image_hash option result" where
  "find_image_tlv_hash src info =
     (if encrypted info then Inr None
      else case resolve_layout src info of
        Inl e \<Rightarrow> Inl e
      | Inr layout \<Rightarrow> tlv_scan src info layout (first layout) 0 None)"

text \<open>The two ways an iteration of the scan goes on.\<close>

lemma tlv_scan_skip:
  "offset < end_of_tlvs layout \<Longrightarrow> visited \<noteq> kMaxImageTlvs \<Longrightarrow> protected_tlv_size info \<noteq> 0 \<Longrightarrow>
     offset = protected_end layout \<Longrightarrow>
     tlv_scan src info layout offset visited found =
       tlv_scan src info layout (offset + 4) (visited + 1) found"
  by (subst tlv_scan.simps) (simp add: kTlvHeaderSize_def)

lemma tlv_scan_entry:
  "offset < end_of_tlvs layout \<Longrightarrow> visited \<noteq> kMaxImageTlvs \<Longrightarrow>
     protected_tlv_size info = 0 \<or> offset \<noteq> protected_end layout \<Longrightarrow>
     offset + 4 + unat n \<le> end_of_tlvs layout \<Longrightarrow> read_area_header src offset = Inr (t, n) \<Longrightarrow>
     tlv_scan src info layout offset visited found =
       (case take_hash src offset t n found of
          Inl e \<Rightarrow> Inl e
        | Inr f \<Rightarrow> tlv_scan src info layout (offset + 4 + unat n) (visited + 1) f)"
  by (subst tlv_scan.simps, unfold kTlvHeaderSize_def) auto

section \<open>The contract of a source\<close>

text \<open>
  \<open>ImageSource\<close> promises that a read inside the image delivers the bytes asked for. What the
  operations compute from such a source depends on its contents only.
\<close>

text \<open>A hash TLV of the file: its type, its length and its payload, at an offset.\<close>

definition hash_at :: "bytes \<Rightarrow> nat \<Rightarrow> image_hash \<Rightarrow> bool" where
  "hash_at contents off h \<longleftrightarrow> hash_tlv_for (load_le16 contents off) = Some (load_le16 contents (off + 2)) \<and>
     length h = unat (load_le16 contents (off + 2)) \<and> off + 4 + length h \<le> length contents \<and>
     h = subspan (off + 4) (length h) contents"

lemma hash_tlv_lengths: "hash_tlv_for type = Some want \<Longrightarrow> unat want \<in> {32, 48, 64}"
  by (auto simp: hash_tlv_for_def kHashTlvs_def split: if_splits)

lemma subspan_Nil [simp]: "subspan i n xs = [] \<longleftrightarrow> n = 0 \<or> length xs \<le> i"
  by (auto simp: subspan_def)

locale image_contract =
  fixes src :: image_source and contents :: bytes
  assumes size_contents: "src_size src = length contents"
    and read_inside: "0 < n \<Longrightarrow> offset + n \<le> length contents \<Longrightarrow>
      src_read src offset n = Inr (subspan offset n contents)"
begin

lemma read_exact_contents:
  assumes "0 < n"
  shows "read_exact src offset n =
    (if offset + n \<le> length contents then Inr (subspan offset n contents)
     else malformed ''image: read past the end of the image'')"
  using assms read_inside [of n offset] by (auto simp: read_exact_def size_contents)

lemma hash_stream_contents:
  "offset \<le> length contents \<Longrightarrow> absorbed (take offset contents) hasher \<Longrightarrow>
     hash_stream src offset hasher = Inr (sha256_spec contents)"
proof (induction "length contents - offset" arbitrary: offset hasher rule: less_induct)
  case less
  show ?case
  proof (cases "offset < length contents")
    case True
    define wanted where "wanted = min (length contents - offset) kStreamChunk"
    have w: "0 < wanted" "offset + wanted \<le> length contents"
      using True by (auto simp: wanted_def kStreamChunk_def)
    have eq: "(if length contents - offset < kStreamChunk then length contents - offset
        else kStreamChunk) = wanted"
      by (simp add: wanted_def)
    have "absorbed (take (offset + wanted) contents) (update (subspan offset wanted contents) hasher)"
      using update_absorbed [OF less.prems(2), of "subspan offset wanted contents"]
      by (simp add: subspan_def take_add)
    then have "hash_stream src (offset + wanted) (update (subspan offset wanted contents) hasher) =
        Inr (sha256_spec contents)"
      using less.hyps [of "offset + wanted"] w True by simp
    then show ?thesis
      using True w
      by (subst hash_stream.simps, unfold size_contents Let_def eq) (simp add: read_inside)
  next
    case False
    then show ?thesis using less.prems finish_spec
      by (simp add: hash_stream.simps [of src] size_contents)
  qed
qed

lemma read_area_header_contents:
  "read_area_header src i =
    (if i + 4 \<le> length contents then Inr (load_le16 contents i, load_le16 contents (i + 2))
     else malformed ''image: read past the end of the image'')"
  by (auto simp: read_area_header_def read_exact_contents kTlvHeaderSize_def load_le16_def
      subspan_def add.commute)

lemma take_hash_contents:
  assumes "take_hash src off (load_le16 contents off) (load_le16 contents (off + 2)) found = r"
    and "off + 4 + unat (load_le16 contents (off + 2)) \<le> length contents"
  shows "case r of Inl e \<Rightarrow> code e = MalformedMessage | Inr f \<Rightarrow> f = found \<or> (\<exists>h. f = Some h \<and> hash_at contents off h)"
proof (cases "hash_tlv_for (load_le16 contents off)")
  case (Some want)
  then show ?thesis
    using assms hash_tlv_lengths [OF Some]
    by (auto simp: take_hash_def kTlvHeaderSize_def read_exact_contents ImageHash_from_def
        hash_at_def kMaxImageHashLength_def split: if_splits)
qed (use assms in \<open>auto simp: take_hash_def\<close>)

lemma tlv_scan_contents:
  assumes "end_of_tlvs layout \<le> length contents"
  shows "case tlv_scan src info layout offset visited found of
      Inl e \<Rightarrow> code e = MalformedMessage
    | Inr f \<Rightarrow> f = found \<or> (\<exists>off h. f = Some h \<and> hash_at contents off h)"
proof (induction "end_of_tlvs layout - offset" arbitrary: offset visited found rule: less_induct)
  case less
  show ?case
  proof (cases "offset < end_of_tlvs layout \<and> visited \<noteq> kMaxImageTlvs")
    case run: True
    show ?thesis
    proof (cases "protected_tlv_size info \<noteq> 0 \<and> offset = protected_end layout")
      case True
      then have "tlv_scan src info layout offset visited found =
          tlv_scan src info layout (offset + 4) (visited + 1) found"
        using run by (intro tlv_scan_skip) simp_all
      moreover have "end_of_tlvs layout - (offset + 4) < end_of_tlvs layout - offset"
        using run by linarith
      ultimately show ?thesis using less.hyps [of "offset + 4" found "visited + 1"] by simp
    next
      case skip: False
      let ?n = "unat (load_le16 contents (offset + 2))"
      show ?thesis
      proof (cases "4 \<le> end_of_tlvs layout - offset \<and> ?n \<le> end_of_tlvs layout - offset - 4")
        case True
        then have inside: "offset + 4 \<le> length contents" "offset + 4 + ?n \<le> length contents"
          and fits: "offset + 4 + ?n \<le> end_of_tlvs layout"
          using assms by linarith+
        let ?r = "take_hash src offset (load_le16 contents offset) (load_le16 contents (offset + 2)) found"
        note th = take_hash_contents [OF refl inside(2), of found]
        have step: "tlv_scan src info layout offset visited found =
            (case ?r of Inl e \<Rightarrow> Inl e
             | Inr f \<Rightarrow> tlv_scan src info layout (offset + 4 + ?n) (visited + 1) f)"
          using run skip inside
          by (intro tlv_scan_entry [OF _ _ _ fits]) (auto simp: read_area_header_contents)
        show ?thesis
        proof (cases ?r)
          case (Inr f)
          then show ?thesis
            using step th less.hyps [of "offset + 4 + ?n" f "visited + 1"] run
            by (auto split: sum.splits)
        qed (use step th in simp)
      next
        case False
        then have "\<exists>w. tlv_scan src info layout offset visited found = malformed w"
          using run skip
          by (subst tlv_scan.simps) (auto simp: read_area_header_contents kTlvHeaderSize_def not_le)
        then show ?thesis by auto
      qed
    qed
  next
    case False
    then show ?thesis by (auto simp: tlv_scan.simps [of src info layout offset])
  qed
qed

lemma sha256_contents: "sha256_source src = Inr (sha256_spec contents)"
  using hash_stream_contents [of 0 Sha256] init_absorbed by (simp add: sha256_source_def)

lemma resolve_layout_contents:
  "case resolve_layout src info of
     Inl e \<Rightarrow> code e = MalformedMessage
   | Inr layout \<Rightarrow> end_of_tlvs layout \<le> length contents"
  by (auto simp: resolve_layout_def unprotected_area_def read_area_header_contents Let_def size_contents
      split: sum.splits)

lemma find_image_tlv_hash_contents:
  "case find_image_tlv_hash src info of
     Inl e \<Rightarrow> \<not> encrypted info \<and> code e = MalformedMessage
   | Inr None \<Rightarrow> True
   | Inr (Some h) \<Rightarrow> \<not> encrypted info \<and> (\<exists>off. hash_at contents off h)"
  using resolve_layout_contents [of info] tlv_scan_contents [where info = info and visited = 0 and found = None]
  by (fastforce simp: find_image_tlv_hash_def split: sum.splits option.splits)

end

interpretation memory: image_contract "MemoryImageSource bs" bs for bs
proof
  fix n offset
  assume "0 < n" "offset + n \<le> length bs"
  then have "min (length bs - offset) n = n" "offset < length bs" by simp_all
  then show "src_read (MemoryImageSource bs) offset n = Inr (subspan offset n bs)"
    by (simp add: MemoryImageSource_def memory_read_def Let_def)
qed (simp add: MemoryImageSource_def)

section \<open>Well-formed files\<close>

text \<open>The encoders of the format, the inverse of what the parsers read.\<close>

definition le16_bytes :: "u16 \<Rightarrow> bytes" where
  "le16_bytes v = [low_byte v, high_byte v]"

definition le32_bytes :: "u32 \<Rightarrow> bytes" where
  "le32_bytes v = [ucast v, ucast (drop_bit 8 v), ucast (drop_bit 16 v), ucast (drop_bit 24 v)]"

definition header_bytes :: "image_info \<Rightarrow> u32 \<Rightarrow> bytes" where
  "header_bytes info load_address =
     le32_bytes kMcubootImageMagic @ le32_bytes load_address @
     le16_bytes (ucast (header_size info)) @ le16_bytes (ucast (protected_tlv_size info)) @
     le32_bytes (image_size info) @ le32_bytes (info_flags info) @
     [major (info_version info), minor (info_version info)] @
     le16_bytes (revision (info_version info)) @ le32_bytes (build (info_version info)) @ [0, 0, 0, 0]"

text \<open>An image description a 32-byte header can express and the parser accepts.\<close>

definition info_ok :: "image_info \<Rightarrow> bool" where
  "info_ok info \<longleftrightarrow> kMcubootHeaderSize \<le> unat (header_size info) \<and> unat (header_size info) < 65536 \<and>
     unat (protected_tlv_size info) < 65536 \<and> through_body info \<le> kMaxImageSize \<and>
     (encrypted info \<longleftrightarrow> info_flags info AND kFlagEncrypted \<noteq> 0)"

definition tlv_entry :: "u16 \<times> bytes \<Rightarrow> bytes" where
  "tlv_entry e = le16_bytes (fst e) @ le16_bytes (of_nat (length (snd e))) @ snd e"

definition tlv_area :: "u16 \<Rightarrow> (u16 \<times> bytes) list \<Rightarrow> bytes" where
  "tlv_area magic es = le16_bytes magic @
     le16_bytes (of_nat (4 + length (concat (map tlv_entry es)))) @ concat (map tlv_entry es)"

lemma le16_le16_bytes [simp]: "le16 (low_byte v) (high_byte v) = v"
  by (rule bit_word_eqI) (auto simp: le16_def high_byte_def low_byte_def bit_simps)

lemma le32_le32_bytes [simp]:
  "le32 (ucast v) (ucast (drop_bit 8 v)) (ucast (drop_bit 16 v)) (ucast (drop_bit 24 v)) = v"
proof (rule bit_word_eqI)
  fix n
  assume n: "n < LENGTH(32)"
  then consider "n < 8" | "8 \<le> n" "n < 16" | "16 \<le> n" "n < 24" | "24 \<le> n" "n < 32" by fastforce
  then show "bit (le32 (ucast v) (ucast (drop_bit 8 v)) (ucast (drop_bit 16 v)) (ucast (drop_bit 24 v))) n
      = bit v n"
    by cases (auto simp: le32_def bit_simps)
qed

lemma ucast_ucast_small: "unat (v :: u32) < 65536 \<Longrightarrow> (ucast (ucast v :: u16) :: u32) = v"
  by (simp add: word_unat_eq_iff unsigned_ucast_eq unsigned_take_bit_eq take_bit_nat_eq_self)

lemma parse_header_bytes:
  "info_ok info \<Longrightarrow> parse_mcuboot_header (header_bytes info addr @ rest) = Inr info"
  by (cases info)
    (auto simp: parse_mcuboot_header_def header_bytes_def info_ok_def le16_bytes_def le32_bytes_def
      header_fields_def load_le16_def load_le32_def Let_def kMcubootHeaderSize_def ucast_ucast_small
      through_body_def nth_append)

lemma read_header_pair:
  "read_area_header (MemoryImageSource (front @ le16_bytes a @ le16_bytes b @ rest)) (length front) =
     Inr (a, b)"
  by (simp add: memory.read_area_header_contents load_le16_def le16_bytes_def nth_append)

lemma read_entry:
  "read_area_header (MemoryImageSource (front @ tlv_entry (t, p) @ rest)) (length front) =
     Inr (t, of_nat (length p))"
  using read_header_pair [of front t "of_nat (length p)" "p @ rest"] by (simp add: tlv_entry_def)

lemma length_tlv_entry [simp]: "length (tlv_entry e) = 4 + length (snd e)"
  by (simp add: tlv_entry_def le16_bytes_def)

lemma length_tlv_area: "length (tlv_area m es) = 4 + length (concat (map tlv_entry es))"
  by (simp add: tlv_area_def le16_bytes_def)

lemma read_area:
  "read_area_header (MemoryImageSource (front @ tlv_area m es @ rest)) (length front) =
     Inr (m, of_nat (length (tlv_area m es)))"
  using read_header_pair [of front m "of_nat (length (tlv_area m es))" "concat (map tlv_entry es) @ rest"]
  by (simp add: tlv_area_def le16_bytes_def)

text \<open>The file, the entries the search is about, and what it should answer.\<close>

definition tlv_file ::
    "bytes \<Rightarrow> (u16 \<times> bytes) list option \<Rightarrow> (u16 \<times> bytes) list \<Rightarrow> bytes \<Rightarrow> bytes" where
  "tlv_file pre prot unprot trail =
     pre @ (case prot of None \<Rightarrow> [] | Some es \<Rightarrow> tlv_area kTlvProtInfoMagic es) @
     tlv_area kTlvInfoMagic unprot @ trail"

definition entry_ok :: "u16 \<times> bytes \<Rightarrow> bool" where
  "entry_ok e \<longleftrightarrow> length (snd e) < 65536 \<and>
     (case hash_tlv_for (fst e) of None \<Rightarrow> True | Some want \<Rightarrow> length (snd e) = unat want)"

definition hash_payloads :: "(u16 \<times> bytes) list \<Rightarrow> image_hash list" where
  "hash_payloads es = map snd (filter (\<lambda>e. hash_tlv_for (fst e) \<noteq> None) es)"

fun single_hash :: "image_hash list \<Rightarrow> image_hash option result" where
  "single_hash [] = Inr None"
| "single_hash [h] = Inr (Some h)"
| "single_hash (_ # _ # _) = malformed ''image: more than one hash TLV''"

definition found_list :: "image_hash option \<Rightarrow> image_hash list" where
  "found_list found = (case found of None \<Rightarrow> [] | Some h \<Rightarrow> [h])"

lemma single_hash_simps [simp]:
  "single_hash (found_list found) = Inr found"
  "hash_payloads [] = []"
  by (auto simp: found_list_def hash_payloads_def split: option.splits)

lemma take_hash_entry:
  assumes "entry_ok (t, p)"
  shows "take_hash (MemoryImageSource (front @ tlv_entry (t, p) @ rest)) (length front) t
      (of_nat (length p)) found = single_hash (found_list found @ hash_payloads [(t, p)])"
proof (cases "hash_tlv_for t")
  case None
  then show ?thesis by (simp add: take_hash_def hash_payloads_def)
next
  case (Some want)
  then have p: "length p = unat want" "length p < 65536" using assms by (simp_all add: entry_ok_def)
  then have "(of_nat (length p) :: u16) = want" by simp
  moreover have "length p \<in> {32, 48, 64}" using hash_tlv_lengths [OF Some] p(1) by simp
  moreover have "subspan (length front + 4) (length p) (front @ tlv_entry (t, p) @ rest) = p"
  proof -
    let ?hd = "front @ le16_bytes t @ le16_bytes (of_nat (length p))"
    have hd: "length ?hd = length front + 4" by (simp add: le16_bytes_def)
    show ?thesis using subspan_exact [OF refl, of ?hd p rest] unfolding hd by (simp add: tlv_entry_def)
  qed
  ultimately show ?thesis using Some p
    by (auto simp: take_hash_def memory.read_exact_contents kTlvHeaderSize_def ImageHash_from_def
        kMaxImageHashLength_def hash_payloads_def found_list_def split: option.splits)
qed

lemma single_hash_step:
  "(case single_hash (found_list found @ hash_payloads [e]) of
      Inl x \<Rightarrow> Inl x
    | Inr f \<Rightarrow> single_hash (found_list f @ hash_payloads es)) =
   single_hash (found_list found @ hash_payloads (e # es))"
  by (cases found; cases "hash_tlv_for (fst e)"; cases "hash_payloads es" rule: single_hash.cases)
    (auto simp: hash_payloads_def found_list_def)

text \<open>A run of entries inside one area.\<close>

lemma tlv_scan_run:
  "bs = front @ concat (map tlv_entry es) @ rest \<Longrightarrow> \<forall>e\<in>set es. entry_ok e \<Longrightarrow>
   visited + length es \<le> kMaxImageTlvs \<Longrightarrow>
   length front + length (concat (map tlv_entry es)) \<le> end_of_tlvs layout \<Longrightarrow>
   protected_tlv_size info = 0 \<or> protected_end layout < length front \<or>
     length front + length (concat (map tlv_entry es)) \<le> protected_end layout \<Longrightarrow>
   tlv_scan (MemoryImageSource bs) info layout (length front) visited found =
    (case single_hash (found_list found @ hash_payloads es) of
       Inl e \<Rightarrow> Inl e
     | Inr f \<Rightarrow> tlv_scan (MemoryImageSource bs) info layout
         (length front + length (concat (map tlv_entry es))) (visited + length es) f)"
proof (induction es arbitrary: front visited found)
  case Nil
  then show ?case by simp
next
  case (Cons e es)
  obtain t p where e: "e = (t, p)" by fastforce
  let ?src = "MemoryImageSource bs" and ?front = "front @ tlv_entry (t, p)"
  let ?body = "concat (map tlv_entry es)"
  have bs: "bs = front @ tlv_entry (t, p) @ ?body @ rest" using Cons.prems(1) e by simp
  have ok: "entry_ok (t, p)" and n: "unat (of_nat (length p) :: u16) = length p"
    using Cons.prems(2) e by (auto simp: entry_ok_def unat_of_nat)
  have "tlv_scan ?src info layout (length front) visited found =
      (case take_hash ?src (length front) t (of_nat (length p)) found of
         Inl x \<Rightarrow> Inl x
       | Inr f \<Rightarrow> tlv_scan ?src info layout (length front + 4 + unat (of_nat (length p) :: u16)) (visited + 1) f)"
    using Cons.prems e n read_entry [of front t p "?body @ rest"] bs
    by (intro tlv_scan_entry) auto
  also have "\<dots> = (case single_hash (found_list found @ hash_payloads [e]) of
      Inl x \<Rightarrow> Inl x
    | Inr f \<Rightarrow> tlv_scan ?src info layout (length ?front) (visited + 1) f)"
    using take_hash_entry [OF ok, of front "?body @ rest" found] bs e n
    by (simp add: add.assoc split: sum.split)
  also have "\<dots> = (case single_hash (found_list found @ hash_payloads [e]) of
      Inl x \<Rightarrow> Inl x
    | Inr f \<Rightarrow> (case single_hash (found_list f @ hash_payloads es) of
         Inl x \<Rightarrow> Inl x
       | Inr f \<Rightarrow> tlv_scan ?src info layout (length ?front + length ?body) (visited + 1 + length es) f))"
    using Cons.prems e bs by (intro sum.case_cong refl Cons.IH) auto
  also have "\<dots> = (case single_hash (found_list found @ hash_payloads (e # es)) of
         Inl x \<Rightarrow> Inl x
       | Inr f \<Rightarrow> tlv_scan ?src info layout (length ?front + length ?body) (visited + 1 + length es) f)"
    unfolding single_hash_step [where found = found and e = e and es = es, symmetric] by (simp split: sum.split)
  finally show ?case using e by (simp add: add.assoc split: sum.split)
qed

lemma unat_area [simp]: "length (tlv_area m es) < 65536 \<Longrightarrow>
    unat (of_nat (length (tlv_area m es)) :: u16) = length (tlv_area m es) \<and>
    unat (of_nat (length (tlv_area m es)) :: u32) = length (tlv_area m es)"
  by (simp add: unat_of_nat)

lemma tlv_scan_to_end:
  assumes "bs = front @ concat (map tlv_entry es) @ rest" and "\<forall>e\<in>set es. entry_ok e"
    and "visited + length es \<le> kMaxImageTlvs"
    and "end_of_tlvs layout = length front + length (concat (map tlv_entry es))"
    and "protected_tlv_size info = 0 \<or> protected_end layout < length front"
  shows "tlv_scan (MemoryImageSource bs) info layout (length front) visited found =
    single_hash (found_list found @ hash_payloads es)"
proof -
  have "tlv_scan (MemoryImageSource bs) info layout (end_of_tlvs layout) (visited + length es) f = Inr f" for f
    by (subst tlv_scan.simps) simp
  then have "(case r of Inl e \<Rightarrow> Inl e
      | Inr f \<Rightarrow> tlv_scan (MemoryImageSource bs) info layout
          (length front + length (concat (map tlv_entry es))) (visited + length es) f) = r" for r
    unfolding assms(4) [symmetric] by (simp split: sum.split)
  then show ?thesis
    using tlv_scan_run [OF assms(1-3), of layout info found] assms(4,5) by auto
qed

text \<open>The header of an area and its entries.\<close>

lemma tlv_area_split:
  obtains hd where "tlv_area m es = hd @ concat (map tlv_entry es)" and "length hd = 4"
  using that [of "le16_bytes m @ le16_bytes (of_nat (4 + length (concat (map tlv_entry es))))"]
  by (simp add: tlv_area_def le16_bytes_def)

lemma layout_unprotected:
  assumes pre: "through_body info = length pre" and "protected_tlv_size info = 0"
    and short: "length (tlv_area kTlvInfoMagic unprot) < 65536"
  shows "resolve_layout (MemoryImageSource (tlv_file pre None unprot trail)) info =
    Inr \<lparr>first = length pre + 4, protected_end = length pre,
      end_of_tlvs = length pre + length (tlv_area kTlvInfoMagic unprot)\<rparr>"
proof -
  have "\<not> length (tlv_area kTlvInfoMagic unprot) < 4" by (simp add: length_tlv_area)
  then show ?thesis
    using read_area [of pre kTlvInfoMagic unprot trail] unat_area [OF short] assms(2) pre
    by (simp add: resolve_layout_def unprotected_area_def kTlvProtInfoMagic_def kTlvInfoMagic_def
        kTlvHeaderSize_def Let_def memory.size_contents tlv_file_def)
qed

lemma protected_size:
  assumes "protected_tlv_size info = of_nat (length (tlv_area kTlvProtInfoMagic prot))"
    and "length (tlv_area kTlvProtInfoMagic prot) < 65536"
  shows "unat (protected_tlv_size info) = length (tlv_area kTlvProtInfoMagic prot)" "protected_tlv_size info \<noteq> 0"
proof -
  show same: "unat (protected_tlv_size info) = length (tlv_area kTlvProtInfoMagic prot)"
    using assms(1) unat_area [OF assms(2)] by simp
  show "protected_tlv_size info \<noteq> 0"
  proof
    assume "protected_tlv_size info = 0"
    with same show False by (simp add: length_tlv_area)
  qed
qed

lemma layout_protected:
  assumes pre: "through_body info = length pre"
    and size: "protected_tlv_size info = of_nat (length (tlv_area kTlvProtInfoMagic prot))"
    and short: "length (tlv_area kTlvProtInfoMagic prot) < 65536" "length (tlv_area kTlvInfoMagic unprot) < 65536"
  shows "resolve_layout (MemoryImageSource (tlv_file pre (Some prot) unprot trail)) info =
    Inr \<lparr>first = length pre + 4, protected_end = length pre + length (tlv_area kTlvProtInfoMagic prot),
      end_of_tlvs = length pre + length (tlv_area kTlvProtInfoMagic prot) + length (tlv_area kTlvInfoMagic unprot)\<rparr>"
proof -
  let ?prot = "tlv_area kTlvProtInfoMagic prot" and ?area = "tlv_area kTlvInfoMagic unprot"
  have four: "\<not> length ?area < 4" "\<not> length ?prot < 4" by (simp_all add: length_tlv_area)
  have same: "(ucast (of_nat (length ?prot) :: u16) :: u32) = of_nat (length ?prot)"
    using unat_area [OF short(1)] short(1)
    by (simp add: word_unat_eq_iff unsigned_ucast_eq take_bit_nat_eq_self)
  show ?thesis
    using read_area [of pre kTlvProtInfoMagic prot "?area @ trail"]
      read_area [of "pre @ ?prot" kTlvInfoMagic unprot trail] unat_area [OF short(1)]
      unat_area [OF short(2)] four protected_size [OF size short(1)] size same pre
    by (simp add: resolve_layout_def unprotected_area_def kTlvHeaderSize_def Let_def memory.size_contents tlv_file_def)
qed

lemma find_hash_unprotected:
  assumes "\<not> encrypted info" and pre: "through_body info = length pre"
    and "protected_tlv_size info = 0"
    and short: "length (tlv_area kTlvInfoMagic unprot) < 65536"
    and "\<forall>e\<in>set unprot. entry_ok e" and "length unprot \<le> kMaxImageTlvs"
  shows "find_image_tlv_hash (MemoryImageSource (tlv_file pre None unprot trail)) info =
    single_hash (hash_payloads unprot)"
proof -
  let ?area = "tlv_area kTlvInfoMagic unprot"
  let ?bs = "tlv_file pre None unprot trail"
  let ?layout = "\<lparr>first = length pre + 4, protected_end = length pre,
    end_of_tlvs = length pre + length ?area\<rparr>"
  obtain hd where hd: "?area = hd @ concat (map tlv_entry unprot)" "length hd = 4"
    by (rule tlv_area_split)
  have bs: "?bs = pre @ ?area @ trail" by (simp add: tlv_file_def)
  have "resolve_layout (MemoryImageSource ?bs) info = Inr ?layout"
    using layout_unprotected [OF pre assms(3) short] .
  moreover have "tlv_scan (MemoryImageSource ?bs) info ?layout (length (pre @ hd)) 0 None =
      single_hash (found_list None @ hash_payloads unprot)"
    using assms(3,5,6) bs hd by (intro tlv_scan_to_end) simp_all
  ultimately show ?thesis
    using assms(1) hd(2) by (simp add: find_image_tlv_hash_def found_list_def)
qed

lemma find_hash_protected:
  assumes "\<not> encrypted info" and pre: "through_body info = length pre"
    and size: "protected_tlv_size info = of_nat (length (tlv_area kTlvProtInfoMagic prot))"
    and short: "length (tlv_area kTlvProtInfoMagic prot) < 65536"
      "length (tlv_area kTlvInfoMagic unprot) < 65536"
    and ok: "\<forall>e\<in>set prot. entry_ok e" "\<forall>e\<in>set unprot. entry_ok e"
    and few: "length prot + 1 + length unprot \<le> kMaxImageTlvs"
  shows "find_image_tlv_hash (MemoryImageSource (tlv_file pre (Some prot) unprot trail)) info =
    single_hash (hash_payloads (prot @ unprot))"
proof -
  let ?prot = "tlv_area kTlvProtInfoMagic prot" and ?area = "tlv_area kTlvInfoMagic unprot"
  let ?src = "MemoryImageSource (tlv_file pre (Some prot) unprot trail)"
  let ?layout = "\<lparr>first = length pre + 4, protected_end = length pre + length ?prot,
    end_of_tlvs = length pre + length ?prot + length ?area\<rparr>"
  obtain hd where hd: "?area = hd @ concat (map tlv_entry unprot)" "length hd = 4"
    by (rule tlv_area_split)
  obtain hdp where hdp: "?prot = hdp @ concat (map tlv_entry prot)" "length hdp = 4"
    by (rule tlv_area_split)
  have bs: "tlv_file pre (Some prot) unprot trail = pre @ ?prot @ ?area @ trail"
    by (simp add: tlv_file_def)
  have four: "\<not> length ?area < 4" "\<not> length ?prot < 4" by (simp_all add: length_tlv_area)
  note psize = protected_size [OF size short(1)]
  have layout: "resolve_layout ?src info = Inr ?layout" using layout_protected [OF pre size short] .
  have scan1: "tlv_scan ?src info ?layout (length (pre @ hdp)) 0 None =
      (case single_hash (found_list None @ hash_payloads prot) of
         Inl e \<Rightarrow> Inl e
       | Inr f \<Rightarrow> tlv_scan ?src info ?layout
           (length (pre @ hdp) + length (concat (map tlv_entry prot))) (0 + length prot) f)"
    using ok few bs hdp psize by (intro tlv_scan_run) simp_all
  have scan2: "tlv_scan ?src info ?layout (length pre + length ?prot) (length prot) f =
      single_hash (found_list f @ hash_payloads unprot)" for f
  proof -
    have "tlv_scan ?src info ?layout (length pre + length ?prot) (length prot) f =
        tlv_scan ?src info ?layout (length pre + length ?prot + 4) (length prot + 1) f"
      using psize four few by (intro tlv_scan_skip) auto
    also have "\<dots> = tlv_scan ?src info ?layout (length (pre @ ?prot @ hd)) (length prot + 1) f"
      using hd(2) by (simp add: add.assoc)
    also have "\<dots> = single_hash (found_list f @ hash_payloads unprot)"
      using ok few bs hd by (intro tlv_scan_to_end) simp_all
    finally show ?thesis .
  qed
  have "find_image_tlv_hash ?src info = tlv_scan ?src info ?layout (length (pre @ hdp)) 0 None"
    using assms(1) layout hdp(2) by (simp add: find_image_tlv_hash_def)
  also have "\<dots> = (case single_hash (hash_payloads prot) of
         Inl e \<Rightarrow> Inl e
       | Inr f \<Rightarrow> single_hash (found_list f @ hash_payloads unprot))"
  proof -
    have pos: "length (pre @ hdp) + length (concat (map tlv_entry prot)) = length pre + length ?prot"
      using hdp by simp
    show ?thesis unfolding scan1 pos add_0 scan2 by (simp add: found_list_def)
  qed
  also have "\<dots> = single_hash (hash_payloads (prot @ unprot))"
    by (cases "hash_payloads prot" rule: single_hash.cases)
      (auto simp: found_list_def hash_payloads_def)
  finally show ?thesis .
qed

section \<open>Properties\<close>

text \<open>
  C33. The header parser accepts what the format says and nothing else. It succeeds exactly on a
  string of at least 32 bytes with the current magic, a header size of at least 32 and a header
  and body within the plausible size, and then returns the fields; every description a header
  can express is read back from its encoding, whatever follows it; and every failure is
  \<open>InvalidArgument\<close>.
\<close>

theorem mcuboot_header_exact:
  "(parse_mcuboot_header bs = Inr info \<longleftrightarrow>
      kMcubootHeaderSize \<le> length bs \<and> load_le32 bs 0 = kMcubootImageMagic \<and>
      info = header_fields bs \<and> kMcubootHeaderSize \<le> unat (header_size info) \<and>
      through_body info \<le> kMaxImageSize) \<and>
   (case parse_mcuboot_header bs of Inl e \<Rightarrow> code e = InvalidArgument | Inr i \<Rightarrow> info_ok i) \<and>
   (info_ok info \<longrightarrow> parse_mcuboot_header (header_bytes info address @ rest) = Inr info)"
proof (intro conjI)
  show "parse_mcuboot_header bs = Inr info \<longleftrightarrow>
      kMcubootHeaderSize \<le> length bs \<and> load_le32 bs 0 = kMcubootImageMagic \<and>
      info = header_fields bs \<and> kMcubootHeaderSize \<le> unat (header_size info) \<and>
      through_body info \<le> kMaxImageSize"
    by (auto simp: parse_mcuboot_header_def Let_def)
  have "unat (ucast (v :: u16) :: u32) < 65536" for v
    unfolding unsigned_ucast_eq
    by (rule order_le_less_trans [OF take_bit_nat_less_eq_self unat_u16_less])
  then have fields: "unat (header_size (header_fields bs)) < 65536"
      "unat (protected_tlv_size (header_fields bs)) < 65536"
      "encrypted (header_fields bs) \<longleftrightarrow> info_flags (header_fields bs) AND kFlagEncrypted \<noteq> 0"
    by (simp_all add: header_fields_def)
  show "case parse_mcuboot_header bs of Inl e \<Rightarrow> code e = InvalidArgument | Inr i \<Rightarrow> info_ok i"
    using fields by (simp add: parse_mcuboot_header_def Let_def info_ok_def)
qed (use parse_header_bytes in blast)

definition demo_info :: image_info where
  "demo_info = \<lparr>header_size = 32, image_size = 5, protected_tlv_size = 8, info_flags = 0,
     info_version = \<lparr>major = 1, minor = 2, revision = 3, build = 4\<rparr>, encrypted = False\<rparr>"

theorem mcuboot_header_exact_witness:
  "parse_mcuboot_header (header_bytes demo_info 0 @ [1, 2, 3]) = Inr demo_info"
proof -
  have "info_ok demo_info"
    by (simp add: info_ok_def demo_info_def kMcubootHeaderSize_def through_body_def kMaxImageSize_def)
  then show ?thesis using mcuboot_header_exact [of "[]" demo_info 0 "[1, 2, 3]"] by blast
qed

text \<open>
  The hash search is sound on any file: over a source that keeps its contract (the one over
  memory does), it never reads outside the file, and when it returns a hash, the file holds a
  TLV entry of a hash type with exactly the length of that type and these bytes as payload.
  Every failure is \<open>MalformedMessage\<close>; an encrypted image yields no hash and no failure.
\<close>

theorem tlv_hash_sound:
  "case find_image_tlv_hash (MemoryImageSource file) info of
     Inl e \<Rightarrow> \<not> encrypted info \<and> code e = MalformedMessage
   | Inr None \<Rightarrow> True
   | Inr (Some h) \<Rightarrow> \<not> encrypted info \<and> (\<exists>offset. hash_at file offset h)"
  by (rule memory.find_image_tlv_hash_contents)

text \<open>
  C34. The hash search is complete on well-formed files: for a file made of a header and body, a
  protected area (if the header announces one), an unprotected area and anything after them,
  with at most 256 entries whose hash TLVs have the length of their type, the search finds the
  one hash among all entries of both areas, reports that there is none, or refuses to choose
  among several.
\<close>

theorem tlv_hash_complete:
  assumes "\<not> encrypted info" and "through_body info = length pre"
    and "protected_tlv_size info =
      (case prot of None \<Rightarrow> 0 | Some es \<Rightarrow> of_nat (length (tlv_area kTlvProtInfoMagic es)))"
    and "list_all entry_ok (case prot of None \<Rightarrow> [] | Some es \<Rightarrow> es)" and "list_all entry_ok unprot"
    and "length (tlv_area kTlvProtInfoMagic (case prot of None \<Rightarrow> [] | Some es \<Rightarrow> es)) < 65536"
    and "length (tlv_area kTlvInfoMagic unprot) < 65536"
    and "length (case prot of None \<Rightarrow> [] | Some es \<Rightarrow> es) + 1 + length unprot \<le> kMaxImageTlvs"
  shows "find_image_tlv_hash (MemoryImageSource (tlv_file pre prot unprot trail)) info =
    single_hash (hash_payloads ((case prot of None \<Rightarrow> [] | Some es \<Rightarrow> es) @ unprot))"
proof (cases prot)
  case None
  then show ?thesis using assms find_hash_unprotected [of info pre unprot trail]
    by (simp add: list_all_iff)
next
  case (Some es)
  then show ?thesis using assms find_hash_protected [of info pre es unprot trail]
    by (simp add: list_all_iff)
qed

theorem tlv_hash_complete_witness:
  "find_image_tlv_hash (MemoryImageSource (tlv_file (replicate 37 0) (Some [(0x50, [])])
     [(0x10, replicate 32 7), (0x20, [1])] [9])) demo_info = Inr (Some (replicate 32 7))"
proof -
  have area: "length (tlv_area kTlvProtInfoMagic [(0x50, [])]) = 8" by (simp add: length_tlv_area)
  show ?thesis
    using tlv_hash_complete [of demo_info "replicate 37 0" "Some [(0x50, [])]"
        "[(0x10, replicate 32 7), (0x20, [1])]" "[9]"]
    by (simp add: demo_info_def through_body_def length_tlv_area entry_ok_def hash_tlv_for_def
        kHashTlvs_def hash_payloads_def kMaxImageTlvs_def)
qed

text \<open>
  C35. The upload hash is the SHA-256 of the file: over any source that keeps its contract - the
  size it reports, and the bytes asked for on every read inside the image - \<open>sha256\<close> returns
  the digest FIPS 180-4 defines for the whole contents, and the source over memory keeps it.
\<close>

theorem sha256_of_source:
  "(image_contract src contents \<longrightarrow> sha256_source src = Inr (sha256_spec contents)) \<and>
   sha256_source (MemoryImageSource file) = Inr (sha256_spec file)"
  using image_contract.sha256_contents memory.sha256_contents by blast

theorem sha256_of_source_witness:
  "sha256_source (MemoryImageSource [1, 2, 3]) = Inr (sha256_spec [1, 2, 3])"
  using sha256_of_source memory.image_contract_axioms by blast

end
