(* ===== verification/UploadTypes.thy ===== *)
theory UploadTypes
  imports Errors
begin

text \<open>
  The public types of an upload, \<open>include/smply/groups/image_upload.hpp\<close>, which the image group
  and the firmware updater share: the options, a report of progress and the result.
\<close>

record upload_options =
  up_image :: u32
  up_upgrade_only :: bool
  up_sha :: "bytes option"
  up_chunk_size :: u32
  up_server_buf_size :: "u32 option"
  up_max_chunk_retries :: u32
  up_max_restarts :: u32
  up_max_no_progress :: u32
  first_chunk_timeout :: duration
  final_chunk_timeout :: duration
  chunk_timeout :: duration

record upload_progress =
  prog_transferred :: u64
  prog_total :: u64

record upload_outcome =
  out_transferred :: u64
  out_already_present :: bool
  out_match :: "bool option"

end
