(* ===== verification/ImageUpload.thy ===== *)
theory ImageUpload
  imports UploadSession ImageFormat UploadTypes
begin

text \<open>
  Uploading an image: the driver of \<open>src/groups/image/upload_driver.hpp\<close> and \<open>.cpp\<close>, which
  carries out the decisions of the upload session, and the upload operations of
  \<open>ImageManagement\<close> (\<open>src/groups/image/image_management.cpp\<close>), which own it.

  The client is known by its contract: a request is accepted and completed later, or refused and
  completed with an error from the next \<open>poll\<close>; a cancelled request is completed with
  \<open>Cancelled\<close> from the next \<open>poll\<close>; deferred work runs there in order. Which requests the client
  refuses, the CBOR encoding of a map of fields, the decoding of an answer and the size of the
  probe map are parameters. The application's callbacks may call the group: what the \<open>n\<close>-th
  report of progress and the \<open>n\<close>-th completion do is given by \<open>progress_calls\<close> and \<open>done_calls\<close>.
  A callback is known by its number, an upload by its generation, 0 standing for an invalid
  handle. A closure that holds a driver's \<open>life_\<close> runs only while the group still has the upload
  of that generation.
\<close>

section \<open>Requests\<close>

datatype cbor_field =
    Field_Uint string u64
  | Field_Bytes string bytes
  | Field_Bool string bool

definition kUploadBufferSize :: nat where "kUploadBufferSize = 512 + 128"
definition kUploadCommand :: u8 where "kUploadCommand = 1"

text \<open>The fields of an upload request, in the order they are written.\<close>

definition request_fields :: "upload_config \<Rightarrow> upload_request \<Rightarrow> bytes \<Rightarrow> cbor_field list" where
  "request_fields cfg r data =
     (if first_packet r
      then [Field_Uint ''image'' (ucast (image cfg)), Field_Uint ''len'' (upload_config.image_size cfg)] else []) @
     [Field_Uint ''off'' (off r)] @
     (if first_packet r
      then (case sha cfg of Some h \<Rightarrow> [Field_Bytes ''sha'' h] | None \<Rightarrow> []) @
        (if upgrade_only cfg then [Field_Bool ''upgrade'' True] else [])
      else []) @
     [Field_Bytes ''data'' data]"

section \<open>State\<close>

record driver =
  drv_source :: image_source
  drv_config :: upload_config
  drv_first_timeout :: duration
  drv_final_timeout :: duration
  drv_chunk_timeout :: duration
  drv_progress :: bool
  drv_done :: "nat option"
  drv_state :: upload_state
  drv_request :: nat
  reported_off :: u64
  drv_active :: bool
  drv_starting :: bool
  generation :: nat

text \<open>Work deferred to the next \<open>poll\<close>: the client's completion of a request, a result that
  \<open>finish\<close> held back, an operation refused outright.\<close>

datatype deferred_work =
    Completion nat error
  | Report_Result nat nat "upload_outcome result"
  | Rejection nat error

record sent_packet =
  pk_generation :: nat
  pk_request :: upload_request
  pk_fields :: "cbor_field list"
  pk_payload :: bytes
  pk_timeout :: duration

text \<open>
  The members of \<open>ImageManagement\<close>, the client as far as uploads use it, and the logs: the
  uploads begun, the packets sent, what was told. \<open>inline_call\<close> records that a callback ran inside
  a call of the application; \<open>dropped\<close> the results whose driver was gone.
\<close>

record image_group =
  upload_of :: "driver option"
  upload_generation :: nat
  handles :: nat
  outstanding :: "(nat \<times> nat) list"
  deferred :: "deferred_work list"
  callbacks :: nat
  uploads :: "(image_source \<times> upload_config) list"
  packets :: "sent_packet list"
  progress_log :: "(nat \<times> upload_progress) list"
  done_log :: "(nat \<times> upload_outcome result) list"
  dropped :: "nat list"
  inline_call :: bool

datatype group_call =
    Call_Upload image_source upload_options bool
  | Call_Resume nat
  | Call_Cancel nat

record upload_env =
  encode_fields :: "cbor_field list \<Rightarrow> nat \<Rightarrow> bytes option"
  decode_fields :: "bytes \<Rightarrow> (u64 option \<times> bool option) result"
  request_refused :: "nat \<Rightarrow> error option"
  probe_size :: probe
  link_max_message :: u64
  link_overhead :: u64
  progress_calls :: "nat \<Rightarrow> group_call list"
  done_calls :: "nat \<Rightarrow> group_call list"

text \<open>What calling the application's callbacks does.\<close>

record handlers =
  tell_progress :: "upload_progress \<Rightarrow> image_group \<Rightarrow> image_group"
  tell_done :: "nat \<Rightarrow> upload_outcome result \<Rightarrow> image_group \<Rightarrow> image_group"

definition on_driver :: "(driver \<Rightarrow> driver) \<Rightarrow> image_group \<Rightarrow> image_group" where
  "on_driver f w = w\<lparr>upload_of := map_option f (upload_of w)\<rparr>"

section \<open>The client\<close>

definition client_request ::
    "upload_env \<Rightarrow> driver \<Rightarrow> upload_request \<Rightarrow> cbor_field list \<Rightarrow> bytes \<Rightarrow> duration \<Rightarrow> image_group \<Rightarrow> image_group" where
  "client_request env d r fs payload timeout w =
     (let h = Suc (handles w);
          w1 = w\<lparr>handles := h, packets := packets w @ [\<lparr>pk_generation = generation d, pk_request = r,
            pk_fields = fs, pk_payload = payload, pk_timeout = timeout\<rparr>]\<rparr>
      in case request_refused env (handles w) of
           None \<Rightarrow> on_driver (\<lambda>d. d\<lparr>drv_request := h\<rparr>) (w1\<lparr>outstanding := outstanding w1 @ [(h, generation d)]\<rparr>)
         | Some e \<Rightarrow> on_driver (\<lambda>d. d\<lparr>drv_request := 0\<rparr>)
             (w1\<lparr>deferred := deferred w1 @ [Completion (generation d) e]\<rparr>))"

definition client_cancel :: "nat \<Rightarrow> image_group \<Rightarrow> image_group" where
  "client_cancel h w =
     (case map_of (outstanding w) h of
        None \<Rightarrow> w
      | Some g \<Rightarrow> w\<lparr>outstanding := filter (\<lambda>p. fst p \<noteq> h) (outstanding w),
          deferred := deferred w @ [Completion g (Error Cancelled ''client: request cancelled'')]\<rparr>)"

section \<open>The driver\<close>

definition driver_finish :: "handlers \<Rightarrow> upload_outcome result \<Rightarrow> image_group \<Rightarrow> image_group" where
  "driver_finish hs outcome w =
     (case upload_of w of
        None \<Rightarrow> w
      | Some d \<Rightarrow>
          if \<not> drv_active d then w
          else let w1 = on_driver (\<lambda>d. d\<lparr>drv_active := False, drv_done := None\<rparr>) w
               in case drv_done d of
                    None \<Rightarrow> w1
                  | Some cb \<Rightarrow>
                      if drv_starting d
                      then w1\<lparr>deferred := deferred w1 @ [Report_Result (generation d) cb outcome]\<rparr>
                      else tell_done hs cb outcome w1)"

definition chunk_deadline :: "driver \<Rightarrow> upload_request \<Rightarrow> duration" where
  "chunk_deadline d r =
     (if first_packet r then drv_first_timeout d
      else if off r + ucast (len r) = upload_config.image_size (drv_config d) then drv_final_timeout d
      else drv_chunk_timeout d)"

definition driver_send :: "handlers \<Rightarrow> upload_env \<Rightarrow> upload_request \<Rightarrow> image_group \<Rightarrow> image_group" where
  "driver_send hs env r w =
     (case upload_of w of
        None \<Rightarrow> w
      | Some d \<Rightarrow>
          (case src_read (drv_source d) (unat (off r)) (unat (len r)) of
             Inl e \<Rightarrow> driver_finish hs (Inl e) w
           | Inr data \<Rightarrow>
               if length data \<noteq> unat (len r) then
                 driver_finish hs (Inl (Error InvalidArgument ''upload: source returned a short read'')) w
               else let fs = request_fields (drv_config d) r data in
                 case encode_fields env fs kUploadBufferSize of
                   None \<Rightarrow> driver_finish hs (Inl (Error Internal ''upload: request buffer too small'')) w
                 | Some payload \<Rightarrow>
                     client_request env d r fs payload (chunk_deadline d r)
                       (on_driver (\<lambda>d. d\<lparr>drv_state := record_sent (drv_state d) r\<rparr>) w)))"

text \<open>The report of progress both places of the driver make; \<open>on_progress_\<close> may be empty.\<close>

definition driver_progress :: "handlers \<Rightarrow> image_group \<Rightarrow> image_group" where
  "driver_progress hs w =
     (case upload_of w of
        None \<Rightarrow> w
      | Some d \<Rightarrow>
          if drv_progress d \<and> confirmed_off (drv_state d) \<noteq> reported_off d then
            tell_progress hs \<lparr>prog_transferred = confirmed_off (drv_state d),
                prog_total = upload_config.image_size (drv_config d)\<rparr>
              (on_driver (\<lambda>d. d\<lparr>reported_off := confirmed_off (drv_state d)\<rparr>) w)
          else w)"

definition driver_advance :: "handlers \<Rightarrow> upload_env \<Rightarrow> step \<Rightarrow> image_group \<Rightarrow> image_group" where
  "driver_advance hs env s w =
     (case action s of
        SendChunk \<Rightarrow> driver_send hs env (request s) w
      | Complete \<Rightarrow>
          let w1 = driver_progress hs w in
          (case upload_of w1 of
             None \<Rightarrow> w1
           | Some d \<Rightarrow> driver_finish hs (Inr \<lparr>out_transferred = confirmed_off (drv_state d),
                 out_already_present = completed_on_first_packet s, out_match = step_match s\<rparr>) w1)
      | _ \<Rightarrow> driver_finish hs (Inl (step_error s)) w)"

definition driver_start :: "handlers \<Rightarrow> upload_env \<Rightarrow> image_group \<Rightarrow> image_group" where
  "driver_start hs env w =
     (case upload_of w of
        None \<Rightarrow> w
      | Some d \<Rightarrow>
          on_driver (\<lambda>d. d\<lparr>drv_starting := False\<rparr>)
            (driver_advance hs env (plan_next (drv_state d) (drv_config d))
              (on_driver (\<lambda>d. d\<lparr>drv_active := True, drv_starting := True\<rparr>) w)))"

definition driver_restart :: "handlers \<Rightarrow> upload_env \<Rightarrow> nat \<Rightarrow> image_group \<Rightarrow> image_group" where
  "driver_restart hs env cb w =
     (case upload_of w of
        None \<Rightarrow> w
      | Some d \<Rightarrow>
          (case resume (drv_state d) (drv_config d) of (st, s) \<Rightarrow>
             on_driver (\<lambda>d. d\<lparr>drv_starting := False\<rparr>)
               (driver_advance hs env s
                 (on_driver (\<lambda>d. d\<lparr>drv_done := Some cb, drv_active := True, drv_starting := True,
                    drv_state := st\<rparr>) w))))"

definition driver_cancel :: "image_group \<Rightarrow> image_group" where
  "driver_cancel w =
     (case upload_of w of
        None \<Rightarrow> w
      | Some d \<Rightarrow>
          if \<not> drv_active d then w
          else on_driver (\<lambda>d. d\<lparr>drv_request := 0\<rparr>) (client_cancel (drv_request d) w))"

definition driver_abandon :: "handlers \<Rightarrow> image_group \<Rightarrow> image_group" where
  "driver_abandon hs w =
     (case upload_of w of
        None \<Rightarrow> w
      | Some d \<Rightarrow>
          if \<not> drv_active d then w
          else driver_finish hs (Inl (Error Cancelled ''upload: image management destroyed''))
            (on_driver (\<lambda>d. d\<lparr>drv_request := 0\<rparr>) (client_cancel (drv_request d) w)))"

definition decode_answer :: "upload_env \<Rightarrow> bytes result \<Rightarrow> upload_response" where
  "decode_answer env r =
     (case r of
        Inl e \<Rightarrow> \<lparr>resp_off = None, resp_match = None, failure = Some e\<rparr>
      | Inr payload \<Rightarrow>
          (case decode_fields env payload of
             Inl e \<Rightarrow> \<lparr>resp_off = None, resp_match = None, failure = Some e\<rparr>
           | Inr (o', m) \<Rightarrow> \<lparr>resp_off = o', resp_match = m, failure = None\<rparr>))"

definition driver_handle :: "handlers \<Rightarrow> upload_env \<Rightarrow> bytes result \<Rightarrow> image_group \<Rightarrow> image_group" where
  "driver_handle hs env r w =
     (case upload_of w of
        None \<Rightarrow> w
      | Some d \<Rightarrow>
          if \<not> drv_active d then w
          else case on_response (drv_state d) (decode_answer env r) (drv_config d) of (st, s) \<Rightarrow>
            let w1 = on_driver (\<lambda>d. d\<lparr>drv_request := 0, drv_state := st\<rparr>) w
            in driver_advance hs env s (if action s = SendChunk then driver_progress hs w1 else w1))"

section \<open>The operations of the group\<close>

definition resumable :: "nat \<Rightarrow> image_group \<Rightarrow> bool" where
  "resumable h w =
     (case upload_of w of None \<Rightarrow> False | Some d \<Rightarrow> h = generation d \<and> phase (drv_state d) = Phase_Suspended)"

definition transferred_of :: "nat \<Rightarrow> image_group \<Rightarrow> u64" where
  "transferred_of h w =
     (case upload_of w of None \<Rightarrow> 0 | Some d \<Rightarrow> if h \<noteq> generation d then 0 else confirmed_off (drv_state d))"

definition uploading :: "nat \<Rightarrow> image_group \<Rightarrow> bool" where
  "uploading h w = (case upload_of w of None \<Rightarrow> False | Some d \<Rightarrow> h = generation d \<and> drv_active d)"

definition reject_with :: "nat \<Rightarrow> error \<Rightarrow> image_group \<Rightarrow> image_group" where
  "reject_with cb e w = w\<lparr>deferred := deferred w @ [Rejection cb e]\<rparr>"

text \<open>The checks of \<open>upload\<close> and the configuration they lead to.\<close>

definition plan_session :: "upload_env \<Rightarrow> image_source \<Rightarrow> upload_options \<Rightarrow> upload_config result" where
  "plan_session env src opts =
     (if src_size src = 0 then Inl (Error InvalidArgument ''image: empty image source'')
      else if src_size src > kMaxImageSize then Inl (Error InvalidArgument ''image: image implausibly large'')
      else if up_chunk_size opts \<noteq> 0 \<and> (up_chunk_size opts < kUploadChunkMin \<or> up_chunk_size opts > kUploadChunkMax)
      then Inl (Error InvalidArgument ''image: chunk size out of range'')
      else case (case up_sha opts of Some h \<Rightarrow> Inr h | None \<Rightarrow> sha256_source src) of
        Inl e \<Rightarrow> Inl e
      | Inr h \<Rightarrow>
          let cfg = \<lparr>upload_config.image_size = of_nat (src_size src), chunk_size = up_chunk_size opts, image = up_image opts,
                sha = Some h, upgrade_only = up_upgrade_only opts, max_chunk_retries = up_max_chunk_retries opts,
                max_restarts = up_max_restarts opts, max_no_progress = up_max_no_progress opts\<rparr>;
              fp = \<lparr>fp_image_size = of_nat (src_size src), fp_image = up_image opts, fp_sha = Some h,
                fp_upgrade_only = up_upgrade_only opts\<rparr>
          in if up_chunk_size opts \<noteq> 0 then Inr cfg
             else case compute_chunk_size (probe_size env)
                 \<lparr>server_buf_size = up_server_buf_size opts, transport_max_message_size = link_max_message env,
                  transport_message_overhead = link_overhead env, configured_max = kUploadChunkMax\<rparr> fp of
               Inl e \<Rightarrow> Inl e
             | Inr n \<Rightarrow> Inr (cfg\<lparr>chunk_size := n\<rparr>))"

definition new_driver :: "image_source \<Rightarrow> upload_config \<Rightarrow> upload_options \<Rightarrow> bool \<Rightarrow> nat \<Rightarrow> nat \<Rightarrow> driver" where
  "new_driver src cfg opts progress cb g =
     \<lparr>drv_source = src, drv_config = cfg, drv_first_timeout = first_chunk_timeout opts,
      drv_final_timeout = final_chunk_timeout opts, drv_chunk_timeout = chunk_timeout opts,
      drv_progress = progress, drv_done = Some cb, drv_state = UploadState, drv_request = 0, reported_off = 0,
      drv_active = False, drv_starting = False, generation = g\<rparr>"

definition group_upload ::
    "handlers \<Rightarrow> upload_env \<Rightarrow> image_source \<Rightarrow> upload_options \<Rightarrow> bool \<Rightarrow> image_group \<Rightarrow> image_group \<times> nat" where
  "group_upload hs env src opts progress w0 =
     (let cb = callbacks w0; w = w0\<lparr>callbacks := Suc cb\<rparr> in
      if (case upload_of w of None \<Rightarrow> False | Some d \<Rightarrow> drv_active d)
      then (reject_with cb (Error InvalidState ''image: an upload is already running'') w, 0)
      else case plan_session env src opts of
        Inl e \<Rightarrow> (reject_with cb e w, 0)
      | Inr cfg \<Rightarrow>
          let g = Suc (upload_generation w);
              w1 = driver_start hs env (w\<lparr>upload_generation := g, uploads := uploads w @ [(src, cfg)],
                upload_of := Some (new_driver src cfg opts progress cb g)\<rparr>)
          in (w1, if (case upload_of w1 of None \<Rightarrow> False | Some d \<Rightarrow> drv_active d) then g else 0))"

definition group_resume :: "handlers \<Rightarrow> upload_env \<Rightarrow> nat \<Rightarrow> image_group \<Rightarrow> image_group \<times> nat" where
  "group_resume hs env h w0 =
     (let cb = callbacks w0; w = w0\<lparr>callbacks := Suc cb\<rparr> in
      if \<not> resumable h w then (reject_with cb (Error InvalidState ''image: no upload to resume'') w, 0)
      else (driver_restart hs env cb w, h))"

definition group_cancel :: "nat \<Rightarrow> image_group \<Rightarrow> image_group" where
  "group_cancel h w =
     (case upload_of w of
        None \<Rightarrow> w
      | Some d \<Rightarrow> if h = generation d then driver_cancel w else w)"

text \<open>The callback the driver holds, lost if it is destroyed with it.\<close>

definition held :: "image_group \<Rightarrow> nat list" where
  "held w = (case upload_of w of None \<Rightarrow> [] | Some d \<Rightarrow> (case drv_done d of None \<Rightarrow> [] | Some cb \<Rightarrow> [cb]))"

definition group_destroy :: "handlers \<Rightarrow> image_group \<Rightarrow> image_group" where
  "group_destroy hs w =
     (let w1 = driver_abandon hs w in w1\<lparr>upload_of := None, dropped := dropped w1 @ held w1\<rparr>)"

section \<open>Calls and callbacks\<close>

text \<open>Inside a call of the application no callback should run; if one did, it would be recorded.\<close>

definition inside_call :: handlers where
  "inside_call = \<lparr>tell_progress = (\<lambda>p w. w\<lparr>inline_call := True\<rparr>),
     tell_done = (\<lambda>cb r w. w\<lparr>inline_call := True\<rparr>)\<rparr>"

fun group_step :: "upload_env \<Rightarrow> group_call \<Rightarrow> image_group \<Rightarrow> image_group" where
  "group_step env (Call_Upload src opts progress) w = fst (group_upload inside_call env src opts progress w)"
| "group_step env (Call_Resume h) w = fst (group_resume inside_call env h w)"
| "group_step env (Call_Cancel h) w = group_cancel h w"

definition on_poll :: "upload_env \<Rightarrow> handlers" where
  "on_poll env =
     \<lparr>tell_progress = (\<lambda>p w. fold (group_step env) (progress_calls env (length (progress_log w)))
        (w\<lparr>progress_log := progress_log w @ [(upload_generation w, p)]\<rparr>)),
      tell_done = (\<lambda>cb r w. fold (group_step env) (done_calls env (length (done_log w)))
        (w\<lparr>done_log := done_log w @ [(cb, r)]\<rparr>))\<rparr>"

definition alive :: "nat \<Rightarrow> image_group \<Rightarrow> bool" where
  "alive g w = (case upload_of w of None \<Rightarrow> False | Some d \<Rightarrow> generation d = g)"

text \<open>What reaches the group from the client.\<close>

definition answered :: "upload_env \<Rightarrow> nat \<Rightarrow> bytes result \<Rightarrow> image_group \<Rightarrow> image_group" where
  "answered env h r w =
     (case map_of (outstanding w) h of
        None \<Rightarrow> w
      | Some g \<Rightarrow>
          let w1 = w\<lparr>outstanding := filter (\<lambda>p. fst p \<noteq> h) (outstanding w)\<rparr>
          in if alive g w1 then driver_handle (on_poll env) env r w1 else w1)"

definition run_deferred :: "upload_env \<Rightarrow> image_group \<Rightarrow> image_group" where
  "run_deferred env w =
     (case deferred w of
        [] \<Rightarrow> w
      | x # xs \<Rightarrow>
          let w1 = w\<lparr>deferred := xs\<rparr> in
          (case x of
             Completion g e \<Rightarrow> if alive g w1 then driver_handle (on_poll env) env (Inl e) w1 else w1
           | Report_Result g cb r \<Rightarrow>
               if alive g w1 then tell_done (on_poll env) cb r w1 else w1\<lparr>dropped := dropped w1 @ [cb]\<rparr>
           | Rejection cb e \<Rightarrow> tell_done (on_poll env) cb (Inl e) w1))"

datatype group_input =
    Input_Call group_call
  | Input_Answer nat "bytes result"
  | Input_Deferred
  | Input_Destroy

fun group_deliver :: "upload_env \<Rightarrow> group_input \<Rightarrow> image_group \<Rightarrow> image_group" where
  "group_deliver env (Input_Call c) w = group_step env c w"
| "group_deliver env (Input_Answer h r) w = answered env h r w"
| "group_deliver env Input_Deferred w = run_deferred env w"
| "group_deliver env Input_Destroy w = group_destroy (on_poll env) w"

definition ImageManagement :: image_group where
  "ImageManagement = \<lparr>upload_of = None, upload_generation = 0, handles = 0, outstanding = [], deferred = [],
     callbacks = 0, uploads = [], packets = [], progress_log = [], done_log = [], dropped = [], inline_call = False\<rparr>"

definition group_run :: "upload_env \<Rightarrow> group_input list \<Rightarrow> image_group" where
  "group_run env ins = fold (group_deliver env) ins ImageManagement"

end
