(* ===== verification/UploadProperties.thy ===== *)
theory UploadProperties
  imports ImageUpload "HOL-Library.Multiset" "HOL-Library.Sublist"
begin

text \<open>
  What uploads through \<open>ImageManagement\<close> promise: every packet carries the bytes of the file at
  its offset, a server that keeps to the offsets holds the file when it reports the end, success
  is only what the device reported, every callback is called once and never inside a call. And two
  calls that are lost.
\<close>

section \<open>The invariant\<close>

text \<open>The callbacks waiting in the queue, and all that are accounted for.\<close>

fun waiting :: "deferred_work \<Rightarrow> nat list" where
  "waiting (Completion g e) = []"
| "waiting (Report_Result g cb r) = [cb]"
| "waiting (Rejection cb e) = [cb]"

fun only_failures :: "deferred_work \<Rightarrow> bool" where
  "only_failures (Report_Result g cb r) \<longleftrightarrow> isl r"
| "only_failures _ \<longleftrightarrow> True"

definition accounted :: "image_group \<Rightarrow> nat multiset" where
  "accounted w = mset (map fst (done_log w)) + mset (concat (map waiting (deferred w))) + mset (dropped w) +
     mset (held w)"

text \<open>A packet that carries what its upload says.\<close>

definition packet_ok :: "(image_source \<times> upload_config) list \<Rightarrow> sent_packet \<Rightarrow> bool" where
  "packet_ok us p \<longleftrightarrow> 0 < pk_generation p \<and> pk_generation p \<le> length us \<and>
     (case us ! (pk_generation p - 1) of (src, cfg) \<Rightarrow>
        request_ok cfg (pk_request p) \<and>
        (\<exists>data. src_read src (unat (off (pk_request p))) (unat (len (pk_request p))) = Inr data \<and>
           length data = unat (len (pk_request p)) \<and> pk_fields p = request_fields cfg (pk_request p) data))"

definition session_ok :: "image_source \<times> upload_config \<Rightarrow> bool" where
  "session_ok u \<longleftrightarrow> config_ok (snd u) \<and> unat (upload_config.image_size (snd u)) = src_size (fst u)"

definition driver_ok :: "image_group \<Rightarrow> driver \<Rightarrow> bool" where
  "driver_ok w d \<longleftrightarrow> generation d = upload_generation w \<and> 0 < generation d \<and>
     uploads w ! (generation d - 1) = (drv_source d, drv_config d) \<and> session_ok (drv_source d, drv_config d) \<and>
     (drv_active d \<longleftrightarrow> drv_done d \<noteq> None)"

definition base :: "nat multiset \<Rightarrow> image_group \<Rightarrow> bool" where
  "base X w \<longleftrightarrow> length (uploads w) = upload_generation w \<and> list_all session_ok (uploads w) \<and>
     list_all (packet_ok (uploads w)) (packets w) \<and>
     list_all only_failures (deferred w) \<and> \<not> inline_call w \<and> accounted w + X = mset [0..<callbacks w] \<and>
     (case upload_of w of None \<Rightarrow> True | Some d \<Rightarrow> driver_ok w d)"

text \<open>A driver at rest: its session has a request out, or was suspended with one, or is over.\<close>

definition at_rest :: "upload_config \<Rightarrow> upload_state \<Rightarrow> bool \<Rightarrow> bool" where
  "at_rest cfg st active \<longleftrightarrow> (if active then session_inv cfg st
     else phase st = Phase_Suspended \<longrightarrow> session_inv cfg (st\<lparr>phase := Phase_Sending\<rparr>))"

definition ready :: "image_group \<Rightarrow> bool" where
  "ready w \<longleftrightarrow> (case upload_of w of None \<Rightarrow> True | Some d \<Rightarrow>
     \<not> drv_starting d \<and> at_rest (drv_config d) (drv_state d) (drv_active d))"

definition good :: "image_group \<Rightarrow> bool" where
  "good w \<longleftrightarrow> base {#} w \<and> ready w"

text \<open>What a step of the session may be given to the driver.\<close>

definition stepped :: "upload_config \<Rightarrow> upload_state \<Rightarrow> step \<Rightarrow> bool" where
  "stepped cfg st s \<longleftrightarrow>
     (case action s of
        SendChunk \<Rightarrow> request_ok cfg (request s) \<and> session_inv cfg (record_sent st (request s)) \<and> phase st \<noteq> Phase_Suspended
      | Suspend \<Rightarrow> phase st = Phase_Suspended \<and> session_inv cfg (st\<lparr>phase := Phase_Sending\<rparr>)
      | _ \<Rightarrow> phase st \<noteq> Phase_Suspended)"

lemma plan_stepped:
  assumes "config_ok cfg"
  shows "stepped cfg UploadState (plan_next UploadState cfg)" "action (plan_next UploadState cfg) = SendChunk"
proof -
  have "plan_next UploadState cfg = send_from UploadState cfg"
    using assms by (auto simp: plan_next_def UploadState_def config_ok_def)
  then show "stepped cfg UploadState (plan_next UploadState cfg)" "action (plan_next UploadState cfg) = SendChunk"
    using started_inv [OF assms] send_from_ok [OF assms, of UploadState] assms
    by (auto simp: stepped_def started_def) (auto simp: UploadState_def config_ok_def)
qed

lemma resume_stepped:
  assumes "config_ok cfg" and "session_inv cfg (st\<lparr>phase := Phase_Sending\<rparr>)" and "phase st = Phase_Suspended"
    and "resume st cfg = (st', s)"
  shows "stepped cfg st' s" "action s = SendChunk"
proof -
  have st: "st = (st\<lparr>phase := Phase_Sending\<rparr>)\<lparr>phase := Phase_Suspended\<rparr>" using assms(3) by simp
  have r: "resume ((st\<lparr>phase := Phase_Sending\<rparr>)\<lparr>phase := Phase_Suspended\<rparr>) cfg = (st', s)"
    using assms(4) st by metis
  have "action s = SendChunk" "phase st' \<noteq> Phase_Suspended"
    using r unfolding resume_suspended [OF assms(2)] by (auto simp del: upload_state.update_convs)
  then show "stepped cfg st' s" "action s = SendChunk"
    using resumed_inv [OF assms(2,1) r] by (simp_all add: stepped_def)
qed

lemma response_stepped:
  assumes "config_ok cfg" and "session_inv cfg st" and "on_response st resp cfg = (st', s)"
  shows "stepped cfg st' s"
proof (cases "action s")
  case SendChunk
  have "phase st' = Phase_Sending"
    using assms(2,3) SendChunk by (auto simp: upload_simps session_inv_def split: option.splits if_splits)
  then show ?thesis
    using session_step_inv [OF assms(2,1), of resp] assms(3) SendChunk by (simp add: stepped_def session_step_def)
next
  case Suspend
  then show ?thesis using suspend_cases(2) [OF assms(3)] assms(2) by (auto simp: stepped_def session_inv_def in_flight_def)
next
  case Complete
  then show ?thesis using assms(2,3)
    by (auto simp: stepped_def upload_simps session_inv_def send_from_def split: option.splits if_splits)
next
  case Fail
  then show ?thesis using assms(2,3)
    by (auto simp: stepped_def upload_simps session_inv_def send_from_def split: option.splits if_splits)
qed

section \<open>The driver inside a call\<close>

lemma base_driver:
  assumes "base X w" and "upload_of w = Some d" and "generation d' = generation d" "drv_source d' = drv_source d"
    "drv_config d' = drv_config d" "drv_active d' = drv_active d" "drv_done d' = drv_done d"
  shows "base X (w\<lparr>upload_of := Some d'\<rparr>)"
  using assms by (auto simp: base_def driver_ok_def accounted_def held_def)

lemma on_driver_some: "upload_of w = Some d \<Longrightarrow> on_driver f w = w\<lparr>upload_of := Some (f d)\<rparr>"
  by (simp add: on_driver_def)

lemma base_request:
  assumes "base X w" and "upload_of w = Some d" and "request_ok (drv_config d) r"
    and "src_read (drv_source d) (unat (off r)) (unat (len r)) = Inr data" and "length data = unat (len r)"
  shows "base X (client_request env d r (request_fields (drv_config d) r data) payload t w)"
    and "\<exists>h. upload_of (client_request env d r (request_fields (drv_config d) r data) payload t w) = Some (d\<lparr>drv_request := h\<rparr>)"
proof -
  let ?p = "\<lparr>pk_generation = generation d, pk_request = r, pk_fields = request_fields (drv_config d) r data,
    pk_payload = payload, pk_timeout = t\<rparr>"
  have "driver_ok w d" "length (uploads w) = upload_generation w" using assms(1,2) by (simp_all add: base_def)
  then have "packet_ok (uploads w) ?p"
    using assms(3-5) by (auto simp: packet_ok_def driver_ok_def)
  then show "base X (client_request env d r (request_fields (drv_config d) r data) payload t w)"
    using assms(1,2)
    by (auto simp: client_request_def Let_def on_driver_def base_def driver_ok_def accounted_def held_def
        split: option.split)
  show "\<exists>h. upload_of (client_request env d r (request_fields (drv_config d) r data) payload t w) = Some (d\<lparr>drv_request := h\<rparr>)"
    using assms(2) by (auto simp: client_request_def Let_def on_driver_def split: option.split)
qed

lemma finish_starting:
  assumes "base {#} w" and "upload_of w = Some d" and "drv_active d" and "drv_starting d"
  shows "base {#} (driver_finish hs (Inl e) w)"
    and "upload_of (driver_finish hs (Inl e) w) = Some (d\<lparr>drv_active := False, drv_done := None\<rparr>)"
proof -
  obtain cb where cb: "drv_done d = Some cb" using assms(1-3) by (auto simp: base_def driver_ok_def)
  have eq: "driver_finish hs (Inl e) w = w\<lparr>upload_of := Some (d\<lparr>drv_active := False, drv_done := None\<rparr>),
      deferred := deferred w @ [Report_Result (generation d) cb (Inl e)]\<rparr>"
    using assms(2-4) cb by (simp add: driver_finish_def on_driver_def Let_def)
  show "base {#} (driver_finish hs (Inl e) w)"
    using assms(1,2) cb unfolding eq
    by (auto simp: base_def driver_ok_def accounted_def held_def)
  show "upload_of (driver_finish hs (Inl e) w) = Some (d\<lparr>drv_active := False, drv_done := None\<rparr>)"
    unfolding eq by simp
qed

definition starting_ok :: "upload_config \<Rightarrow> image_group \<Rightarrow> bool" where
  "starting_ok cfg w \<longleftrightarrow> base {#} w \<and> (\<exists>d. upload_of w = Some d \<and> drv_starting d \<and> drv_config d = cfg \<and>
     at_rest cfg (drv_state d) (drv_active d))"

lemma send_starting:
  assumes "base {#} w" and "upload_of w = Some d" and "drv_active d" and "drv_starting d"
    and "stepped (drv_config d) (drv_state d) s" and "action s = SendChunk"
  shows "starting_ok (drv_config d) (driver_advance hs env s w)"
proof -
  let ?r = "request s" and ?d = "d\<lparr>drv_state := record_sent (drv_state d) (request s)\<rparr>"
  have s: "request_ok (drv_config d) ?r" "session_inv (drv_config d) (record_sent (drv_state d) ?r)"
    "phase (drv_state d) \<noteq> Phase_Suspended"
    using assms(5,6) by (simp_all add: stepped_def)
  have stop: "starting_ok (drv_config d) (driver_finish hs (Inl e) w)" for e
    using finish_starting [OF assms(1-4), of hs e] assms(4) s(3) by (auto simp: starting_ok_def at_rest_def)
  let ?w = "w\<lparr>upload_of := Some ?d\<rparr>"
  have b: "base {#} ?w" using assms(1,2) by (rule base_driver) simp_all
  have sent: "starting_ok (drv_config d) (client_request env d ?r (request_fields (drv_config d) ?r data) payload t ?w)"
    if "src_read (drv_source d) (unat (off ?r)) (unat (len ?r)) = Inr data" "length data = unat (len ?r)" for data payload t
  proof -
    have "client_request env d ?r fs payload t ?w = client_request env ?d ?r fs payload t ?w" for fs
      by (simp add: client_request_def Let_def cong: option.case_cong)
    then show ?thesis
      using base_request [OF b, of ?d ?r data env payload t] that s assms(3,4)
      by (auto simp: starting_ok_def at_rest_def)
  qed
  have "driver_advance hs env s w = driver_send hs env ?r w" using assms(6) by (simp add: driver_advance_def)
  then show ?thesis
    using stop sent assms(2)
    by (auto simp: driver_send_def on_driver_some Let_def split: sum.split option.split)
qed

lemma starting_over:
  assumes "starting_ok cfg w"
  shows "good (on_driver (\<lambda>d. d\<lparr>drv_starting := False\<rparr>) w)"
proof -
  obtain d where d: "upload_of w = Some d" "drv_config d = cfg" "at_rest cfg (drv_state d) (drv_active d)"
    using assms by (auto simp: starting_ok_def)
  have "base {#} (w\<lparr>upload_of := Some (d\<lparr>drv_starting := False\<rparr>)\<rparr>)"
    using assms d(1) by (intro base_driver) (auto simp: starting_ok_def)
  then show ?thesis using d by (simp add: good_def ready_def on_driver_some)
qed

section \<open>Calls of the application\<close>

lemma base_reject:
  assumes "base X w"
  shows "base X (reject_with (callbacks w) e (w\<lparr>callbacks := Suc (callbacks w)\<rparr>))"
proof -
  have "accounted (reject_with (callbacks w) e (w\<lparr>callbacks := Suc (callbacks w)\<rparr>)) = add_mset (callbacks w) (accounted w)"
    by (simp add: reject_with_def accounted_def held_def)
  then show ?thesis using assms
    by (auto simp: base_def reject_with_def driver_ok_def split: option.split)
qed

lemma computed_chunk: "compute_chunk_size probe b fp = Inr n \<Longrightarrow> configured_max b = kUploadChunkMax \<Longrightarrow> 0 < n"
proof -
  assume *: "compute_chunk_size probe b fp = Inr n" "configured_max b = kUploadChunkMax"
  then obtain c :: u64 where c: "n = ucast c" "32 \<le> c" "c \<le> 512"
    by (auto simp: compute_chunk_size_def Let_def kUploadChunkMin_def kUploadChunkMax_def not_less
        split: if_splits option.splits)
  then have "unat c \<le> 512" "32 \<le> unat c" by (simp_all add: word_le_nat_alt)
  then show ?thesis using c(1) by (simp add: word_less_nat_alt unat_ucast_u32)
qed

lemma planned_session:
  assumes "plan_session env src opts = Inr cfg"
  shows "session_ok (src, cfg)"
proof -
  have size: "0 < src_size src" "src_size src \<le> kMaxImageSize"
    and image: "upload_config.image_size cfg = of_nat (src_size src)"
    and chunk: "0 < chunk_size cfg"
    using assms computed_chunk
    by (auto simp: plan_session_def Let_def kUploadChunkMin_def word_gt_0 not_less split: if_splits sum.splits option.splits)
  then have "unat (upload_config.image_size cfg) = src_size src"
    by (simp add: kMaxImageSize_def unat_of_nat)
  then show ?thesis using size(1) chunk by (simp add: session_ok_def config_ok_def word_gt_0)
      (metis unat_0 less_irrefl)
qed

lemma packet_ok_append: "packet_ok us p \<Longrightarrow> packet_ok (us @ vs) p"
  by (auto simp: packet_ok_def nth_append)

lemma base_new:
  assumes "base {#} w" and "held w = []" and "session_ok (src, cfg)"
  shows "base {#} (w\<lparr>callbacks := Suc (callbacks w), upload_generation := Suc (upload_generation w),
     uploads := uploads w @ [(src, cfg)], upload_of := Some ((new_driver src cfg opts progress (callbacks w)
       (Suc (upload_generation w)))\<lparr>drv_active := True, drv_starting := True\<rparr>)\<rparr>)"
  using assms
  by (auto simp: base_def accounted_def held_def driver_ok_def new_driver_def list_all_iff packet_ok_append
      nth_append split: option.splits)

lemma good_upload:
  assumes "good w"
  shows "good (fst (group_upload hs env src opts progress w))"
proof (cases "case upload_of w of None \<Rightarrow> False | Some d \<Rightarrow> drv_active d")
  case True
  then show ?thesis using assms base_reject [of "{#}" w]
    by (auto simp: group_upload_def Let_def good_def ready_def reject_with_def)
next
  case idle: False
  show ?thesis
  proof (cases "plan_session env src opts")
    case (Inl e)
    then show ?thesis using assms idle base_reject [of "{#}" w]
      by (auto simp: group_upload_def Let_def good_def ready_def reject_with_def)
  next
    case (Inr cfg)
    note ok = planned_session [OF Inr]
    have "held w = []"
      using assms idle by (auto simp: good_def base_def driver_ok_def held_def split: option.splits)
    note b = base_new [OF _ this ok, of opts progress]
    let ?w = "w\<lparr>callbacks := Suc (callbacks w), upload_generation := Suc (upload_generation w),
      uploads := uploads w @ [(src, cfg)], upload_of := Some ((new_driver src cfg opts progress (callbacks w)
       (Suc (upload_generation w)))\<lparr>drv_active := True, drv_starting := True\<rparr>)\<rparr>"
    have "starting_ok cfg (driver_advance hs env (plan_next UploadState cfg) ?w)"
      using send_starting [OF b, of _ "plan_next UploadState cfg" hs env] plan_stepped [of cfg] ok assms
      by (simp add: good_def new_driver_def session_ok_def)
    then show ?thesis
      using starting_over idle Inr
      by (simp add: group_upload_def driver_start_def on_driver_def Let_def new_driver_def)
  qed
qed

lemma good_resume:
  assumes "good w"
  shows "good (fst (group_resume hs env h w))"
proof (cases "resumable h w")
  case False
  then have "\<not> resumable h (w\<lparr>callbacks := Suc (callbacks w)\<rparr>)" by (simp add: resumable_def)
  then show ?thesis using assms base_reject [of "{#}" w]
    by (auto simp: group_resume_def Let_def good_def ready_def reject_with_def)
next
  case True
  then obtain d where d: "upload_of w = Some d" "phase (drv_state d) = Phase_Suspended"
    by (auto simp: resumable_def split: option.splits)
  have inactive: "\<not> drv_active d" "drv_done d = None" and ok: "session_ok (drv_source d, drv_config d)"
    and inv: "session_inv (drv_config d) ((drv_state d)\<lparr>phase := Phase_Sending\<rparr>)"
    using assms d by (auto simp: good_def ready_def at_rest_def session_inv_def base_def driver_ok_def split: if_splits)
  obtain st s where r: "resume (drv_state d) (drv_config d) = (st, s)" by fastforce
  note step = resume_stepped [OF _ inv d(2) r]
  let ?d = "d\<lparr>drv_done := Some (callbacks w), drv_active := True, drv_starting := True, drv_state := st\<rparr>"
  let ?w = "w\<lparr>callbacks := Suc (callbacks w), upload_of := Some ?d\<rparr>"
  have "base {#} ?w"
    using assms d(1) inactive by (auto simp: good_def base_def accounted_def held_def driver_ok_def)
  then have "starting_ok (drv_config ?d) (driver_advance hs env s ?w)"
    using step ok by (intro send_starting) (simp_all add: session_ok_def)
  moreover have "resumable h (w\<lparr>callbacks := Suc (callbacks w)\<rparr>)" using True by (simp add: resumable_def)
  ultimately show ?thesis
    using starting_over d(1) r by (simp add: group_resume_def driver_restart_def on_driver_def Let_def)
qed

lemma base_cancel: "base X w \<Longrightarrow> base X (client_cancel h w)" "upload_of (client_cancel h w) = upload_of w"
  by (auto simp: client_cancel_def base_def accounted_def held_def driver_ok_def split: option.split)

lemma good_cancel: "good w \<Longrightarrow> good (group_cancel h w)"
proof (cases "upload_of w")
  case (Some d)
  assume "good w"
  then have "base {#} (client_cancel (drv_request d) w)" "ready w" by (simp_all add: good_def base_cancel)
  then have "good ((client_cancel (drv_request d) w)\<lparr>upload_of := Some (d\<lparr>drv_request := 0\<rparr>)\<rparr>)"
    using Some base_driver [of "{#}" "client_cancel (drv_request d) w" d "d\<lparr>drv_request := 0\<rparr>"]
    by (simp add: base_cancel good_def ready_def)
  then show ?thesis using \<open>good w\<close> Some
    by (simp add: group_cancel_def driver_cancel_def on_driver_def base_cancel)
qed (simp add: group_cancel_def)

lemma good_step: "good w \<Longrightarrow> good (group_step env c w)"
  by (cases c) (simp_all add: good_upload good_resume good_cancel)

lemma good_fold: "good w \<Longrightarrow> good (fold (group_step env) cs w)"
  by (induction cs arbitrary: w) (simp_all add: good_step)

section \<open>What the client calls\<close>

lemma told_good:
  assumes "base {#cb#} w" and "ready w"
  shows "good (tell_done (on_poll env) cb r w)"
proof -
  have "good (w\<lparr>done_log := done_log w @ [(cb, r)]\<rparr>)"
    using assms by (auto simp: good_def ready_def base_def accounted_def held_def driver_ok_def split: option.splits)
  then show ?thesis by (simp add: on_poll_def good_fold)
qed

lemma finish_poll:
  assumes "base {#} w" and "upload_of w = Some d" and "drv_active d" and "\<not> drv_starting d"
    and "at_rest (drv_config d) (drv_state d) False"
  shows "good (driver_finish (on_poll env) r w)"
proof -
  obtain cb where cb: "drv_done d = Some cb" using assms(1-3) by (auto simp: base_def driver_ok_def)
  let ?w = "w\<lparr>upload_of := Some (d\<lparr>drv_active := False, drv_done := None\<rparr>)\<rparr>"
  have "base {#cb#} ?w" "ready ?w"
    using assms cb by (auto simp: base_def accounted_def held_def driver_ok_def ready_def)
  then show ?thesis using told_good assms(2-4) cb by (simp add: driver_finish_def on_driver_def)
qed

text \<open>While the driver works, calls of the application touch nothing but its request handle.\<close>

lemma same_request [simp]: "\<exists>h. d = d\<lparr>drv_request := h\<rparr>"
  by (rule exI [of _ "drv_request d"]) simp

lemma busy_step:
  assumes "base {#} w" and "upload_of w = Some d" and "drv_active d" and "phase (drv_state d) \<noteq> Phase_Suspended"
  shows "base {#} (group_step env c w) \<and> (\<exists>h. upload_of (group_step env c w) = Some (d\<lparr>drv_request := h\<rparr>))"
proof (cases c)
  case (Call_Upload src opts progress)
  then show ?thesis
    using assms(1-3) base_reject [of "{#}" w] by (auto simp: group_upload_def Let_def reject_with_def)
next
  case (Call_Resume h)
  then show ?thesis
    using assms base_reject [of "{#}" w] by (auto simp: group_resume_def resumable_def Let_def reject_with_def)
next
  case (Call_Cancel h)
  have "base {#} ((client_cancel (drv_request d) w)\<lparr>upload_of := Some (d\<lparr>drv_request := 0\<rparr>)\<rparr>)"
    using assms(1,2) by (intro base_driver [of _ _ d]) (simp_all add: base_cancel)
  then show ?thesis
    using Call_Cancel assms(1-3) by (auto simp: group_cancel_def driver_cancel_def on_driver_def base_cancel)
qed

lemma busy_fold:
  assumes "base {#} w" and "upload_of w = Some d" and "drv_active d" and "phase (drv_state d) \<noteq> Phase_Suspended"
  shows "base {#} (fold (group_step env) cs w) \<and> (\<exists>h. upload_of (fold (group_step env) cs w) = Some (d\<lparr>drv_request := h\<rparr>))"
  using assms
proof (induction cs arbitrary: w d)
  case Nil
  then show ?case by simp
next
  case (Cons c cs)
  from busy_step [OF Cons.prems, of env c] obtain h where
    "base {#} (group_step env c w)" "upload_of (group_step env c w) = Some (d\<lparr>drv_request := h\<rparr>)" by blast
  then show ?case using Cons.IH [of "group_step env c w" "d\<lparr>drv_request := h\<rparr>"] Cons.prems by simp
qed

lemma progress_poll:
  assumes "base {#} w" and "upload_of w = Some d" and "drv_active d" and "phase (drv_state d) \<noteq> Phase_Suspended"
  shows "base {#} (driver_progress (on_poll env) w) \<and>
    (\<exists>h x. upload_of (driver_progress (on_poll env) w) = Some (d\<lparr>reported_off := x, drv_request := h\<rparr>))"
proof (cases "drv_progress d \<and> confirmed_off (drv_state d) \<noteq> reported_off d")
  case True
  let ?d = "d\<lparr>reported_off := confirmed_off (drv_state d)\<rparr>"
  have b: "base {#} (w\<lparr>upload_of := Some ?d, progress_log := l\<rparr>)" for l
    using assms(1,2) by (auto simp: base_def accounted_def held_def driver_ok_def)
  show ?thesis
    using busy_fold [OF b, where d = ?d and env = env] True assms(2-4)
    by (simp add: driver_progress_def on_driver_def on_poll_def) metis
next
  case False
  have "d = d\<lparr>reported_off := reported_off d, drv_request := drv_request d\<rparr>" by simp
  moreover have "driver_progress (on_poll env) w = w" using False assms(2) by (auto simp: driver_progress_def)
  ultimately show ?thesis using assms(1,2) by metis
qed

lemma send_poll:
  assumes "base {#} w" and "upload_of w = Some d" and "drv_active d" and "\<not> drv_starting d"
    and "stepped (drv_config d) (drv_state d) s" and "action s = SendChunk"
  shows "good (driver_send (on_poll env) env (request s) w)"
proof -
  let ?r = "request s" and ?d = "d\<lparr>drv_state := record_sent (drv_state d) (request s)\<rparr>"
  have s: "request_ok (drv_config d) ?r" "session_inv (drv_config d) (record_sent (drv_state d) ?r)"
    "phase (drv_state d) \<noteq> Phase_Suspended"
    using assms(5,6) by (simp_all add: stepped_def)
  have stop: "good (driver_finish (on_poll env) r w)" for r
    using finish_poll [OF assms(1-4)] s(3) by (simp add: at_rest_def)
  let ?w = "w\<lparr>upload_of := Some ?d\<rparr>"
  have b: "base {#} ?w" using assms(1,2) by (rule base_driver) simp_all
  have sent: "good (client_request env d ?r (request_fields (drv_config d) ?r data) payload t ?w)"
    if "src_read (drv_source d) (unat (off ?r)) (unat (len ?r)) = Inr data" "length data = unat (len ?r)" for data payload t
  proof -
    have "client_request env d ?r fs payload t ?w = client_request env ?d ?r fs payload t ?w" for fs
      by (simp add: client_request_def Let_def cong: option.case_cong)
    then show ?thesis
      using base_request [OF b, of ?d ?r data env payload t] that s assms(3,4)
      by (auto simp: good_def ready_def at_rest_def)
  qed
  then show ?thesis
    using stop assms(2) by (auto simp: driver_send_def on_driver_some Let_def split: sum.split option.split)
qed

lemma advance_poll:
  assumes "base {#} w" and "upload_of w = Some d" and "drv_active d" and "\<not> drv_starting d"
    and "stepped (drv_config d) (drv_state d) s"
  shows "good (driver_advance (on_poll env) env s w)"
proof (cases "action s")
  case SendChunk
  then show ?thesis using send_poll [OF assms] by (simp add: driver_advance_def)
next
  case Complete
  then have "phase (drv_state d) \<noteq> Phase_Suspended" using assms(5) by (simp add: stepped_def)
  from progress_poll [OF assms(1-3) this, of env] obtain h x where
    w: "base {#} (driver_progress (on_poll env) w)"
      "upload_of (driver_progress (on_poll env) w) = Some (d\<lparr>reported_off := x, drv_request := h\<rparr>)" by blast
  then show ?thesis
    using finish_poll [OF w] assms(3,4) Complete \<open>phase (drv_state d) \<noteq> Phase_Suspended\<close>
    by (simp add: driver_advance_def Let_def at_rest_def)
next
  case Fail
  then show ?thesis using finish_poll [OF assms(1-4), of env] assms(5)
    by (simp add: driver_advance_def stepped_def at_rest_def)
next
  case Suspend
  then show ?thesis using finish_poll [OF assms(1-4), of env] assms(5)
    by (simp add: driver_advance_def stepped_def at_rest_def)
qed

lemma handle_good:
  assumes "good w"
  shows "good (driver_handle (on_poll env) env r w)"
proof (cases "\<exists>d. upload_of w = Some d \<and> drv_active d")
  case True
  then obtain d where d: "upload_of w = Some d" "drv_active d" by blast
  obtain st s where r: "on_response (drv_state d) (decode_answer env r) (drv_config d) = (st, s)" by fastforce
  have ok: "base {#} w" "\<not> drv_starting d" "session_inv (drv_config d) (drv_state d)" "config_ok (drv_config d)"
    using assms d by (auto simp: good_def ready_def at_rest_def base_def driver_ok_def session_ok_def)
  note step = response_stepped [OF ok(4,3) r]
  let ?d = "d\<lparr>drv_request := 0, drv_state := st\<rparr>" and ?w = "w\<lparr>upload_of := Some (d\<lparr>drv_request := 0, drv_state := st\<rparr>)\<rparr>"
  have b: "base {#} ?w" using ok(1) d(1) by (rule base_driver) simp_all
  have eq: "driver_handle (on_poll env) env r w =
      driver_advance (on_poll env) env s (if action s = SendChunk then driver_progress (on_poll env) ?w else ?w)"
    using d r by (simp add: driver_handle_def on_driver_def Let_def)
  show ?thesis
  proof (cases "action s = SendChunk")
    case True
    then have "phase st \<noteq> Phase_Suspended" using step by (simp add: stepped_def)
    then obtain h x where
      w: "base {#} (driver_progress (on_poll env) ?w)"
        "upload_of (driver_progress (on_poll env) ?w) = Some (?d\<lparr>reported_off := x, drv_request := h\<rparr>)"
      using progress_poll [OF b, of ?d env] d(2) by auto
    then show ?thesis
      unfolding eq using advance_poll [OF w, of s env] True step d(2) ok(2) by simp
  next
    case False
    then show ?thesis unfolding eq using advance_poll [OF b, of ?d s env] step d(2) ok(2) by simp
  qed
next
  case False
  then show ?thesis using assms by (auto simp: driver_handle_def split: option.split)
qed

lemma good_outstanding: "good w \<Longrightarrow> good (w\<lparr>outstanding := l\<rparr>)"
  by (auto simp: good_def base_def ready_def accounted_def held_def driver_ok_def split: option.splits)

lemma good_answered: "good w \<Longrightarrow> good (answered env h r w)"
  by (auto simp: answered_def Let_def good_outstanding handle_good split: option.split)

lemma pop_base:
  assumes "good w" and "deferred w = x # xs"
  shows "base (mset (waiting x)) (w\<lparr>deferred := xs\<rparr>)" "ready (w\<lparr>deferred := xs\<rparr>)" "only_failures x"
  using assms
  by (auto simp: good_def base_def ready_def accounted_def held_def driver_ok_def add_ac split: option.splits)

lemma good_deferred:
  assumes "good w"
  shows "good (run_deferred env w)"
proof (cases "deferred w")
  case (Cons x xs)
  note p = pop_base [OF assms Cons]
  show ?thesis
  proof (cases x)
    case (Completion g e)
    then have "good (w\<lparr>deferred := xs\<rparr>)" using p by (simp add: good_def)
    then show ?thesis using Cons Completion handle_good by (simp add: run_deferred_def Let_def)
  next
    case (Report_Result g cb r)
    have "good (w\<lparr>deferred := xs, dropped := dropped w @ [cb]\<rparr>)"
      using p(1,2) Report_Result
      by (auto simp: good_def base_def ready_def accounted_def held_def driver_ok_def split: option.splits)
    then show ?thesis using Cons Report_Result told_good [of cb "w\<lparr>deferred := xs\<rparr>" env r] p
      by (simp add: run_deferred_def Let_def)
  next
    case (Rejection cb e)
    then show ?thesis using Cons told_good [of cb "w\<lparr>deferred := xs\<rparr>" env "Inl e"] p by (simp add: run_deferred_def)
  qed
qed (use assms in \<open>simp add: run_deferred_def\<close>)

lemma good_destroy:
  assumes "good w"
  shows "good (group_destroy (on_poll env) w)"
proof -
  have "good (driver_abandon (on_poll env) w)"
  proof (cases "\<exists>d. upload_of w = Some d \<and> drv_active d")
    case True
    then obtain d where d: "upload_of w = Some d" "drv_active d" by blast
    let ?w = "(client_cancel (drv_request d) w)\<lparr>upload_of := Some (d\<lparr>drv_request := 0\<rparr>)\<rparr>"
    have "base {#} ?w"
      using assms d(1) by (intro base_driver [of _ _ d]) (simp_all add: good_def base_cancel)
    moreover have "\<not> drv_starting d" "phase (drv_state d) \<noteq> Phase_Suspended"
      using assms d by (auto simp: good_def ready_def at_rest_def session_inv_def)
    ultimately have "good (driver_finish (on_poll env) r ?w)" for r
      using d(2) by (intro finish_poll [of _ "d\<lparr>drv_request := 0\<rparr>"]) (simp_all add: at_rest_def)
    then show ?thesis using d by (simp add: driver_abandon_def on_driver_def base_cancel)
  qed (use assms in \<open>auto simp: driver_abandon_def split: option.split\<close>)
  then show ?thesis
    by (auto simp: group_destroy_def Let_def good_def base_def ready_def accounted_def held_def split: option.splits)
qed

lemma good_deliver: "good w \<Longrightarrow> good (group_deliver env i w)"
  by (cases i) (simp_all add: good_step good_answered good_deferred good_destroy)

lemma good_run: "good (group_run env ins)"
proof -
  have "good ImageManagement"
    by (simp add: good_def base_def ready_def ImageManagement_def accounted_def held_def)
  moreover have "good w \<Longrightarrow> good (fold (group_deliver env) is w)" for w "is"
    by (induction "is" arbitrary: w) (simp_all add: good_deliver)
  ultimately show ?thesis by (simp add: group_run_def)
qed

section \<open>What a server receives\<close>

text \<open>
  The offset rule of the protocol, on the server's side: a first packet begins the image again,
  unless the server holds the same image already and keeps what it has; another packet is appended
  if it starts where the server stands, and ignored otherwise.
\<close>

definition data_of :: "sent_packet \<Rightarrow> bytes" where
  "data_of p = (case last (pk_fields p) of Field_Bytes k data \<Rightarrow> data | _ \<Rightarrow> [])"

definition receive :: "bool \<times> sent_packet \<Rightarrow> bytes \<Rightarrow> bytes" where
  "receive x stored =
     (case x of (keep, p) \<Rightarrow>
        if first_packet (pk_request p) then if keep then stored else data_of p
        else if unat (off (pk_request p)) = length stored then stored @ data_of p
        else stored)"

lemma packet_data:
  assumes "packet_ok us p" and "us ! (pk_generation p - 1) = (src, cfg)" and "image_contract src contents"
    and "unat (upload_config.image_size cfg) = src_size src"
  shows "data_of p = subspan (unat (off (pk_request p))) (unat (len (pk_request p))) contents"
    and "unat (off (pk_request p)) + unat (len (pk_request p)) \<le> length contents"
    and "first_packet (pk_request p) \<longleftrightarrow> off (pk_request p) = 0"
proof -
  let ?o = "unat (off (pk_request p))" and ?n = "unat (len (pk_request p))"
  obtain data where ok: "request_ok cfg (pk_request p)" "src_read src ?o ?n = Inr data"
    "pk_fields p = request_fields cfg (pk_request p) data"
    using assms(1,2) by (auto simp: packet_ok_def)
  show le: "?o + ?n \<le> length contents"
    using ok(1) assms(4) image_contract.size_contents [OF assms(3)] by (simp add: request_ok_def)
  have "0 < ?n" using ok(1) by (simp add: request_ok_def word_less_nat_alt)
  then have "data = subspan ?o ?n contents" using image_contract.read_inside [OF assms(3) _ le] ok(2) by simp
  then show "data_of p = subspan ?o ?n contents" using ok(3) by (simp add: data_of_def request_fields_def)
  show "first_packet (pk_request p) \<longleftrightarrow> off (pk_request p) = 0" using ok(1) by (simp add: request_ok_def)
qed

lemma receive_prefix:
  assumes "packet_ok us p" and "us ! (pk_generation p - 1) = (src, cfg)" and "image_contract src contents"
    and "unat (upload_config.image_size cfg) = src_size src" and "prefix stored contents"
  shows "prefix (receive (keep, p) stored) contents"
proof -
  note d = packet_data [OF assms(1-4)]
  have "stored @ subspan (length stored) n contents = take (length stored + n) contents" for n
    using assms(5) by (auto simp: subspan_def prefix_def)
  then show ?thesis
    using d assms(5) by (auto simp: receive_def subspan_def take_is_prefix)
qed

section \<open>What is told as success\<close>

text \<open>Inside a call nothing is told, and an upload once begun is remembered.\<close>

definition untold :: "image_group \<Rightarrow> image_group \<Rightarrow> bool" where
  "untold w w' \<longleftrightarrow> done_log w' = done_log w \<and> set (uploads w) \<subseteq> set (uploads w')"

lemma untold_refl [simp]: "untold w w"
  by (simp add: untold_def)

lemma untold_trans: "untold a b \<Longrightarrow> untold b c \<Longrightarrow> untold a c"
  by (auto simp: untold_def)

lemma untold_driver [simp]: "untold w (on_driver f w') = untold w w'"
  by (simp add: untold_def on_driver_def)

lemma untold_client [simp]:
  "untold w (client_request env d r fs payload t w') = untold w w'" "untold w (client_cancel h w') = untold w w'"
  by (simp_all add: untold_def client_request_def client_cancel_def Let_def on_driver_def split: option.split)

lemma untold_finish [simp]: "untold w (driver_finish inside_call r w') = untold w w'"
  by (simp add: untold_def driver_finish_def inside_call_def on_driver_def Let_def split: option.split)

lemma untold_progress [simp]: "untold w (driver_progress inside_call w') = untold w w'"
  by (simp add: untold_def driver_progress_def inside_call_def on_driver_def split: option.split)

lemma untold_advance [simp]: "untold w (driver_advance inside_call env s w') = untold w w'"
  by (simp add: driver_advance_def driver_send_def Let_def split: action.split option.split sum.split)

lemma untold_step: "untold w (group_step env c w)"
proof (cases c)
  case (Call_Upload src opts progress)
  have "untold w (driver_start inside_call env (w\<lparr>callbacks := a, upload_generation := g, uploads := uploads w @ us, upload_of := u\<rparr>))"
    for a g us u
    by (simp add: driver_start_def split: option.split) (simp add: untold_def)
  then show ?thesis using Call_Upload
    by (simp add: group_upload_def Let_def reject_with_def split: sum.split) (simp add: untold_def)
next
  case (Call_Resume h)
  have "untold w (driver_restart inside_call env cb (w\<lparr>callbacks := a\<rparr>))" for cb a
    by (simp add: driver_restart_def split: option.split prod.split) (simp add: untold_def)
  then show ?thesis using Call_Resume
    by (simp add: group_resume_def Let_def reject_with_def) (simp add: untold_def)
next
  case (Call_Cancel h)
  then show ?thesis by (simp add: group_cancel_def driver_cancel_def split: option.split)
qed

lemma untold_fold: "untold w (fold (group_step env) cs w)"
  by (induction cs arbitrary: w) (auto intro: untold_trans untold_step)

text \<open>From one state to the next, nothing was told or one result was.\<close>

definition tells :: "image_group \<Rightarrow> image_group \<Rightarrow> upload_outcome result set \<Rightarrow> bool" where
  "tells w w' R \<longleftrightarrow> set (uploads w) \<subseteq> set (uploads w') \<and>
     (\<forall>x\<in>set (done_log w'). x \<in> set (done_log w) \<or> snd x \<in> R)"

lemma untold_tells: "untold w w' \<Longrightarrow> tells w w' R"
  by (simp add: untold_def tells_def)

lemma tells_trans: "tells a b R \<Longrightarrow> tells b c R \<Longrightarrow> tells a c R"
  unfolding tells_def by blast

lemma tells_done: "tells w (tell_done (on_poll env) cb r w) {r}"
  using untold_fold [of "w\<lparr>done_log := done_log w @ [(cb, r)]\<rparr>" env "done_calls env (length (done_log w))"]
  by (auto simp: on_poll_def tells_def untold_def)

lemma tells_finish: "tells w (driver_finish (on_poll env) r w) {r}"
proof -
  have "tells w (tell_done (on_poll env) cb r (on_driver f w)) {r}" for cb f
    using tells_done [of "on_driver f w" env cb r] by (simp add: tells_def on_driver_def)
  then show ?thesis
    by (auto simp: driver_finish_def Let_def split: option.split) (simp_all add: tells_def on_driver_def)
qed

lemma untold_poll_progress: "untold w (driver_progress (on_poll env) w)"
proof -
  have "untold w (tell_progress (on_poll env) p (on_driver f w))" for p f
    using untold_fold [of "(on_driver f w)\<lparr>progress_log := l\<rparr>" env "progress_calls env n" for l n]
    by (simp add: on_poll_def untold_def on_driver_def)
  then show ?thesis by (simp add: driver_progress_def split: option.split)
qed

lemma tells_mono: "tells w w' R \<Longrightarrow> R \<subseteq> S \<Longrightarrow> tells w w' S"
  unfolding tells_def by blast

lemma tells_send: "tells w (driver_send (on_poll env) env r w) (range Inl)"
proof -
  have "tells w (driver_finish (on_poll env) (Inl e) w) (range Inl)" for e
    using tells_finish [of w env "Inl e"] by (rule tells_mono) auto
  moreover have "tells w (client_request env d r fs payload t (on_driver f w)) (range Inl)" for d fs payload t f
    by (rule untold_tells) simp
  ultimately show ?thesis
    by (auto simp: driver_send_def Let_def untold_tells split: option.split sum.split)
qed

definition answers_end :: "upload_env \<Rightarrow> u64 \<Rightarrow> bytes result \<Rightarrow> bool" where
  "answers_end env n r \<longleftrightarrow> (\<exists>payload m. r = Inr payload \<and> decode_fields env payload = Inr (Some n, m) \<and> m \<noteq> Some False)"

lemma response_complete:
  assumes "on_response st (decode_answer env r) cfg = (st', s)" and "action s = Complete"
  shows "answers_end env (upload_config.image_size cfg) r" "confirmed_off st' = upload_config.image_size cfg"
  using assms
  by (auto simp: on_response_def decode_answer_def answers_end_def upload_simps send_from_def
      split: option.splits if_splits sum.splits)

definition told_of :: "upload_env \<Rightarrow> image_group \<Rightarrow> bytes result \<Rightarrow> upload_outcome result set" where
  "told_of env w r = range Inl \<union> {Inr out |out. \<exists>u\<in>set (uploads w).
     out_transferred out = upload_config.image_size (snd u) \<and> answers_end env (out_transferred out) r}"

lemma tells_handle:
  assumes "good w"
  shows "tells w (driver_handle (on_poll env) env r w) (told_of env w r)"
proof (cases "\<exists>d. upload_of w = Some d \<and> drv_active d")
  case True
  then obtain d where d: "upload_of w = Some d" "drv_active d" by blast
  obtain st s where r: "on_response (drv_state d) (decode_answer env r) (drv_config d) = (st, s)" by fastforce
  have ok: "base {#} w" "session_inv (drv_config d) (drv_state d)" "config_ok (drv_config d)"
    "(drv_source d, drv_config d) \<in> set (uploads w)"
    using assms d by (auto simp: good_def ready_def at_rest_def base_def driver_ok_def session_ok_def)
      (metis One_nat_def diff_Suc_less gr0_conv_Suc nth_mem)
  let ?d = "d\<lparr>drv_request := 0, drv_state := st\<rparr>" and ?w = "w\<lparr>upload_of := Some (d\<lparr>drv_request := 0, drv_state := st\<rparr>)\<rparr>"
  let ?v = "if action s = SendChunk then driver_progress (on_poll env) ?w else ?w"
  have b: "base {#} ?w" using ok(1) d(1) by (rule base_driver) simp_all
  have eq: "driver_handle (on_poll env) env r w = driver_advance (on_poll env) env s ?v"
    using d r by (simp add: driver_handle_def on_driver_def Let_def)
  have "untold w ?w" by (simp add: untold_def)
  then have v: "untold w ?v" "untold w (driver_progress (on_poll env) ?w)"
    using untold_poll_progress untold_trans by auto
  have inl: "tells w x (told_of env w r)" if "untold w y" "tells y x (range Inl)" for x y
    using tells_trans [OF untold_tells [OF that(1), of "range Inl"] that(2)] by (rule tells_mono) (auto simp: told_of_def)
  show ?thesis
  proof (cases "action s")
    case SendChunk
    then show ?thesis using inl [OF v(1) tells_send] by (simp add: eq driver_advance_def)
  next
    case Complete
    have "phase st \<noteq> Phase_Suspended"
      using response_stepped [OF ok(3,2) r] Complete by (simp add: stepped_def)
    then obtain h x where u: "upload_of (driver_progress (on_poll env) ?w) = Some (?d\<lparr>reported_off := x, drv_request := h\<rparr>)"
      using progress_poll [OF b, of ?d env] d(2) by auto
    have fin: "tells w (driver_finish (on_poll env) (Inr out) (driver_progress (on_poll env) ?w)) {Inr out}" for out
      using tells_trans [OF untold_tells [OF v(2)] tells_finish] .
    have "tells w (driver_finish (on_poll env) (Inr out) (driver_progress (on_poll env) ?w)) (told_of env w r)"
      if "out_transferred out = upload_config.image_size (drv_config d)" for out
      using that response_complete(1) [OF r Complete] ok(4) by (intro tells_mono [OF fin]) (force simp: told_of_def)
    then show ?thesis
      using response_complete(2) [OF r Complete] Complete u by (simp add: eq driver_advance_def)
  next
    case Fail
    then show ?thesis using inl [OF v(1), of "driver_finish (on_poll env) (Inl (step_error s)) ?v"]
        tells_mono [OF tells_finish [of ?v env "Inl (step_error s)"], of "range Inl"]
      by (simp add: eq driver_advance_def)
  next
    case Suspend
    then show ?thesis using inl [OF v(1), of "driver_finish (on_poll env) (Inl (step_error s)) ?v"]
        tells_mono [OF tells_finish [of ?v env "Inl (step_error s)"], of "range Inl"]
      by (simp add: eq driver_advance_def)
  qed
next
  case False
  then show ?thesis by (auto simp: driver_handle_def untold_tells split: option.split)
qed

text \<open>One input of a history, and the successes it can bring.\<close>

definition reported_by :: "upload_env \<Rightarrow> (image_source \<times> upload_config) list \<Rightarrow> group_input \<Rightarrow> upload_outcome \<Rightarrow> bool" where
  "reported_by env us i out \<longleftrightarrow> (\<exists>u\<in>set us. out_transferred out = upload_config.image_size (snd u)) \<and>
     (\<exists>h r. i = Input_Answer h r \<and> answers_end env (out_transferred out) r)"

lemma reported_by_mono: "reported_by env us i out \<Longrightarrow> set us \<subseteq> set vs \<Longrightarrow> reported_by env vs i out"
  by (auto simp: reported_by_def)

lemma tells_deliver:
  assumes "good w"
  shows "tells w (group_deliver env i w) (range Inl \<union> {Inr out |out. reported_by env (uploads w) i out})"
    (is "tells w _ ?R")
proof (cases i)
  case (Input_Call c)
  then show ?thesis using untold_tells [OF untold_step] by simp
next
  case (Input_Answer h r)
  have "tells w (driver_handle (on_poll env) env r (w\<lparr>outstanding := l\<rparr>)) ?R" for l
    using tells_handle [OF good_outstanding [OF assms], of l env r] Input_Answer
    by (auto simp: tells_def told_of_def reported_by_def)
  then show ?thesis using Input_Answer
    by (auto simp: answered_def Let_def untold_tells untold_def split: option.split)
next
  case Input_Deferred
  show ?thesis
  proof (cases "deferred w")
    case (Cons x xs)
    note p = pop_base [OF assms Cons]
    have h: "tells w (driver_handle (on_poll env) env (Inl e) (w\<lparr>deferred := xs\<rparr>)) ?R" if "x = Completion g e" for g e
      using tells_handle [of "w\<lparr>deferred := xs\<rparr>" env "Inl e"] p that
      by (auto simp: good_def tells_def told_of_def answers_end_def)
    have d: "tells w (tell_done (on_poll env) cb r (w\<lparr>deferred := xs\<rparr>)) ?R" if "isl r" for cb r
      using tells_done [of "w\<lparr>deferred := xs\<rparr>" env cb r] that by (cases r) (auto simp: tells_def)
    have q: "tells w (w\<lparr>deferred := xs\<rparr>) ?R" "tells w (w\<lparr>deferred := xs, dropped := l\<rparr>) ?R" for l
      by (simp_all add: tells_def)
    show ?thesis
    proof (cases x)
      case (Completion g e)
      then show ?thesis using Input_Deferred Cons h q(1) by (simp add: run_deferred_def Let_def)
    next
      case (Report_Result g cb r)
      then show ?thesis using Input_Deferred Cons d [of r cb] q(2) p(3) by (simp add: run_deferred_def Let_def)
    next
      case (Rejection cb e)
      then show ?thesis using Input_Deferred Cons d [of "Inl e" cb] by (simp add: run_deferred_def)
    qed
  qed (use Input_Deferred in \<open>simp add: run_deferred_def untold_tells\<close>)
next
  case Input_Destroy
  have "tells w (driver_finish (on_poll env) (Inl e) (on_driver f (client_cancel h w))) ?R" for e f h
  proof (rule tells_trans)
    show "tells w (on_driver f (client_cancel h w)) ?R" by (rule untold_tells) simp
    show "tells (on_driver f (client_cancel h w)) (driver_finish (on_poll env) (Inl e) (on_driver f (client_cancel h w))) ?R"
      by (rule tells_mono [OF tells_finish]) simp
  qed
  then have "tells w (driver_abandon (on_poll env) w) ?R"
    by (simp add: driver_abandon_def untold_tells split: option.split)
  then show ?thesis using Input_Destroy by (simp add: group_destroy_def Let_def tells_def)
qed

section \<open>Properties\<close>


text \<open>
  C15. Success is what the device reported. Every result told as a success comes from an answer in
  the history that reported the end of an image and did not deny the hash, and the transferred
  size is that of a source given to \<open>upload\<close>.
\<close>

theorem upload_success_reported:
  assumes "(cb, Inr out) \<in> set (done_log (group_run env ins))"
  shows "(\<exists>h payload m. Input_Answer h (Inr payload) \<in> set ins \<and>
      decode_fields env payload = Inr (Some (out_transferred out), m) \<and> m \<noteq> Some False) \<and>
    (\<exists>src cfg. (src, cfg) \<in> set (uploads (group_run env ins)) \<and> src_size src = unat (out_transferred out))"
proof -
  have "\<forall>x\<in>set (done_log (group_run env ins)). isl (snd x) \<or>
      (\<exists>i\<in>set ins. reported_by env (uploads (group_run env ins)) i (projr (snd x)))"
  proof (induction ins rule: rev_induct)
    case (snoc i ins)
    let ?w = "group_run env ins" and ?v = "group_run env (ins @ [i])"
    have v: "?v = group_deliver env i ?w" by (simp add: group_run_def)
    have t: "tells ?w ?v (range Inl \<union> {Inr out |out. reported_by env (uploads ?w) i out})"
      unfolding v by (rule tells_deliver [OF good_run])
    have sub: "set (uploads ?w) \<subseteq> set (uploads ?v)" using t by (simp add: tells_def)
    show ?case
    proof
      fix x
      assume "x \<in> set (done_log ?v)"
      then consider "x \<in> set (done_log ?w)" | "isl (snd x)" | "reported_by env (uploads ?w) i (projr (snd x))"
        using t by (force simp: tells_def)
      then show "isl (snd x) \<or> (\<exists>j\<in>set (ins @ [i]). reported_by env (uploads ?v) j (projr (snd x)))"
      proof cases
        case 1
        then show ?thesis using snoc reported_by_mono [OF _ sub] by (metis Un_iff set_append)
      next
        case 3
        then show ?thesis using reported_by_mono [OF _ sub] by auto
      qed simp
    qed
  qed (simp add: group_run_def ImageManagement_def)
  then obtain i where "i \<in> set ins" "reported_by env (uploads (group_run env ins)) i out"
    using assms by fastforce
  moreover have "list_all session_ok (uploads (group_run env ins))"
    using good_run [of env ins] by (simp add: good_def base_def)
  ultimately show ?thesis
    by (fastforce simp: reported_by_def answers_end_def list_all_iff session_ok_def)
qed

text \<open>
  C16. Callbacks of uploads. No callback runs inside the call that starts or resumes an upload; none
  is called twice; and once no upload is active and nothing is deferred, each callback given has
  been called, or was dropped with the driver that held its result.
\<close>

theorem upload_callbacks_once:
  assumes "w = group_run env ins"
  shows "\<not> inline_call w \<and> distinct (map fst (done_log w) @ dropped w) \<and>
    set (map fst (done_log w) @ dropped w) \<subseteq> {0..<callbacks w} \<and>
    (deferred w = [] \<and> \<not> uploading (upload_generation w) w \<longrightarrow>
       set (map fst (done_log w) @ dropped w) = {0..<callbacks w})"
proof -
  have g: "base {#} w" using good_run [of env ins] assms by (simp add: good_def)
  let ?told = "map fst (done_log w) @ dropped w" and ?rest = "concat (map waiting (deferred w)) @ held w"
  have all: "mset (?told @ ?rest) = mset [0..<callbacks w]"
    using g by (simp add: base_def accounted_def add_ac)
  then have "distinct (?told @ ?rest)" "set (?told @ ?rest) = {0..<callbacks w}"
    using mset_eq_imp_distinct_iff [OF all] mset_eq_setD [OF all] by simp_all
  moreover have "?rest = []" if "deferred w = []" "\<not> uploading (upload_generation w) w"
    using that g by (auto simp: uploading_def held_def base_def driver_ok_def split: option.splits)
  ultimately show ?thesis using g by (auto simp: base_def)
qed

section \<open>An upload of two packets\<close>

definition demo_contents :: bytes where "demo_contents = replicate 40 7"

definition demo_options :: upload_options where
  "demo_options = \<lparr>up_image = 0, up_upgrade_only = False, up_sha = Some [1, 2], up_chunk_size = 32, up_server_buf_size = None,
     up_max_chunk_retries = 3, up_max_restarts = 3, up_max_no_progress = 3, first_chunk_timeout = 40000,
     final_chunk_timeout = 40000, chunk_timeout = 10000\<rparr>"

definition demo_session :: upload_config where
  "demo_session = \<lparr>upload_config.image_size = 40, chunk_size = 32, image = 0, sha = Some [1, 2], upgrade_only = False,
     max_chunk_retries = 3, max_restarts = 3, max_no_progress = 3\<rparr>"

text \<open>A server that answers with one byte, the offset it stands at.\<close>

definition demo_link :: upload_env where
  "demo_link = \<lparr>encode_fields = (\<lambda>fs n. Some []),
     decode_fields = (\<lambda>bs. Inr (case bs of [] \<Rightarrow> None | b # _ \<Rightarrow> Some (ucast b), None)),
     request_refused = (\<lambda>n. None), probe_size = (\<lambda>fp. None), link_max_message = 256, link_overhead = 0,
     progress_calls = (\<lambda>n. []), done_calls = (\<lambda>n. [])\<rparr>"

definition demo_inputs :: "group_input list" where
  "demo_inputs = [Input_Call (Call_Upload (MemoryImageSource demo_contents) demo_options True),
     Input_Answer 1 (Inr [32]), Input_Answer 2 (Inr [40])]"

lemma demo_planned [simp]:
  "plan_session env (MemoryImageSource demo_contents) demo_options = Inr demo_session"
  by (simp add: plan_session_def demo_options_def demo_session_def MemoryImageSource_def demo_contents_def
      kMaxImageSize_def kUploadChunkMin_def kUploadChunkMax_def)

lemmas driver_defs = driver_start_def driver_advance_def driver_send_def driver_handle_def driver_progress_def
  driver_finish_def on_driver_def client_request_def client_cancel_def new_driver_def chunk_deadline_def decode_answer_def

lemmas group_defs = group_run_def ImageManagement_def group_upload_def answered_def alive_def run_deferred_def
  on_poll_def inside_call_def

lemma demo_reads:
  "src_read (MemoryImageSource demo_contents) 0 32 = Inr (replicate 32 7)"
  "src_read (MemoryImageSource demo_contents) 32 8 = Inr (replicate 8 7)"
  by (simp_all add: MemoryImageSource_def memory_read_def demo_contents_def subspan_def Let_def)

lemma demo_link_simps [simp]:
  "encode_fields demo_link fs n = Some []"
  "decode_fields demo_link bs = Inr (case bs of [] \<Rightarrow> None | b # _ \<Rightarrow> Some (ucast b), None)"
  "request_refused demo_link n = None" "progress_calls demo_link n = []" "done_calls demo_link n = []"
  by (simp_all add: demo_link_def)

lemma demo_options_simps [simp]:
  "first_chunk_timeout demo_options = 40000" "final_chunk_timeout demo_options = 40000" "chunk_timeout demo_options = 10000"
  by (simp_all add: demo_options_def)

lemma demo_session_simps [simp]:
  "upload_config.image_size demo_session = 40" "chunk_size demo_session = 32" "sha demo_session = Some [1, 2]" "image demo_session = 0"
  "upgrade_only demo_session = False" "max_chunk_retries demo_session = 3" "max_restarts demo_session = 3"
  "max_no_progress demo_session = 3"
  by (simp_all add: demo_session_def)

lemma demo_uploaded:
  "packets (group_run demo_link demo_inputs) =
    [\<lparr>pk_generation = 1, pk_request = \<lparr>off = 0, len = 32, first_packet = True\<rparr>,
       pk_fields = [Field_Uint ''image'' 0, Field_Uint ''len'' 40, Field_Uint ''off'' 0,
         Field_Bytes ''sha'' [1, 2], Field_Bytes ''data'' (replicate 32 7)], pk_payload = [], pk_timeout = 40000\<rparr>,
     \<lparr>pk_generation = 1, pk_request = \<lparr>off = 32, len = 8, first_packet = False\<rparr>,
       pk_fields = [Field_Uint ''off'' 32, Field_Bytes ''data'' (replicate 8 7)], pk_payload = [], pk_timeout = 40000\<rparr>]"
  "uploads (group_run demo_link demo_inputs) = [(MemoryImageSource demo_contents, demo_session)]"
  "done_log (group_run demo_link demo_inputs) =
    [(0, Inr \<lparr>out_transferred = 40, out_already_present = False, out_match = None\<rparr>)]"
  "callbacks (group_run demo_link demo_inputs) = 1" "deferred (group_run demo_link demo_inputs) = []"
  "upload_generation (group_run demo_link demo_inputs) = 1" "\<not> uploading 1 (group_run demo_link demo_inputs)"
  by (simp_all add: demo_inputs_def group_defs driver_defs plan_next_def send_from_def upload_simps demo_reads
      request_fields_def UploadState_def uploading_def)

text \<open>The first packet reaches the server twice.\<close>

definition demo_arrivals :: "(bool \<times> sent_packet) list" where
  "demo_arrivals = (let ps = packets (group_run demo_link demo_inputs) in
     [(False, ps ! 0), (False, ps ! 0), (True, ps ! 1)])"

lemma demo_stored: "length (fold receive demo_arrivals []) = 40"
  by (simp add: demo_arrivals_def demo_uploaded receive_def data_of_def)


theorem upload_success_reported_witness:
  "\<exists>h payload m. Input_Answer h (Inr payload) \<in> set demo_inputs \<and>
     decode_fields demo_link payload = Inr (Some 40, m) \<and> m \<noteq> Some False"
  using upload_success_reported
    [of 0 "\<lparr>out_transferred = 40, out_already_present = False, out_match = None\<rparr>" demo_link demo_inputs]
  by (simp add: demo_uploaded(3) del: demo_link_simps)

theorem upload_callbacks_once_witness:
  "set (map fst (done_log (group_run demo_link demo_inputs)) @ dropped (group_run demo_link demo_inputs)) = {0..<1}"
  using upload_callbacks_once [OF refl, of demo_link demo_inputs] by (simp only: demo_uploaded(4-7)) simp

section \<open>Two calls that are lost\<close>

text \<open>
  Cancelling from a report of progress does nothing: \<open>handle\<close> has cleared \<open>request_\<close> before it
  calls \<open>on_progress_\<close>, so \<open>cancel\<close> finds no request to cancel, and the next packet is sent. The
  upload cancelled at its first report runs to its end and is told as a success.
\<close>

theorem cancel_in_progress_lost:
  defines "env \<equiv> demo_link\<lparr>progress_calls := \<lambda>n. [Call_Cancel 1]\<rparr>"
  shows "map snd (progress_log (group_run env demo_inputs)) =
      [\<lparr>prog_transferred = 32, prog_total = 40\<rparr>, \<lparr>prog_transferred = 40, prog_total = 40\<rparr>]"
    and "done_log (group_run env demo_inputs) =
      [(0, Inr \<lparr>out_transferred = 40, out_already_present = False, out_match = None\<rparr>)]"
    and "deferred (group_run env demo_inputs) = []"
  unfolding env_def
  by (simp_all add: demo_inputs_def group_defs driver_defs plan_next_def send_from_def upload_simps demo_reads
      request_fields_def UploadState_def group_cancel_def driver_cancel_def)

text \<open>
  An upload that fails at once, here because its source cannot be read, has its result deferred
  under the driver's life. A second upload before the next \<open>poll\<close> replaces the driver, and the
  first callback is never called.
\<close>

definition broken_source :: image_source where
  "broken_source = (MemoryImageSource demo_contents)\<lparr>src_read := \<lambda>offset n. Inl (Error Internal ''read'')\<rparr>"

theorem failed_start_callback_lost:
  defines "ins \<equiv> [Input_Call (Call_Upload broken_source demo_options True),
    Input_Call (Call_Upload (MemoryImageSource demo_contents) demo_options True), Input_Deferred]"
  shows "dropped (group_run demo_link ins) = [0]" and "done_log (group_run demo_link ins) = []"
    and "callbacks (group_run demo_link ins) = 2" and "deferred (group_run demo_link ins) = []"
proof -
  have *: "plan_session env broken_source demo_options = Inr demo_session"
    "src_read broken_source offset n = Inl (Error Internal ''read'')" for env offset n
    by (simp_all add: broken_source_def plan_session_def demo_options_def demo_session_def MemoryImageSource_def
        demo_contents_def kMaxImageSize_def kUploadChunkMin_def kUploadChunkMax_def)
  show "dropped (group_run demo_link ins) = [0]" "done_log (group_run demo_link ins) = []"
    "callbacks (group_run demo_link ins) = 2" "deferred (group_run demo_link ins) = []"
    unfolding ins_def
    by (simp_all add: * group_defs driver_defs plan_next_def send_from_def upload_simps demo_reads
        request_fields_def UploadState_def)
qed

end
