(* ===== verification/UpdateMachine.thy ===== *)
theory UpdateMachine
  imports ImageValues
begin

text \<open>
  The update decision logic of \<open>src/dfu/update_state_machine.hpp\<close> and
  \<open>src/dfu/update_state_machine.cpp\<close>: \<open>Machine\<close>, events in, steps out. The types it shares
  with the public interface come from \<open>include/smply/dfu/firmware_updater.hpp\<close>,
  \<open>include/smply/groups/image.hpp\<close> and \<open>include/smply/groups/os.hpp\<close>. An enumerator
  \<open>X::Y\<close> is written \<open>State_Y\<close>, \<open>Effect_Y\<close>, \<open>Kind_Y\<close>, \<open>Apply_Y\<close>, \<open>Refusal_Y\<close>,
  \<open>Mcuboot_Y\<close> or \<open>Mode_Y\<close> after its enumeration. A pointer into the slot table is the
  index of the slot together with the slot, so that comparing two pointers compares positions.
\<close>

section \<open>What the device reports\<close>

record image_slot =
  slot_image :: u32
  slot_number :: u32
  slot_version :: string
  slot_hash :: "image_hash option"
  bootable :: bool
  pending :: bool
  confirmed :: bool
  active :: bool
  permanent :: bool

record image_state =
  slots :: "image_slot list"
  split_status :: "u32 option"

type_synonym slot_ptr = "(nat \<times> image_slot) option"

text \<open>The first slot a predicate accepts, with its position (\<open>std::ranges::find_if\<close>).\<close>

fun find_slot :: "(image_slot \<Rightarrow> bool) \<Rightarrow> nat \<Rightarrow> image_slot list \<Rightarrow> slot_ptr" where
  "find_slot P i [] = None"
| "find_slot P i (s # ss) = (if P s then Some (i, s) else find_slot P (Suc i) ss)"

definition active_slot :: "image_state \<Rightarrow> u32 \<Rightarrow> slot_ptr" where
  "active_slot st img = find_slot (\<lambda>s. slot_image s = img \<and> active s) 0 (slots st)"

datatype mcuboot_mode =
    Mcuboot_Unknown | Mcuboot_SingleSlot | Mcuboot_SwapUsingScratch | Mcuboot_UpgradeOnly
  | Mcuboot_SwapUsingMove | Mcuboot_DirectXip | Mcuboot_DirectXipWithRevert | Mcuboot_RamLoad
  | Mcuboot_FirmwareLoader | Mcuboot_SingleSlotRamLoad | Mcuboot_SwapUsingOffset

record bootloader_mode_info =
  bl_mode :: mcuboot_mode
  raw_mode :: u64
  bl_no_downgrade :: bool

text \<open>\<open>image_error\<close>, by its wire number.\<close>

abbreviation image_ImageAlreadyPending :: u16 where "image_ImageAlreadyPending \<equiv> 28"

definition image_error :: "error \<Rightarrow> u16 option" where
  "image_error e =
     (case mgmt e of
        None \<Rightarrow> None
      | Some m \<Rightarrow> if \<not> group_scoped m \<or> mgmt_group m \<noteq> group_Image then None else Some (mgmt_rc m))"

section \<open>The plan and the report\<close>

datatype update_mode = Mode_TestThenConfirm | Mode_ConfirmImmediately | Mode_UploadOnly

datatype update_state =
    State_Idle | State_QueryingParameters | State_QueryingBootloader | State_InspectingImages
  | State_Planning | State_Uploading | State_VerifyingUpload | State_MarkingForTest
  | State_Resetting | State_AwaitingDisconnect | State_AwaitingReconnect | State_VerifyingBooted
  | State_AwaitingDeviceApply | State_AwaitingConfirmation | State_Confirming
  | State_VerifyingConfirmed | State_AwaitingDeviceCommit | State_Completed | State_Failed
  | State_Cancelled

definition is_terminal :: "update_state \<Rightarrow> bool" where
  "is_terminal s \<longleftrightarrow> s = State_Completed \<or> s = State_Failed \<or> s = State_Cancelled"

datatype mode_source = Source_Reported | Source_Supplied | Source_Assumed

datatype refusal =
  Refusal_RevertUnavailable | Refusal_Downgrade | Refusal_UnsupportedMode
| Refusal_MultiImageUnsupported

datatype commit_by = Commit_Client | Commit_Device

text \<open>The fields of \<open>UpdatePlan\<close> the machine reads.\<close>

record update_plan =
  plan_mode :: update_mode
  fallback_mode :: "mcuboot_mode option"
  allow_no_revert :: bool
  check_downgrade :: bool
  skip_if_already_present :: bool
  disconnect_grace :: duration
  apply_timeout :: duration
  apply_poll_interval :: duration

record image_report =
  r_image :: u32
  r_commit :: commit_by
  r_target_hash :: image_hash
  r_bytes_transferred :: u64
  r_upload_skipped :: bool
  r_upload_slot :: "u32 option"
  r_rolled_back :: bool
  r_applied :: bool
  r_committed :: bool

record update_report =
  final_state :: update_state
  bytes_transferred :: u64
  upload_skipped :: bool
  report_target_hash :: "image_hash option"
  final_device_state :: "image_state option"
  cause :: "error option"
  rolled_back :: bool
  upload_slot :: "u32 option"
  revert_pending :: bool
  bootloader_mode :: mcuboot_mode
  mode_source :: mode_source
  refusal :: "refusal option"
  images :: "image_report list"

section \<open>Events, steps and the working state\<close>

datatype effect =
    Effect_None | Effect_Continue | Effect_QueryParameters | Effect_QueryBootloader
  | Effect_ReadState | Effect_StartUpload | Effect_ResumeUpload | Effect_MarkForTest
  | Effect_Reset | Effect_ForceReset | Effect_AwaitDisconnect | Effect_RequestReconnect
  | Effect_AwaitApply | Effect_RequestConfirmation | Effect_Confirm | Effect_Finish

datatype event_kind =
    Kind_Start | Kind_Continue | Kind_ParametersRead | Kind_ParametersUnavailable
  | Kind_BootloaderRead | Kind_StateRead | Kind_UploadFinished | Kind_UploadSuspended
  | Kind_MarkedForTest | Kind_ResetAccepted | Kind_Disconnected | Kind_Reconnected
  | Kind_ReconnectFailed | Kind_Tick | Kind_ConfirmApproved | Kind_Confirmed | Kind_Failed
  | Kind_Cancel

record event =
  kind :: event_kind
  now :: time_point
  ev_buf_size :: u32
  bootloader :: bootloader_mode_info
  ev_state :: "image_state option"
  transferred :: u64
  already_present :: bool
  ev_error :: error

record target_build =
  b_hash :: image_hash
  b_version :: image_version

record target =
  t_image :: u32
  commit :: commit_by
  hash :: image_hash
  version :: image_version
  builds :: "(target_build \<times> target_build) option"

record image_target = target +
  chosen :: nat
  chosen_known :: bool
  in_trial :: bool

record machine_step =
  next_state :: update_state
  effect :: effect
  step_target :: nat
  step_build :: nat
  step_image :: u32
  step_buf_size :: u32
  step_hash :: image_hash

definition mk_step :: "update_state \<Rightarrow> effect \<Rightarrow> machine_step" where
  "mk_step n e = \<lparr>next_state = n, effect = e, step_target = 0, step_build = 0, step_image = 0,
     step_buf_size = 0, step_hash = []\<rparr>"

record machine_context =
  targets :: "image_target list"
  current :: nat
  device :: "image_state option"
  buf_size :: u32
  no_downgrade :: bool
  report :: update_report
  upload_in_progress :: bool
  swap_scheduled :: bool
  mark_retried :: bool
  reset_forced :: bool
  confirm_approved :: bool
  confirm_reread :: bool
  preconditions_checked :: bool
  grace_deadline :: "time_point option"
  apply_poll :: "time_point option"
  apply_deadline :: "time_point option"
  apply_phase :: "update_state option"

text \<open>Assignments to fields of the report and of the report and record of one image.\<close>

definition set_report :: "(update_report \<Rightarrow> update_report) \<Rightarrow> machine_context \<Rightarrow> machine_context" where
  "set_report f c = c\<lparr>report := f (report c)\<rparr>"

definition set_image :: "nat \<Rightarrow> (image_report \<Rightarrow> image_report) \<Rightarrow> machine_context \<Rightarrow> machine_context" where
  "set_image i f = set_report (\<lambda>r. r\<lparr>images := (images r)[i := f (images r ! i)]\<rparr>)"

definition set_target :: "nat \<Rightarrow> (image_target \<Rightarrow> image_target) \<Rightarrow> machine_context \<Rightarrow> machine_context" where
  "set_target i f c = c\<lparr>targets := (targets c)[i := f (targets c ! i)]\<rparr>"

section \<open>Decisions\<close>

definition fail_update :: "machine_context \<Rightarrow> error \<Rightarrow> machine_context \<times> machine_step" where
  "fail_update c e =
     (set_report (\<lambda>r. r\<lparr>revert_pending := swap_scheduled c, cause := Some e\<rparr>) c,
      mk_step State_Failed Effect_Finish)"

definition record_mode :: "mcuboot_mode \<Rightarrow> update_plan \<Rightarrow> update_report \<Rightarrow> update_report" where
  "record_mode reported plan r =
     (if reported \<noteq> Mcuboot_Unknown then
        r\<lparr>bootloader_mode := reported, mode_source := Source_Reported\<rparr>
      else case fallback_mode plan of
        Some m \<Rightarrow>
          if m \<noteq> Mcuboot_Unknown then r\<lparr>bootloader_mode := m, mode_source := Source_Supplied\<rparr>
          else r\<lparr>bootloader_mode := Mcuboot_Unknown, mode_source := Source_Assumed\<rparr>
      | None \<Rightarrow> r\<lparr>bootloader_mode := Mcuboot_Unknown, mode_source := Source_Assumed\<rparr>)"

definition mode_refusal :: "update_plan \<Rightarrow> machine_context \<Rightarrow> refusal option" where
  "mode_refusal plan c =
     (let accepts_no_revert = plan_mode plan = Mode_UploadOnly \<or> allow_no_revert plan
      in case bootloader_mode (report c) of
        Mcuboot_SingleSlot \<Rightarrow> Some Refusal_UnsupportedMode
      | Mcuboot_FirmwareLoader \<Rightarrow> Some Refusal_UnsupportedMode
      | Mcuboot_RamLoad \<Rightarrow> Some Refusal_UnsupportedMode
      | Mcuboot_SingleSlotRamLoad \<Rightarrow> Some Refusal_UnsupportedMode
      | Mcuboot_UpgradeOnly \<Rightarrow>
          if accepts_no_revert then None else Some Refusal_RevertUnavailable
      | Mcuboot_DirectXip \<Rightarrow>
          if length (targets c) > 1 then Some Refusal_MultiImageUnsupported
          else if accepts_no_revert then None else Some Refusal_RevertUnavailable
      | Mcuboot_DirectXipWithRevert \<Rightarrow>
          if length (targets c) > 1 then Some Refusal_MultiImageUnsupported else None
      | Mcuboot_Unknown \<Rightarrow> None
      | Mcuboot_SwapUsingScratch \<Rightarrow> None
      | Mcuboot_SwapUsingMove \<Rightarrow> None
      | Mcuboot_SwapUsingOffset \<Rightarrow> None)"

definition without_set_state :: "machine_context \<Rightarrow> bool" where
  "without_set_state c \<longleftrightarrow> bootloader_mode (report c) = Mcuboot_DirectXip"

definition older :: "image_version \<Rightarrow> image_version \<Rightarrow> bool" where
  "older img running \<longleftrightarrow>
     (if major img \<noteq> major running then major img < major running
      else if minor img \<noteq> minor running then minor img < minor running
      else revision img < revision running)"

definition refusal_text :: "refusal \<Rightarrow> string" where
  "refusal_text r =
     (case r of
        Refusal_RevertUnavailable \<Rightarrow> ''dfu: the bootloader cannot revert this update''
      | Refusal_Downgrade \<Rightarrow> ''dfu: the device refuses an image older than the one it runs''
      | Refusal_UnsupportedMode \<Rightarrow> ''dfu: no update path for this bootloader mode''
      | Refusal_MultiImageUnsupported \<Rightarrow> ''dfu: this bootloader mode updates one image only'')"

definition active_of :: "machine_context \<Rightarrow> u32 \<Rightarrow> slot_ptr" where
  "active_of c img = (case device c of None \<Rightarrow> None | Some st \<Rightarrow> active_slot st img)"

definition anything_pending :: "machine_context \<Rightarrow> u32 \<Rightarrow> bool" where
  "anything_pending c img =
     (case device c of
        None \<Rightarrow> False
      | Some st \<Rightarrow> list_ex (\<lambda>s. slot_image s = img \<and> pending s) (slots st))"

definition holds :: "slot_ptr \<Rightarrow> 'a target_scheme \<Rightarrow> bool" where
  "holds p t \<longleftrightarrow>
     (case p of None \<Rightarrow> False | Some (i, s) \<Rightarrow> hash t \<noteq> [] \<and> slot_hash s = Some (hash t))"

definition slot_holding :: "machine_context \<Rightarrow> 'a target_scheme \<Rightarrow> slot_ptr" where
  "slot_holding c t =
     (case device c of
        None \<Rightarrow> None
      | Some st \<Rightarrow> find_slot (\<lambda>s. slot_image s = t_image t \<and> holds (Some (0, s)) t) 0 (slots st))"

definition upload_only :: "update_plan \<Rightarrow> bool" where
  "upload_only plan \<longleftrightarrow> plan_mode plan = Mode_UploadOnly"

definition slot_confirmed :: "slot_ptr \<Rightarrow> bool" where
  "slot_confirmed p = (case p of None \<Rightarrow> False | Some (i, s) \<Rightarrow> confirmed s)"

definition running_on_trial :: "machine_context \<Rightarrow> 'a target_scheme \<Rightarrow> bool" where
  "running_on_trial c t \<longleftrightarrow>
     commit t = Commit_Client \<and> holds (active_of c (t_image t)) t \<and>
     \<not> slot_confirmed (active_of c (t_image t))"

fun next_in_trial_from :: "image_target list \<Rightarrow> nat \<Rightarrow> nat" where
  "next_in_trial_from [] i = i"
| "next_in_trial_from (t # ts) i = (if in_trial t then i else next_in_trial_from ts (Suc i))"

definition next_in_trial :: "machine_context \<Rightarrow> nat \<Rightarrow> nat" where
  "next_in_trial c from =
     (if from < length (targets c) then next_in_trial_from (drop from (targets c)) from
      else length (targets c))"

definition confirmation_fork :: "update_plan \<Rightarrow> machine_context \<Rightarrow> machine_context \<times> machine_step" where
  "confirmation_fork plan c =
     (let c' = c\<lparr>current := next_in_trial c 0\<rparr>
      in if plan_mode plan = Mode_ConfirmImmediately \<or> confirm_approved c'
         then (c', mk_step State_Confirming Effect_Confirm)
         else (c', mk_step State_AwaitingConfirmation Effect_RequestConfirmation))"

datatype apply_status = Apply_Applying | Apply_OnTrial | Apply_Committed | Apply_Failed

definition apply_of :: "machine_context \<Rightarrow> 'a target_scheme \<Rightarrow> apply_status" where
  "apply_of c t =
     (if holds (active_of c (t_image t)) t then
        if slot_confirmed (active_of c (t_image t)) then Apply_Committed else Apply_OnTrial
      else case slot_holding c t of
        Some (i, s) \<Rightarrow> if pending s then Apply_Applying else Apply_Failed
      | None \<Rightarrow> Apply_Failed)"

text \<open>The loop of \<open>await_commit\<close> over the targets still ahead; \<open>Inl\<close> is an early return.\<close>

fun commit_loop :: "nat list \<Rightarrow> bool \<Rightarrow> machine_context \<Rightarrow>
    (machine_context \<times> machine_step) + (machine_context \<times> bool)" where
  "commit_loop [] committing c = Inr (c, committing)"
| "commit_loop (i # is) committing c =
     (if commit (targets c ! i) \<noteq> Commit_Device then commit_loop is committing c
      else case apply_of c (targets c ! i) of
        Apply_Committed \<Rightarrow>
          commit_loop is committing (set_image i (\<lambda>r. r\<lparr>r_applied := True, r_committed := True\<rparr>) c)
      | Apply_OnTrial \<Rightarrow> commit_loop is True (set_image i (\<lambda>r. r\<lparr>r_applied := True\<rparr>) c)
      | _ \<Rightarrow> Inl (fail_update (set_image i (\<lambda>r. r\<lparr>r_applied := False\<rparr>) c)
                 (Error UpdateFailed ''dfu: device did not commit an image'')))"

definition await_commit :: "machine_context \<Rightarrow> machine_context \<times> machine_step" where
  "await_commit c =
     (case commit_loop [0..<length (targets c)] False c of
        Inl early \<Rightarrow> early
      | Inr (c', committing) \<Rightarrow>
          if committing then (c', mk_step State_AwaitingDeviceCommit Effect_AwaitApply)
          else (c', mk_step State_Completed Effect_Finish))"

fun device_loop :: "nat list \<Rightarrow> bool \<Rightarrow> machine_context \<Rightarrow>
    (machine_context \<times> machine_step) + (machine_context \<times> bool)" where
  "device_loop [] applying c = Inr (c, applying)"
| "device_loop (i # is) applying c =
     (if commit (targets c ! i) \<noteq> Commit_Device then device_loop is applying c
      else case apply_of c (targets c ! i) of
        Apply_Committed \<Rightarrow>
          device_loop is applying (set_image i (\<lambda>r. r\<lparr>r_committed := True, r_applied := True\<rparr>) c)
      | Apply_OnTrial \<Rightarrow> device_loop is applying (set_image i (\<lambda>r. r\<lparr>r_applied := True\<rparr>) c)
      | Apply_Applying \<Rightarrow> device_loop is True c
      | Apply_Failed \<Rightarrow>
          Inl (fail_update c (Error UpdateFailed ''dfu: device did not apply an image'')))"

definition await_device :: "update_plan \<Rightarrow> machine_context \<Rightarrow> machine_context \<times> machine_step" where
  "await_device plan c =
     (case device_loop [0..<length (targets c)] False c of
        Inl early \<Rightarrow> early
      | Inr (c', applying) \<Rightarrow>
          if applying then (c', mk_step State_AwaitingDeviceApply Effect_AwaitApply)
          else if \<not> swap_scheduled c' then await_commit c'
          else confirmation_fork plan c')"

definition wait_read_failed ::
    "update_state \<Rightarrow> error \<Rightarrow> machine_context \<Rightarrow> machine_context \<times> machine_step" where
  "wait_read_failed st e c =
     (if code e = Disconnected then (c, mk_step State_AwaitingReconnect Effect_RequestReconnect)
      else if code e = Timeout then (c, mk_step st Effect_AwaitApply)
      else fail_update c e)"

definition confirm_failed :: "error \<Rightarrow> machine_context \<Rightarrow> machine_context \<times> machine_step" where
  "confirm_failed e c =
     (let c' = c\<lparr>swap_scheduled := True\<rparr>
      in if code e = Disconnected then (c', mk_step State_AwaitingReconnect Effect_RequestReconnect)
         else if code e = Timeout \<and> \<not> confirm_reread c' then
           (c'\<lparr>confirm_reread := True\<rparr>, mk_step State_VerifyingBooted Effect_ReadState)
         else fail_update c' e)"

text \<open>One pass of the second loop of \<open>inspect_boot\<close>.\<close>

definition boot_check :: "nat \<Rightarrow> machine_context \<times> bool \<times> bool \<Rightarrow> machine_context \<times> bool \<times> bool" where
  "boot_check i s =
     (case s of (c0, reverted, not_booted) \<Rightarrow>
        let c = set_target i (\<lambda>t. t\<lparr>in_trial := False\<rparr>) c0; t = targets c ! i
        in if commit t \<noteq> Commit_Client then (c, reverted, not_booted)
           else if \<not> holds (active_of c (t_image t)) t then
             if anything_pending c (t_image t) then (c, reverted, True)
             else (set_image i (\<lambda>r. r\<lparr>r_rolled_back := True\<rparr>) c, True, not_booted)
           else (set_target i (\<lambda>t. t\<lparr>in_trial := \<not> without_set_state c \<and>
                    \<not> slot_confirmed (active_of c (t_image t))\<rparr>) c, reverted, not_booted))"

definition inspect_boot :: "update_plan \<Rightarrow> machine_context \<Rightarrow> machine_context \<times> machine_step" where
  "inspect_boot plan c =
     (if list_ex (\<lambda>t. commit t = Commit_Client \<and> active_of c (t_image t) = None) (targets c)
      then fail_update c (Error UpdateFailed ''dfu: no active slot after reboot'')
      else case fold boot_check [0..<length (targets c)] (c, False, False) of
        (c1, reverted, not_booted) \<Rightarrow>
          let c' = c1\<lparr>swap_scheduled := not_booted \<or> next_in_trial c1 0 < length (targets c1)\<rparr>
          in if reverted then
               fail_update c' (Error UpdateFailed ''dfu: device reverted to the old image'')
             else if not_booted then
               fail_update c' (Error UpdateFailed ''dfu: device did not boot the new image'')
             else await_device plan c')"

definition is_downgrade :: "update_plan \<Rightarrow> machine_context \<Rightarrow> bool" where
  "is_downgrade plan c \<longleftrightarrow>
     check_downgrade plan \<and> no_downgrade c \<and>
     list_ex (\<lambda>t. case active_of c (t_image t) of
        None \<Rightarrow> False
      | Some (i, running) \<Rightarrow>
          \<not> holds (Some (i, running)) t \<and>
          (case ImageVersion_parse (slot_version running) of
             Inl _ \<Rightarrow> False
           | Inr v \<Rightarrow> older (version t) v)) (targets c)"

definition check_preconditions ::
    "update_plan \<Rightarrow> machine_context \<Rightarrow> machine_context \<times> machine_step option" where
  "check_preconditions plan c =
     (if preconditions_checked c then (c, None)
      else let c' = c\<lparr>preconditions_checked := True\<rparr>;
               ref = (case mode_refusal plan c' of
                   Some r \<Rightarrow> Some r
                 | None \<Rightarrow> if is_downgrade plan c' then Some Refusal_Downgrade else None)
           in case ref of
                None \<Rightarrow> (c', None)
              | Some r \<Rightarrow>
                  (case fail_update (set_report (\<lambda>rep. rep\<lparr>refusal := Some r\<rparr>) c')
                          (Error UpdateRefused (refusal_text r)) of
                     (c'', s) \<Rightarrow> (c'', Some s)))"

definition staged :: "update_plan \<Rightarrow> machine_context \<Rightarrow> machine_context \<times> machine_step" where
  "staged plan c =
     (if upload_only plan then (c, mk_step State_Completed Effect_Finish)
      else if swap_scheduled c then
        (case check_preconditions plan c of
           (c', Some refused) \<Rightarrow> (c', refused)
         | (c', None) \<Rightarrow> (c', mk_step State_Resetting Effect_Reset))
      else inspect_boot plan c)"

definition listed_slot :: "machine_context \<Rightarrow> u32 \<Rightarrow> u32 \<Rightarrow> slot_ptr" where
  "listed_slot c img global =
     (case device c of
        None \<Rightarrow> None
      | Some st \<Rightarrow> find_slot (\<lambda>s. slot_image s = img \<and> slot_number s = global) 0 (slots st))"

fun build_at :: "target_build \<times> target_build \<Rightarrow> nat \<Rightarrow> target_build" where
  "build_at (b0, b1) i = (if i = 0 then b0 else b1)"

text \<open>One pass of the loop of \<open>choose_build\<close>, on the chosen index and whether it is present.\<close>

definition consider_build :: "machine_context \<Rightarrow> u32 \<Rightarrow> target_build \<times> target_build \<Rightarrow> nat \<Rightarrow>
    nat \<times> bool \<Rightarrow> nat \<times> bool" where
  "consider_build c img bs i s =
     (case s of (ch, present) \<Rightarrow>
        let p = listed_slot c img (img * 2 + of_nat i)
        in case p of
             None \<Rightarrow> s
           | Some (j, sl) \<Rightarrow>
               if slot_hash sl \<noteq> Some (b_hash (build_at bs i)) then s
               else if \<not> present \<or> p = active_of c img then (i, True) else s)"

definition choose_build :: "machine_context \<Rightarrow> machine_context \<times> machine_step option" where
  "choose_build c =
     (let t = targets c ! current c
      in case builds t of
           None \<Rightarrow> (c, None)
         | Some bs \<Rightarrow>
             if chosen_known t then (c, None)
             else if bootloader_mode (report c) \<noteq> Mcuboot_DirectXip \<and>
                     bootloader_mode (report c) \<noteq> Mcuboot_DirectXipWithRevert then
               (case fail_update c (Error InvalidArgument
                       ''dfu: one file per slot needs a direct-XIP device'') of (c', s) \<Rightarrow> (c', Some s))
             else
               let ch0 = (case active_of c (t_image t) of
                     None \<Rightarrow> 1
                   | Some (j, running) \<Rightarrow>
                       if slot_number running = t_image t * 2 + 1 then 0 else 1);
                   ch = fst (fold (consider_build c (t_image t) bs) [0, 1] (ch0, False));
                   h = b_hash (build_at bs ch)
               in (set_image (current c) (\<lambda>r. r\<lparr>r_target_hash := h\<rparr>)
                    (set_target (current c) (\<lambda>t. t\<lparr>chosen := ch, chosen_known := True, hash := h,
                       version := b_version (build_at bs ch)\<rparr>) c), None))"

definition next_target :: "update_plan \<Rightarrow> machine_context \<Rightarrow> machine_context \<times> machine_step" where
  "next_target plan c =
     (let c' = c\<lparr>current := Suc (current c), mark_retried := False\<rparr>
      in if current c' < length (targets c') then (c', mk_step State_Planning Effect_Continue)
         else staged plan c')"

definition mark_or_skip :: "update_plan \<Rightarrow> machine_context \<Rightarrow> machine_context \<times> machine_step" where
  "mark_or_skip plan c =
     (if without_set_state c then next_target plan (c\<lparr>swap_scheduled := True\<rparr>)
      else (c, mk_step State_MarkingForTest Effect_MarkForTest))"

text \<open>Case 4 of the planner: upload the current target.\<close>

definition plan_upload :: "update_plan \<Rightarrow> machine_context \<Rightarrow> machine_context \<times> machine_step" where
  "plan_upload plan c =
     (case check_preconditions plan c of
        (c', Some refused) \<Rightarrow> (c', refused)
      | (c', None) \<Rightarrow>
          (c'\<lparr>upload_in_progress := True\<rparr>, mk_step State_Uploading Effect_StartUpload))"

lemma length_targets_simps [simp]:
  "length (targets (set_report f c)) = length (targets c)"
  "length (targets (set_image i g c)) = length (targets c)"
  "length (targets (set_target i h c)) = length (targets c)"
  by (simp_all add: set_report_def set_image_def set_target_def)

lemma current_simps [simp]:
  "current (set_report f c) = current c" "current (set_image i g c) = current c"
  "current (set_target i h c) = current c"
  by (simp_all add: set_report_def set_image_def set_target_def)

lemma choose_build_measure:
  assumes "choose_build c = (c', r)"
  shows "length (targets c') = length (targets c) \<and> current c' = current c"
  using assms
  by (auto simp: choose_build_def Let_def fail_update_def split: option.splits if_splits prod.splits)

function plan_loop :: "update_plan \<Rightarrow> machine_context \<Rightarrow> machine_context \<times> machine_step" where
  "plan_loop plan c0 =
     (if current c0 < length (targets c0) then
        case choose_build c0 of
          (c, Some bad) \<Rightarrow> (c, bad)
        | (c, None) \<Rightarrow>
            (let t = targets c ! current c;
                 skipped = set_image (current c) (\<lambda>r. r\<lparr>r_upload_skipped := True\<rparr>)
             in case slot_holding c t of
                  None \<Rightarrow> plan_upload plan c
                | Some (i, holder) \<Rightarrow>
                    if Some (i, holder) = active_of c (t_image t) then
                      plan_loop plan ((skipped c)\<lparr>current := Suc (current c)\<rparr>)
                    else if pending holder then
                      plan_loop plan
                        ((set_image (current c) (\<lambda>r. r\<lparr>r_upload_slot := Some (slot_number holder)\<rparr>)
                           (skipped c))
                         \<lparr>swap_scheduled := swap_scheduled c \<or> \<not> upload_only plan,
                          current := Suc (current c)\<rparr>)
                    else if skip_if_already_present plan then
                      if upload_only plan then plan_loop plan ((skipped c)\<lparr>current := Suc (current c)\<rparr>)
                      else (case check_preconditions plan (skipped c) of
                              (c', Some refused) \<Rightarrow> (c', refused)
                            | (c', None) \<Rightarrow>
                                mark_or_skip plan (set_image (current c)
                                  (\<lambda>r. r\<lparr>r_upload_slot := Some (slot_number holder)\<rparr>) c'))
                    else plan_upload plan c)
      else staged plan c0)"
  by pat_completeness auto
termination
  by (relation "measure (\<lambda>(plan, c). length (targets c) - current c)")
    (auto dest!: choose_build_measure [OF sym])

declare plan_loop.simps [simp del]

definition plan_from_state :: "update_plan \<Rightarrow> machine_context \<Rightarrow> machine_context \<times> machine_step" where
  "plan_from_state plan c =
     (if (current c = 0 \<and> list_ex (running_on_trial c) (targets c)) \<and> \<not> upload_only plan then
        inspect_boot plan
          (set_report (\<lambda>r. r\<lparr>images := map (\<lambda>im. im\<lparr>r_upload_skipped := True\<rparr>) (images r)\<rparr>) c)
      else plan_loop plan c)"

definition summarise :: "machine_context \<Rightarrow> machine_context" where
  "summarise c =
     (let ims = images (report c)
      in if ims = [] then c
         else set_report (\<lambda>r. r\<lparr>bytes_transferred := sum_list (map r_bytes_transferred ims),
                upload_skipped := list_all r_upload_skipped ims,
                rolled_back := list_ex r_rolled_back ims,
                upload_slot := r_upload_slot (hd ims)\<rparr>) c)"

definition upload_finished ::
    "event \<Rightarrow> update_plan \<Rightarrow> machine_context \<Rightarrow> machine_context \<times> machine_step" where
  "upload_finished ev plan c0 =
     (let c = set_image (current c0) (\<lambda>r. r\<lparr>r_bytes_transferred := transferred ev,
                r_upload_skipped := r_upload_skipped r \<or> already_present ev\<rparr>)
                (c0\<lparr>upload_in_progress := False\<rparr>)
      in if upload_only plan then next_target plan c
         else (c, mk_step State_VerifyingUpload Effect_ReadState))"

definition mark_refused :: "error \<Rightarrow> machine_context \<Rightarrow> machine_context \<times> machine_step" where
  "mark_refused e c =
     (if (image_error e = Some image_ImageAlreadyPending \<or> smp_error e = Some smp_BadState) \<and>
         \<not> mark_retried c
      then (c\<lparr>mark_retried := True\<rparr>, mk_step State_InspectingImages Effect_ReadState)
      else fail_update c e)"

definition reset_refused :: "error \<Rightarrow> machine_context \<Rightarrow> machine_context \<times> machine_step" where
  "reset_refused e c =
     (if smp_error e = Some smp_Busy \<and> \<not> reset_forced c then
        (c\<lparr>reset_forced := True\<rparr>, mk_step State_Resetting Effect_ForceReset)
      else if code e = Disconnected \<or> code e = Timeout then
        (c, mk_step State_AwaitingDisconnect Effect_AwaitDisconnect)
      else fail_update c e)"

definition needs_current :: "update_state \<Rightarrow> bool" where
  "needs_current s \<longleftrightarrow> s = State_Uploading \<or> s = State_VerifyingUpload \<or>
     s = State_MarkingForTest \<or> s = State_Confirming"

definition names_current :: "effect \<Rightarrow> bool" where
  "names_current e \<longleftrightarrow> e = Effect_StartUpload \<or> e = Effect_MarkForTest \<or> e = Effect_Confirm"

definition carries_table :: "event_kind \<Rightarrow> bool" where
  "carries_table k \<longleftrightarrow> k = Kind_StateRead \<or> k = Kind_MarkedForTest \<or> k = Kind_Confirmed"

definition parameterise :: "machine_step \<Rightarrow> machine_context \<Rightarrow> machine_context \<times> machine_step" where
  "parameterise s c =
     (let t = targets c ! current c
      in case effect s of
           Effect_StartUpload \<Rightarrow>
             (c, s\<lparr>step_target := current c, step_build := chosen t, step_image := t_image t,
                   step_buf_size := buf_size c\<rparr>)
         | Effect_MarkForTest \<Rightarrow> (c, s\<lparr>step_image := t_image t, step_hash := hash t\<rparr>)
         | Effect_Confirm \<Rightarrow> (c, s\<lparr>step_image := t_image t, step_hash := hash t\<rparr>)
         | Effect_Finish \<Rightarrow>
             (set_report (\<lambda>r. r\<lparr>final_state := next_state s,
                report_target_hash := Some (if targets c = [] then [] else hash (hd (targets c))),
                final_device_state := device c\<rparr>) c, s)
         | _ \<Rightarrow> (c, s))"

definition tick :: "update_state \<Rightarrow> time_point \<Rightarrow> machine_context \<Rightarrow> machine_context \<times> machine_step" where
  "tick st t c =
     (if st = State_AwaitingDisconnect \<and>
         (case grace_deadline c of None \<Rightarrow> False | Some d \<Rightarrow> d \<le> t)
      then (c, mk_step State_AwaitingReconnect Effect_RequestReconnect)
      else case (if st = State_AwaitingDeviceApply \<or> st = State_AwaitingDeviceCommit
                 then apply_poll c else None) of
        None \<Rightarrow> (c, mk_step st Effect_None)
      | Some p \<Rightarrow>
          if t < p then (c, mk_step st Effect_None)
          else let c' = c\<lparr>apply_poll := None\<rparr>
               in if (case apply_deadline c' of None \<Rightarrow> False | Some d \<Rightarrow> d \<le> t)
                  then fail_update c' (Error Timeout
                    (if st = State_AwaitingDeviceApply
                     then ''dfu: device did not apply an image in time''
                     else ''dfu: device did not commit an image in time''))
                  else (c', mk_step st Effect_ReadState))"

definition keep_time :: "machine_step \<Rightarrow> time_point \<Rightarrow> update_plan \<Rightarrow> machine_context \<Rightarrow> machine_context" where
  "keep_time s t plan c0 =
     (let c = (if next_state s \<noteq> State_AwaitingDisconnect then c0\<lparr>grace_deadline := None\<rparr> else c0)
      in case effect s of
           Effect_AwaitDisconnect \<Rightarrow> c\<lparr>grace_deadline := Some (t + disconnect_grace plan)\<rparr>
         | Effect_AwaitApply \<Rightarrow>
             (if apply_phase c \<noteq> Some (next_state s)
              then c\<lparr>apply_phase := Some (next_state s), apply_deadline := Some (t + apply_timeout plan)\<rparr>
              else c)\<lparr>apply_poll := Some (t + apply_poll_interval plan)\<rparr>
         | Effect_Finish \<Rightarrow> c\<lparr>apply_poll := None, apply_deadline := None, apply_phase := None\<rparr>
         | _ \<Rightarrow> c)"

definition bootloader_failed ::
    "error \<Rightarrow> update_plan \<Rightarrow> machine_context \<Rightarrow> machine_context \<times> machine_step" where
  "bootloader_failed e plan c =
     (if code e = ProtocolError \<or> code e = CborDecode then
        (set_report (record_mode Mcuboot_Unknown plan) c,
         mk_step State_InspectingImages Effect_ReadState)
      else fail_update c e)"

text \<open>\<open>VerifyingUpload\<close>, on the slot table.\<close>

definition verify_upload :: "update_plan \<Rightarrow> machine_context \<Rightarrow> machine_context \<times> machine_step" where
  "verify_upload plan c =
     (case slot_holding c (targets c ! current c) of
        None \<Rightarrow> fail_update c (Error ImageMismatch ''dfu: uploaded image not present in any slot'')
      | Some (i, holder) \<Rightarrow>
          mark_or_skip plan
            (set_image (current c) (\<lambda>r. r\<lparr>r_upload_slot := Some (slot_number holder)\<rparr>) c))"

text \<open>\<open>Confirming\<close>, on \<open>Confirmed\<close>.\<close>

definition confirm_accepted :: "machine_context \<Rightarrow> machine_context \<times> machine_step" where
  "confirm_accepted c0 =
     (let c1 = set_target (current c0) (\<lambda>t. t\<lparr>in_trial := False\<rparr>) c0;
          c = c1\<lparr>current := next_in_trial c1 (current c1)\<rparr>
      in if current c < length (targets c) then (c, mk_step State_Confirming Effect_Confirm)
         else (c\<lparr>swap_scheduled := False\<rparr>, mk_step State_VerifyingConfirmed Effect_ReadState))"

definition client_confirmed :: "machine_context \<Rightarrow> 'a target_scheme \<Rightarrow> bool" where
  "client_confirmed c t \<longleftrightarrow>
     commit t \<noteq> Commit_Client \<or>
     (holds (active_of c (t_image t)) t \<and> slot_confirmed (active_of c (t_image t)))"

definition verify_confirmed :: "machine_context \<Rightarrow> machine_context \<times> machine_step" where
  "verify_confirmed c =
     (if list_all (client_confirmed c) (targets c) then await_commit c
      else fail_update (c\<lparr>swap_scheduled := True\<rparr>)
             (Error UpdateFailed ''dfu: device did not report the image as confirmed''))"

text \<open>An event the state has no rule for.\<close>

definition illegal :: "machine_context \<Rightarrow> machine_context \<times> machine_step" where
  "illegal c = fail_update c (Error Internal ''dfu: event not legal in this state'')"

text \<open>The slot table the event carries becomes the machine's.\<close>

definition with_table :: "event \<Rightarrow> machine_context \<Rightarrow> machine_context" where
  "with_table ev c = c\<lparr>device := ev_state ev\<rparr>"

definition decide :: "update_state \<Rightarrow> event \<Rightarrow> update_plan \<Rightarrow> machine_context \<Rightarrow>
    machine_context \<times> machine_step" where
  "decide st ev plan c =
     (if kind ev = Kind_Cancel then
        if is_terminal st then (c, mk_step st Effect_None)
        else (set_report (\<lambda>r. r\<lparr>revert_pending := swap_scheduled c\<rparr>) c,
              mk_step State_Cancelled Effect_Finish)
      else if kind ev = Kind_Tick then tick st (now ev) c
      else case st of
        State_Idle \<Rightarrow>
          if kind ev = Kind_Start then (c, mk_step State_QueryingParameters Effect_QueryParameters)
          else illegal c
      | State_QueryingParameters \<Rightarrow>
          if kind ev = Kind_ParametersRead then
            (c\<lparr>buf_size := ev_buf_size ev\<rparr>, mk_step State_QueryingBootloader Effect_QueryBootloader)
          else if kind ev = Kind_ParametersUnavailable then
            (c, mk_step State_QueryingBootloader Effect_QueryBootloader)
          else illegal c
      | State_QueryingBootloader \<Rightarrow>
          if kind ev = Kind_BootloaderRead then
            ((set_report (record_mode (bl_mode (bootloader ev)) plan) c)
               \<lparr>no_downgrade := bl_no_downgrade (bootloader ev)\<rparr>,
             mk_step State_InspectingImages Effect_ReadState)
          else if kind ev = Kind_Failed then bootloader_failed (ev_error ev) plan c
          else illegal c
      | State_InspectingImages \<Rightarrow>
          if kind ev = Kind_StateRead then (with_table ev c, mk_step State_Planning Effect_Continue)
          else if kind ev = Kind_Failed then fail_update c (ev_error ev)
          else illegal c
      | State_Planning \<Rightarrow>
          if kind ev = Kind_Continue then plan_from_state plan c else illegal c
      | State_Uploading \<Rightarrow>
          if kind ev = Kind_UploadFinished then upload_finished ev plan c
          else if kind ev = Kind_UploadSuspended then
            (c, mk_step State_AwaitingReconnect Effect_RequestReconnect)
          else if kind ev = Kind_Failed then fail_update c (ev_error ev)
          else illegal c
      | State_VerifyingUpload \<Rightarrow>
          if kind ev = Kind_StateRead then verify_upload plan (with_table ev c)
          else if kind ev = Kind_Failed then fail_update c (ev_error ev)
          else illegal c
      | State_MarkingForTest \<Rightarrow>
          if kind ev = Kind_MarkedForTest then
            next_target plan ((with_table ev c)\<lparr>swap_scheduled := True\<rparr>)
          else if kind ev = Kind_Failed then mark_refused (ev_error ev) c
          else illegal c
      | State_Resetting \<Rightarrow>
          if kind ev = Kind_ResetAccepted then
            (c, mk_step State_AwaitingDisconnect Effect_AwaitDisconnect)
          else if kind ev = Kind_Failed then reset_refused (ev_error ev) c
          else illegal c
      | State_AwaitingDisconnect \<Rightarrow>
          if kind ev = Kind_Disconnected then
            (c, mk_step State_AwaitingReconnect Effect_RequestReconnect)
          else illegal c
      | State_AwaitingReconnect \<Rightarrow>
          if kind ev = Kind_Reconnected then
            if upload_in_progress c then (c, mk_step State_Uploading Effect_ResumeUpload)
            else (c, mk_step State_VerifyingBooted Effect_ReadState)
          else if kind ev = Kind_ReconnectFailed then fail_update c (ev_error ev)
          else illegal c
      | State_VerifyingBooted \<Rightarrow>
          if kind ev = Kind_StateRead then inspect_boot plan (with_table ev c)
          else if kind ev = Kind_Failed then fail_update c (ev_error ev)
          else illegal c
      | State_AwaitingDeviceApply \<Rightarrow>
          if kind ev = Kind_StateRead then await_device plan (with_table ev c)
          else if kind ev = Kind_Failed then wait_read_failed st (ev_error ev) c
          else illegal c
      | State_AwaitingDeviceCommit \<Rightarrow>
          if kind ev = Kind_StateRead then await_commit (with_table ev c)
          else if kind ev = Kind_Failed then wait_read_failed st (ev_error ev) c
          else illegal c
      | State_AwaitingConfirmation \<Rightarrow>
          if kind ev = Kind_ConfirmApproved then
            (c\<lparr>confirm_approved := True\<rparr>, mk_step State_Confirming Effect_Confirm)
          else illegal c
      | State_Confirming \<Rightarrow>
          if kind ev = Kind_Confirmed then confirm_accepted (with_table ev c)
          else if kind ev = Kind_Failed then confirm_failed (ev_error ev) c
          else illegal c
      | State_VerifyingConfirmed \<Rightarrow>
          if kind ev = Kind_StateRead then verify_confirmed (with_table ev c)
          else if kind ev = Kind_Failed then confirm_failed (ev_error ev) c
          else illegal c
      | State_Completed \<Rightarrow> (c, mk_step st Effect_None)
      | State_Failed \<Rightarrow> (c, mk_step st Effect_None)
      | State_Cancelled \<Rightarrow> (c, mk_step st Effect_None))"

section \<open>The machine\<close>

record machine =
  m_plan :: update_plan
  m_state :: update_state
  m_context :: machine_context

definition no_report :: update_report where
  "no_report = \<lparr>final_state = State_Idle, bytes_transferred = 0, upload_skipped = False,
     report_target_hash = None, final_device_state = None, cause = None, rolled_back = False,
     upload_slot = None, revert_pending = False, bootloader_mode = Mcuboot_Unknown,
     mode_source = Source_Assumed, refusal = None, images = []\<rparr>"

definition Machine :: "target list \<Rightarrow> update_plan \<Rightarrow> machine" where
  "Machine ts plan = \<lparr>m_plan = plan, m_state = State_Idle, m_context =
     \<lparr>targets = map (\<lambda>t. target.extend t \<lparr>chosen = 0, chosen_known = False, in_trial = False\<rparr>) ts,
      current = 0, device = None, buf_size = 0, no_downgrade = False,
      report = no_report\<lparr>images := map (\<lambda>t. \<lparr>r_image = t_image t, r_commit = commit t,
        r_target_hash = hash t, r_bytes_transferred = 0, r_upload_skipped = False,
        r_upload_slot = None, r_rolled_back = False, r_applied = False, r_committed = False\<rparr>) ts\<rparr>,
      upload_in_progress = False, swap_scheduled = False, mark_retried = False,
      reset_forced = False, confirm_approved = False, confirm_reread = False,
      preconditions_checked = False, grace_deadline = None, apply_poll = None,
      apply_deadline = None, apply_phase = None\<rparr>\<rparr>"

definition no_image :: "machine_context \<Rightarrow> machine_context \<times> machine_step" where
  "no_image c = fail_update c (Error Internal ''dfu: no image to work on'')"

text \<open>
  The first half of \<open>Machine::apply\<close>: the decision behind the machine's own consistency
  checks. The second half completes the step and moves on.
\<close>

definition guarded_decide :: "machine \<Rightarrow> event \<Rightarrow> machine_context \<times> machine_step" where
  "guarded_decide m ev =
     (let c = m_context m; st = m_state m;
          consistent = targets c \<noteq> [] \<and> (\<not> needs_current st \<or> current c < length (targets c));
          complete = (\<not> carries_table (kind ev) \<or> ev_state ev \<noteq> None)
      in if is_terminal st \<or> (consistent \<and> complete) then decide st ev (m_plan m) c
         else if consistent
         then fail_update c (Error Internal ''dfu: answer without a slot table'')
         else no_image c)"

definition machine_apply :: "machine \<Rightarrow> event \<Rightarrow> machine \<times> machine_step" where
  "machine_apply m ev =
     (case guarded_decide m ev of (c1, s1) \<Rightarrow>
        (case (if names_current (effect s1) \<and> current c1 \<ge> length (targets c1) then no_image c1
               else (c1, s1)) of (c2, s2) \<Rightarrow>
           (case parameterise s2 (summarise c2) of (c3, s3) \<Rightarrow>
              (m\<lparr>m_state := next_state s3, m_context := keep_time s3 (now ev) (m_plan m) c3\<rparr>, s3))))"

definition next_deadline :: "machine \<Rightarrow> time_point option" where
  "next_deadline m =
     (case grace_deadline (m_context m) of
        Some d \<Rightarrow> Some d
      | None \<Rightarrow> apply_poll (m_context m))"

end
