(* ===== verification/UpdateInvariant.thy ===== *)
theory UpdateInvariant
  imports UpdateMachine
begin

text \<open>
  The invariant of the update machine. A run of the machine is any sequence of events from a
  fresh \<open>Machine\<close>, in any order and with any payload; the invariant says, per state, what the
  device must have reported before the machine can be there, and every decision of the machine
  re-establishes it. The properties that rest on it are in \<open>UpdateSafety\<close>.
\<close>

section \<open>What the slot table says of a target\<close>

definition holds_in :: "image_state \<Rightarrow> 'a target_scheme \<Rightarrow> bool" where
  "holds_in T t \<longleftrightarrow> holds (active_slot T (t_image t)) t"

definition confirmed_in :: "image_state \<Rightarrow> 'a target_scheme \<Rightarrow> bool" where
  "confirmed_in T t \<longleftrightarrow> slot_confirmed (active_slot T (t_image t))"

definition clients_running :: "image_state \<Rightarrow> machine_context \<Rightarrow> bool" where
  "clients_running T c \<longleftrightarrow> (\<forall>t \<in> set (targets c). commit t = Commit_Client \<longrightarrow>
     holds_in T t \<and> (in_trial t \<or> confirmed_in T t \<or> without_set_state c))"

definition clients_done :: "image_state \<Rightarrow> machine_context \<Rightarrow> bool" where
  "clients_done T c \<longleftrightarrow> (\<forall>t \<in> set (targets c). commit t = Commit_Client \<longrightarrow>
     holds_in T t \<and> (confirmed_in T t \<or> without_set_state c))"

definition devices_running :: "image_state \<Rightarrow> machine_context \<Rightarrow> bool" where
  "devices_running T c \<longleftrightarrow>
     (\<forall>t \<in> set (targets c). commit t = Commit_Device \<longrightarrow> holds_in T t)"

definition devices_committed :: "image_state \<Rightarrow> machine_context \<Rightarrow> bool" where
  "devices_committed T c \<longleftrightarrow>
     (\<forall>t \<in> set (targets c). commit t = Commit_Device \<longrightarrow> holds_in T t \<and> confirmed_in T t)"

definition any_trial :: "machine_context \<Rightarrow> bool" where
  "any_trial c \<longleftrightarrow> (\<exists>t \<in> set (targets c). in_trial t)"

section \<open>The invariant\<close>

text \<open>
  What stays of the targets while the report and the trial marks are written: \<open>tstatic\<close> and
  \<open>rstatic\<close>. \<open>touch\<close> relates contexts that differ in those only.
\<close>

definition tstatic :: "image_target \<Rightarrow> u32 \<times> commit_by \<times> image_hash \<times> image_version \<times>
    (target_build \<times> target_build) option \<times> nat \<times> bool" where
  "tstatic t = (t_image t, commit t, hash t, version t, builds t, chosen t, chosen_known t)"

definition rstatic :: "image_report \<Rightarrow> u32 \<times> commit_by \<times> image_hash" where
  "rstatic r = (r_image r, r_commit r, r_target_hash r)"

definition touch :: "machine_context \<Rightarrow> machine_context \<Rightarrow> bool" where
  "touch c c' \<longleftrightarrow>
     (\<exists>ts ims. c' = c\<lparr>targets := ts, report := (report c)\<lparr>images := ims\<rparr>\<rparr> \<and>
        map tstatic ts = map tstatic (targets c) \<and>
        map rstatic ims = map rstatic (images (report c)))"

text \<open>
  The targets keep their image number, who commits them and their builds, the report keeps one
  entry per target with the target's current hash, and a chosen build is one the target has.
\<close>

definition shape :: "target list \<Rightarrow> machine_context \<Rightarrow> bool" where
  "shape ts c \<longleftrightarrow>
     map (\<lambda>t. (t_image t, commit t, builds t)) (targets c) =
       map (\<lambda>t. (t_image t, commit t, builds t)) ts \<and>
     map rstatic (images (report c)) = map (\<lambda>t. (t_image t, commit t, hash t)) (targets c) \<and>
     (\<forall>t \<in> set (targets c). chosen t \<le> 1 \<and> (builds t = None \<longrightarrow> chosen t = 0))"

definition core :: "target list \<Rightarrow> image_state set \<Rightarrow> machine_context \<Rightarrow> bool" where
  "core ts S c \<longleftrightarrow> shape ts c \<and> (\<forall>T. device c = Some T \<longrightarrow> T \<in> S) \<and>
     (\<forall>t \<in> set (targets c). in_trial t \<longrightarrow> commit t = Commit_Client)"

definition clean :: "machine_context \<Rightarrow> bool" where
  "clean c \<longleftrightarrow> cause (report c) = None \<and> refusal (report c) = None \<and> \<not> revert_pending (report c)"

definition report_ok :: "update_state \<Rightarrow> machine_context \<Rightarrow> bool" where
  "report_ok st c \<longleftrightarrow>
     (cause (report c) \<noteq> None \<longleftrightarrow> st = State_Failed) \<and>
     (refusal (report c) \<noteq> None \<longrightarrow>
        (\<exists>e. cause (report c) = Some e \<and> code e = UpdateRefused)) \<and>
     (revert_pending (report c) \<longleftrightarrow>
        (st = State_Failed \<or> st = State_Cancelled) \<and> swap_scheduled c)"

definition state_ok :: "image_state set \<Rightarrow> update_plan \<Rightarrow> update_state \<Rightarrow> machine_context \<Rightarrow> bool" where
  "state_ok S plan st c \<longleftrightarrow>
     (case st of
        State_Planning \<Rightarrow> \<not> upload_in_progress c \<and> device c \<noteq> None \<and>
          (upload_only plan \<longrightarrow> \<not> swap_scheduled c)
      | State_Uploading \<Rightarrow> upload_in_progress c \<and> current c < length (targets c) \<and>
          device c \<noteq> None \<and> preconditions_checked c \<and> (upload_only plan \<longrightarrow> \<not> swap_scheduled c)
      | State_VerifyingUpload \<Rightarrow> \<not> upload_in_progress c \<and> current c < length (targets c) \<and>
          preconditions_checked c \<and> \<not> upload_only plan
      | State_MarkingForTest \<Rightarrow> \<not> upload_in_progress c \<and> current c < length (targets c) \<and>
          preconditions_checked c \<and> \<not> upload_only plan
      | State_Resetting \<Rightarrow> \<not> upload_in_progress c \<and> preconditions_checked c \<and> \<not> upload_only plan
      | State_AwaitingDisconnect \<Rightarrow>
          \<not> upload_in_progress c \<and> preconditions_checked c \<and> \<not> upload_only plan
      | State_AwaitingReconnect \<Rightarrow>
          if upload_in_progress c
          then current c < length (targets c) \<and> device c \<noteq> None \<and> preconditions_checked c \<and>
            (upload_only plan \<longrightarrow> \<not> swap_scheduled c)
          else \<not> upload_only plan
      | State_VerifyingBooted \<Rightarrow> \<not> upload_in_progress c \<and> \<not> upload_only plan
      | State_AwaitingDeviceApply \<Rightarrow> \<not> upload_in_progress c \<and> \<not> upload_only plan \<and>
          (swap_scheduled c \<longleftrightarrow> any_trial c) \<and> (\<exists>T \<in> S. clients_running T c)
      | State_AwaitingConfirmation \<Rightarrow> \<not> upload_in_progress c \<and> \<not> upload_only plan \<and>
          current c < length (targets c) \<and> in_trial (targets c ! current c) \<and>
          (\<exists>T \<in> S. devices_running T c)
      | State_Confirming \<Rightarrow> \<not> upload_in_progress c \<and> \<not> upload_only plan \<and>
          current c < length (targets c) \<and> in_trial (targets c ! current c) \<and>
          (\<exists>T \<in> S. devices_running T c)
      | State_VerifyingConfirmed \<Rightarrow>
          \<not> upload_in_progress c \<and> \<not> upload_only plan \<and> \<not> swap_scheduled c
      | State_AwaitingDeviceCommit \<Rightarrow> \<not> upload_in_progress c \<and> \<not> upload_only plan \<and>
          \<not> swap_scheduled c \<and> (\<exists>T \<in> S. clients_done T c)
      | State_Completed \<Rightarrow> \<not> swap_scheduled c \<and>
          (upload_only plan \<or> (\<exists>T \<in> S. clients_done T c) \<and>
             (\<exists>T. device c = Some T \<and> devices_committed T c))
      | State_Failed \<Rightarrow> True
      | State_Cancelled \<Rightarrow> True
      | _ \<Rightarrow> \<not> upload_in_progress c \<and> (upload_only plan \<longrightarrow> \<not> swap_scheduled c))"

text \<open>The effects a step into a state may have, a tick that changes nothing aside.\<close>

definition legal_step :: "update_state \<Rightarrow> effect \<Rightarrow> bool" where
  "legal_step st e \<longleftrightarrow>
     (case st of
        State_Idle \<Rightarrow> False
      | State_QueryingParameters \<Rightarrow> e = Effect_QueryParameters
      | State_QueryingBootloader \<Rightarrow> e = Effect_QueryBootloader
      | State_InspectingImages \<Rightarrow> e = Effect_ReadState
      | State_Planning \<Rightarrow> e = Effect_Continue
      | State_Uploading \<Rightarrow> e = Effect_StartUpload \<or> e = Effect_ResumeUpload
      | State_VerifyingUpload \<Rightarrow> e = Effect_ReadState
      | State_MarkingForTest \<Rightarrow> e = Effect_MarkForTest
      | State_Resetting \<Rightarrow> e = Effect_Reset \<or> e = Effect_ForceReset
      | State_AwaitingDisconnect \<Rightarrow> e = Effect_AwaitDisconnect
      | State_AwaitingReconnect \<Rightarrow> e = Effect_RequestReconnect
      | State_VerifyingBooted \<Rightarrow> e = Effect_ReadState
      | State_AwaitingDeviceApply \<Rightarrow> e = Effect_AwaitApply \<or> e = Effect_ReadState
      | State_AwaitingConfirmation \<Rightarrow> e = Effect_RequestConfirmation
      | State_Confirming \<Rightarrow> e = Effect_Confirm
      | State_VerifyingConfirmed \<Rightarrow> e = Effect_ReadState
      | State_AwaitingDeviceCommit \<Rightarrow> e = Effect_AwaitApply \<or> e = Effect_ReadState
      | State_Completed \<Rightarrow> e = Effect_Finish
      | State_Failed \<Rightarrow> e = Effect_Finish
      | State_Cancelled \<Rightarrow> e = Effect_Finish)"

definition machine_inv ::
    "target list \<Rightarrow> image_state set \<Rightarrow> update_plan \<Rightarrow> update_state \<Rightarrow> machine_context \<Rightarrow> bool" where
  "machine_inv ts S plan st c \<longleftrightarrow> core ts S c \<and> report_ok st c \<and> state_ok S plan st c"

definition step_ok :: "target list \<Rightarrow> image_state set \<Rightarrow> update_plan \<Rightarrow>
    machine_context \<times> machine_step \<Rightarrow> bool" where
  "step_ok ts S plan p \<longleftrightarrow>
     (case p of (c, s) \<Rightarrow> machine_inv ts S plan (next_state s) c \<and> legal_step (next_state s) (effect s))"

named_theorems update_simps \<open>definitions the proofs about the update machine unfold\<close>

declare machine_inv_def [update_simps] report_ok_def [update_simps]
  state_ok_def [update_simps] legal_step_def [update_simps] clean_def [update_simps]

lemma mk_step_simps [simp]: "next_state (mk_step n e) = n" "effect (mk_step n e) = e"
  by (simp_all add: mk_step_def)

lemma step_ok_mk_step [update_simps]:
  "step_ok ts S plan (c, mk_step st e) \<longleftrightarrow> machine_inv ts S plan st c \<and> legal_step st e"
  by (simp add: step_ok_def)

lemma set_report_simps [simp]:
  "report (set_report f c) = f (report c)" "device (set_report f c) = device c"
  "targets (set_report f c) = targets c" "swap_scheduled (set_report f c) = swap_scheduled c"
  "upload_in_progress (set_report f c) = upload_in_progress c"
  "preconditions_checked (set_report f c) = preconditions_checked c"
  by (simp_all add: set_report_def)

lemma touch_refl [simp]: "touch c c"
  unfolding touch_def by (intro exI [of _ "targets c"] exI [of _ "images (report c)"]) simp

lemma touch_trans: "touch c c' \<Longrightarrow> touch c' c'' \<Longrightarrow> touch c c''"
  unfolding touch_def by (elim exE conjE) (simp, blast)

lemma map_update_same: "g (f (xs ! i)) = g (xs ! i) \<Longrightarrow> map g (xs[i := f (xs ! i)]) = map g xs"
  by (metis list_update_id map_update)

lemma touch_set_image:
  "(\<And>r. rstatic (f r) = rstatic r) \<Longrightarrow> touch c (set_image i f c)"
  unfolding touch_def set_image_def set_report_def
  by (intro exI [of _ "targets c"] exI) (auto simp: map_update_same)

lemma touch_set_target:
  "(\<And>t. tstatic (f t) = tstatic t) \<Longrightarrow> touch c (set_target i f c)"
  unfolding touch_def set_target_def
  by (intro exI [of _ "(targets c)[i := f (targets c ! i)]"] exI [of _ "images (report c)"])
    (auto simp: map_update_same)

lemma touchD:
  assumes "touch c c'"
  shows "device c' = device c" "current c' = current c" "swap_scheduled c' = swap_scheduled c"
    "upload_in_progress c' = upload_in_progress c"
    "preconditions_checked c' = preconditions_checked c"
    "cause (report c') = cause (report c)" "refusal (report c') = refusal (report c)"
    "revert_pending (report c') = revert_pending (report c)"
    "bootloader_mode (report c') = bootloader_mode (report c)"
    "confirm_approved c' = confirm_approved c" "reset_forced c' = reset_forced c"
    "map tstatic (targets c') = map tstatic (targets c)"
    "map rstatic (images (report c')) = map rstatic (images (report c))"
    "length (targets c') = length (targets c)"
  using assms unfolding touch_def by (auto dest: map_eq_imp_length_eq)

lemma touch_nth:
  assumes "touch c c'" and "i < length (targets c)"
  shows "tstatic (targets c' ! i) = tstatic (targets c ! i)"
  using touchD(12,14) [OF assms(1)] assms(2) by (metis nth_map)

lemma tstatic_map:
  assumes "map tstatic xs = map tstatic ys"
  shows "map (\<lambda>t. (t_image t, commit t, builds t)) xs = map (\<lambda>t. (t_image t, commit t, builds t)) ys"
    and "map (\<lambda>t. (t_image t, commit t, hash t)) xs = map (\<lambda>t. (t_image t, commit t, hash t)) ys"
proof -
  have "map (\<lambda>(a, b, h, v, bu, ch, k). (a, b, bu)) (map tstatic xs) =
      map (\<lambda>(a, b, h, v, bu, ch, k). (a, b, bu)) (map tstatic ys)"
    "map (\<lambda>(a, b, h, v, bu, ch, k). (a, b, h)) (map tstatic xs) =
      map (\<lambda>(a, b, h, v, bu, ch, k). (a, b, h)) (map tstatic ys)"
    using assms by simp_all
  then show "map (\<lambda>t. (t_image t, commit t, builds t)) xs = map (\<lambda>t. (t_image t, commit t, builds t)) ys"
    and "map (\<lambda>t. (t_image t, commit t, hash t)) xs = map (\<lambda>t. (t_image t, commit t, hash t)) ys"
    by (simp_all add: tstatic_def o_def split_def)
qed

lemma shape_nth:
  assumes "shape ts c"
  shows "length (targets c) = length ts" "length (images (report c)) = length ts"
    and "i < length ts \<Longrightarrow> t_image (targets c ! i) = t_image (ts ! i)"
    and "i < length ts \<Longrightarrow> commit (targets c ! i) = commit (ts ! i)"
    and "i < length ts \<Longrightarrow> builds (targets c ! i) = builds (ts ! i)"
proof -
  have eq: "map (\<lambda>t. (t_image t, commit t, builds t)) (targets c) = map (\<lambda>t. (t_image t, commit t, builds t)) ts"
    and im: "map rstatic (images (report c)) = map (\<lambda>t. (t_image t, commit t, hash t)) (targets c)"
    using assms by (simp_all add: shape_def)
  show len: "length (targets c) = length ts" "length (images (report c)) = length ts"
    using map_eq_imp_length_eq [OF eq] map_eq_imp_length_eq [OF im] by auto
  have "i < length ts \<Longrightarrow> (t_image (targets c ! i), commit (targets c ! i), builds (targets c ! i)) =
      (t_image (ts ! i), commit (ts ! i), builds (ts ! i))" for i
    using arg_cong [OF eq, of "\<lambda>xs. xs ! i"] len by simp
  then show "i < length ts \<Longrightarrow> t_image (targets c ! i) = t_image (ts ! i)"
    and "i < length ts \<Longrightarrow> commit (targets c ! i) = commit (ts ! i)"
    and "i < length ts \<Longrightarrow> builds (targets c ! i) = builds (ts ! i)" by auto
qed

lemma tstatic_set:
  assumes "map tstatic xs = map tstatic ys" and "\<forall>t \<in> set ys. P (builds t) (chosen t)"
  shows "\<forall>t \<in> set xs. P (builds t) (chosen t)"
proof
  fix t assume "t \<in> set xs"
  then have "tstatic t \<in> set (map tstatic ys)" using assms(1) by (metis image_eqI image_set)
  then show "P (builds t) (chosen t)" using assms(2) by (auto simp: tstatic_def)
qed

lemma touch_shape:
  assumes "touch c c'" and "shape ts c"
  shows "shape ts c'"
  using assms(2) tstatic_map [OF touchD(12) [OF assms(1)]] touchD(13) [OF assms(1)]
    tstatic_set [OF touchD(12) [OF assms(1)], of "\<lambda>b k. k \<le> 1 \<and> (b = None \<longrightarrow> k = 0)"]
  by (simp add: shape_def)

lemma touch_core:
  "touch c c' \<Longrightarrow> core ts S c \<Longrightarrow> (\<forall>t \<in> set (targets c'). in_trial t \<longrightarrow> commit t = Commit_Client) \<Longrightarrow>
     core ts S c'"
  using touch_shape touchD(1) by (auto simp: core_def)

lemma touch_core_same:
  assumes "touch c c'" and "targets c' = targets c" and "core ts S c"
  shows "core ts S c'"
  using touch_shape [OF assms(1)] touchD(1) [OF assms(1)] assms(2,3) unfolding core_def by simp

text \<open>The table says the same of targets that differ in their trial marks only.\<close>

lemma tstatic_in:
  assumes "tstatic t = tstatic t'"
  shows "holds_in T t = holds_in T t'" "confirmed_in T t = confirmed_in T t'" "commit t = commit t'"
  using assms by (auto simp: tstatic_def holds_in_def confirmed_in_def holds_def split: option.splits)

lemma touch_in:
  assumes "touch c c'" and "i < length (targets c)"
  shows "holds_in T (targets c' ! i) = holds_in T (targets c ! i)"
    "confirmed_in T (targets c' ! i) = confirmed_in T (targets c ! i)"
    "commit (targets c' ! i) = commit (targets c ! i)"
  using tstatic_in [OF touch_nth [OF assms]] by simp_all

lemma active_of_table [simp]: "device c = Some T \<Longrightarrow> active_of c img = active_slot T img"
  by (simp add: active_of_def)

lemma apply_of_table:
  assumes "device c = Some T"
  shows "apply_of c t = Apply_Committed \<longleftrightarrow> holds_in T t \<and> confirmed_in T t"
    and "apply_of c t = Apply_OnTrial \<longleftrightarrow> holds_in T t \<and> \<not> confirmed_in T t"
  using assms by (auto simp: apply_of_def holds_in_def confirmed_in_def split: option.splits)

section \<open>The loops\<close>

lemma targets_set_image [simp]: "targets (set_image i f c) = targets c"
  by (simp add: set_image_def)

lemma set_image_simps [simp]:
  "device (set_image i f c) = device c" "swap_scheduled (set_image i f c) = swap_scheduled c"
  "preconditions_checked (set_image i f c) = preconditions_checked c"
  by (simp_all add: set_image_def)

lemma touch_flags:
  "touch c (set_image i (\<lambda>r. r\<lparr>r_applied := x, r_committed := y\<rparr>) c)"
  "touch c (set_image i (\<lambda>r. r\<lparr>r_committed := x, r_applied := y\<rparr>) c)"
  "touch c (set_image i (\<lambda>r. r\<lparr>r_applied := x\<rparr>) c)"
  "touch c (set_image i (\<lambda>r. r\<lparr>r_rolled_back := x\<rparr>) c)"
  by (rule touch_set_image, simp add: rstatic_def)+

lemma commit_loop_ok:
  assumes "commit_loop is b c = Inr (c', b')"
  shows "touch c c' \<and> targets c' = targets c \<and> (b \<longrightarrow> b') \<and>
    (\<forall>T. device c = Some T \<longrightarrow> (\<forall>i \<in> set is. commit (targets c ! i) = Commit_Device \<longrightarrow>
       holds_in T (targets c ! i) \<and> (b' \<or> confirmed_in T (targets c ! i))))"
  using assms
proof (induction "is" b c rule: commit_loop.induct)
  case (2 i "is" b c)
  show ?case
  proof (cases "commit (targets c ! i) = Commit_Device")
    case False
    then show ?thesis using 2 by simp
  next
    case True
    show ?thesis
    proof (cases "apply_of c (targets c ! i)")
      case Apply_Committed
      then show ?thesis
        using 2 True touch_trans [OF touch_flags(1)] apply_of_table(1) [of c _ "targets c ! i"]
        by simp blast
    next
      case Apply_OnTrial
      then show ?thesis
        using 2 True touch_trans [OF touch_flags(3)] apply_of_table(2) [of c _ "targets c ! i"]
        by simp blast
    qed (use 2 True in simp_all)
  qed
qed simp

lemma commit_loop_fails:
  assumes "commit_loop is b c = Inl p"
  shows "\<exists>c' e. touch c c' \<and> targets c' = targets c \<and> p = fail_update c' e \<and> code e = UpdateFailed"
  using assms
proof (induction "is" b c rule: commit_loop.induct)
  case (2 i "is" b c)
  note * = exI [of _ "set_image i (\<lambda>r. r\<lparr>r_applied := False\<rparr>) c"] exI [of _ "Error UpdateFailed x" for x]
  show ?case
  proof (cases "commit (targets c ! i) = Commit_Device")
    case False
    then show ?thesis using 2 by simp
  next
    case True
    show ?thesis
    proof (cases "apply_of c (targets c ! i)")
      case Apply_Committed
      then show ?thesis using 2 True touch_trans [OF touch_flags(1)] by simp blast
    next
      case Apply_OnTrial
      then show ?thesis using 2 True touch_trans [OF touch_flags(3)] by simp blast
    qed (use 2 True in \<open>auto intro!: * touch_flags\<close>)
  qed
qed simp

lemma device_loop_ok:
  assumes "device_loop is b c = Inr (c', b')"
  shows "touch c c' \<and> targets c' = targets c \<and> (b \<longrightarrow> b') \<and>
    (\<forall>T. device c = Some T \<longrightarrow> (\<forall>i \<in> set is. commit (targets c ! i) = Commit_Device \<longrightarrow>
       b' \<or> holds_in T (targets c ! i)))"
  using assms
proof (induction "is" b c rule: device_loop.induct)
  case (2 i "is" b c)
  show ?case
  proof (cases "commit (targets c ! i) = Commit_Device")
    case False
    then show ?thesis using 2 by simp
  next
    case True
    show ?thesis
    proof (cases "apply_of c (targets c ! i)")
      case Apply_Committed
      then show ?thesis
        using 2 True touch_trans [OF touch_flags(2)] apply_of_table(1) [of c _ "targets c ! i"]
        by simp blast
    next
      case Apply_OnTrial
      then show ?thesis
        using 2 True touch_trans [OF touch_flags(3)] apply_of_table(2) [of c _ "targets c ! i"]
        by simp blast
    qed (use 2 True in simp_all)
  qed
qed simp

lemma device_loop_fails:
  assumes "device_loop is b c = Inl p"
  shows "\<exists>c' e. touch c c' \<and> targets c' = targets c \<and> p = fail_update c' e \<and> code e = UpdateFailed"
  using assms
proof (induction "is" b c rule: device_loop.induct)
  case (2 i "is" b c)
  show ?case
  proof (cases "commit (targets c ! i) = Commit_Device")
    case False
    then show ?thesis using 2 by simp
  next
    case True
    show ?thesis
    proof (cases "apply_of c (targets c ! i)")
      case Apply_Committed
      then show ?thesis using 2 True touch_trans [OF touch_flags(2)] by simp blast
    next
      case Apply_OnTrial
      then show ?thesis using 2 True touch_trans [OF touch_flags(3)] by simp blast
    next
      case Apply_Failed
      then show ?thesis
        using 2 True by (auto intro!: exI [of _ c] exI [of _ "Error UpdateFailed x" for x])
    qed (use 2 True in simp)
  qed
qed simp

text \<open>What one pass over a target establishes, whatever came before it.\<close>

definition trial_mark :: "image_state \<Rightarrow> machine_context \<Rightarrow> image_target \<Rightarrow> bool" where
  "trial_mark T c t \<longleftrightarrow> commit t = Commit_Client \<and> holds_in T t \<and> \<not> without_set_state c \<and>
     \<not> confirmed_in T t"

lemma holds_in_trial [simp]: "holds p (t\<lparr>in_trial := x\<rparr>) = holds p t"
  by (simp add: holds_def split: option.splits)

lemma boot_check_ok:
  assumes "boot_check i (c, rv, nb) = (c', rv', nb')" and "device c = Some T"
    and "i < length (targets c)"
  shows "touch c c' \<and> (\<forall>j. j \<noteq> i \<longrightarrow> targets c' ! j = targets c ! j) \<and>
    in_trial (targets c' ! i) = trial_mark T c (targets c ! i) \<and> (rv \<longrightarrow> rv') \<and> (nb \<longrightarrow> nb') \<and>
    (\<not> rv' \<longrightarrow> \<not> nb' \<longrightarrow> commit (targets c ! i) = Commit_Client \<longrightarrow> holds_in T (targets c ! i))"
proof -
  let ?c = "set_target i (\<lambda>t. t\<lparr>in_trial := False\<rparr>) c"
  have t1: "touch c ?c" by (rule touch_set_target) (simp add: tstatic_def)
  have t2: "touch d (set_target i (\<lambda>t. t\<lparr>in_trial := x t\<rparr>) d)" for d x
    by (rule touch_set_target) (simp add: tstatic_def)
  show ?thesis
    using assms t1 touch_trans [OF t1 t2] touch_trans [OF t1 touch_flags(4)]
    by (auto simp: boot_check_def Let_def trial_mark_def holds_in_def confirmed_in_def
        without_set_state_def set_target_def split: if_splits)
qed

lemma touch_trial_mark:
  assumes "touch c c'" and "i < length (targets c)"
  shows "trial_mark T c' (targets c' ! i) = trial_mark T c (targets c ! i)"
  using touch_in [OF assms] touchD(9) [OF assms(1)] by (simp add: trial_mark_def without_set_state_def)

lemma boot_fold_ok:
  assumes "fold boot_check is (c, rv, nb) = (c', rv', nb')" and "device c = Some T"
    and "distinct is" and "\<forall>i \<in> set is. i < length (targets c)"
  shows "touch c c' \<and> (\<forall>j. j \<notin> set is \<longrightarrow> targets c' ! j = targets c ! j) \<and>
    (\<forall>i \<in> set is. in_trial (targets c' ! i) = trial_mark T c (targets c ! i)) \<and>
    (rv \<longrightarrow> rv') \<and> (nb \<longrightarrow> nb') \<and>
    (\<not> rv' \<longrightarrow> \<not> nb' \<longrightarrow>
       (\<forall>i \<in> set is. commit (targets c ! i) = Commit_Client \<longrightarrow> holds_in T (targets c ! i)))"
  using assms
proof (induction "is" arbitrary: c rv nb)
  case (Cons i "is")
  obtain c1 rv1 nb1 where one: "boot_check i (c, rv, nb) = (c1, rv1, nb1)" by (metis prod_cases3)
  note * = boot_check_ok [OF one Cons.prems(2)]
  have t: "touch c c1" using * Cons.prems by simp
  note IH = Cons.IH [of c1 rv1 nb1]
  have r: "touch c1 c' \<and> (\<forall>j. j \<notin> set is \<longrightarrow> targets c' ! j = targets c1 ! j) \<and>
    (\<forall>i \<in> set is. in_trial (targets c' ! i) = trial_mark T c1 (targets c1 ! i)) \<and>
    (rv1 \<longrightarrow> rv') \<and> (nb1 \<longrightarrow> nb') \<and>
    (\<not> rv' \<longrightarrow> \<not> nb' \<longrightarrow>
       (\<forall>i \<in> set is. commit (targets c1 ! i) = Commit_Client \<longrightarrow> holds_in T (targets c1 ! i)))"
    using IH Cons.prems one touchD(1,14) [OF t] by simp
  show ?case
    using r * Cons.prems touch_trans [OF t] touch_trial_mark [OF t] touch_in [OF t] by auto
qed simp

lemma next_in_trial_from_bounds:
  "i \<le> next_in_trial_from ts i \<and> next_in_trial_from ts i \<le> i + length ts \<and>
   (next_in_trial_from ts i < i + length ts \<longrightarrow> in_trial (ts ! (next_in_trial_from ts i - i)))"
proof (induction ts arbitrary: i)
  case (Cons t ts)
  show ?case using Cons.IH [of "Suc i"] by (simp add: nth_Cons')
qed simp

lemma next_in_trial_none: "next_in_trial_from ts i = i + length ts \<longleftrightarrow> (\<forall>t \<in> set ts. \<not> in_trial t)"
proof (induction ts arbitrary: i)
  case (Cons t ts)
  show ?case using Cons.IH [of "Suc i"] by simp
qed simp

lemma next_in_trial_in:
  assumes "next_in_trial c k < length (targets c)"
  shows "in_trial (targets c ! next_in_trial c k)"
proof -
  have k: "k < length (targets c)" using assms by (simp add: next_in_trial_def split: if_splits)
  have "k + (next_in_trial_from (drop k (targets c)) k - k) = next_in_trial_from (drop k (targets c)) k"
    using next_in_trial_from_bounds [of k "drop k (targets c)"] by simp
  with k show ?thesis
    using assms next_in_trial_from_bounds [of k "drop k (targets c)"]
    by (auto simp: next_in_trial_def)
qed

lemma next_in_trial_any: "next_in_trial c 0 < length (targets c) \<longleftrightarrow> any_trial c"
  using next_in_trial_none [of "targets c" 0] next_in_trial_from_bounds [of 0 "targets c"]
  by (auto simp: next_in_trial_def any_trial_def order_le_less)

section \<open>Every decision re-establishes the invariant\<close>

lemma core_set_report:
  "core ts S c \<Longrightarrow> map rstatic (images (f (report c))) = map rstatic (images (report c)) \<Longrightarrow>
     core ts S (set_report f c)"
  by (simp add: core_def shape_def)

lemma core_update [simp]:
  "core ts S (c\<lparr>swap_scheduled := x\<rparr>) = core ts S c" "core ts S (c\<lparr>current := n\<rparr>) = core ts S c"
  "core ts S (c\<lparr>mark_retried := x\<rparr>) = core ts S c" "core ts S (c\<lparr>reset_forced := x\<rparr>) = core ts S c"
  "core ts S (c\<lparr>confirm_approved := x\<rparr>) = core ts S c" "core ts S (c\<lparr>buf_size := z\<rparr>) = core ts S c"
  "core ts S (c\<lparr>confirm_reread := x\<rparr>) = core ts S c" "core ts S (c\<lparr>no_downgrade := x\<rparr>) = core ts S c"
  "core ts S (c\<lparr>preconditions_checked := x\<rparr>) = core ts S c"
  "core ts S (c\<lparr>upload_in_progress := x\<rparr>) = core ts S c"
  "core ts S (c\<lparr>apply_poll := t\<rparr>) = core ts S c"
  by (simp_all add: core_def shape_def)

lemma clean_update [simp]:
  "clean (c\<lparr>swap_scheduled := x\<rparr>) = clean c" "clean (c\<lparr>current := n\<rparr>) = clean c"
  "clean (c\<lparr>mark_retried := x\<rparr>) = clean c" "clean (c\<lparr>preconditions_checked := x\<rparr>) = clean c"
  "clean (c\<lparr>upload_in_progress := x\<rparr>) = clean c"
  by (simp_all add: clean_def)

lemma touch_clean: "touch c c' \<Longrightarrow> clean c' = clean c"
  using touchD(6-8) [of c c'] by (simp add: clean_def)

lemma fail_ok:
  assumes "core ts S c" and "clean c"
  shows "step_ok ts S plan (fail_update c e)"
  using assms by (auto simp: update_simps fail_update_def intro!: core_set_report)

text \<open>\<open>confirmation_fork\<close>, with a trial to confirm and every device image running.\<close>

lemma confirmation_fork_ok:
  assumes "core ts S c" and "clean c" and "\<not> upload_in_progress c" and "\<not> upload_only plan"
    and "any_trial c" and "T \<in> S" and "devices_running T c"
  shows "step_ok ts S plan (confirmation_fork plan c)"
  using assms next_in_trial_any [of c] next_in_trial_in [of c 0]
  by (auto simp: confirmation_fork_def Let_def update_simps devices_running_def)

lemma devices_all:
  assumes "\<forall>i \<in> set [0..<length (targets c)]. commit (targets c ! i) = Commit_Device \<longrightarrow> P (targets c ! i)"
    and "t \<in> set (targets c)" and "commit t = Commit_Device"
  shows "P t"
  using assms by (metis atLeastLessThan_iff in_set_conv_nth le0 set_upt)

lemma await_commit_ok:
  assumes "core ts S c" and "clean c" and "\<not> upload_in_progress c" and "\<not> upload_only plan"
    and "\<not> swap_scheduled c" and "device c = Some T" and "\<exists>T \<in> S. clients_done T c"
  shows "step_ok ts S plan (await_commit c)"
proof (cases "commit_loop [0..<length (targets c)] False c")
  case (Inl p)
  then obtain c' e where "touch c c'" "targets c' = targets c" "p = fail_update c' e"
    using commit_loop_fails by blast
  then show ?thesis
    using Inl assms(1,2) fail_ok [of ts S c'] touch_clean [of c c'] touch_core_same [of c c']
    by (simp add: await_commit_def)
next
  case (Inr q)
  then obtain c' b where r: "commit_loop [0..<length (targets c)] False c = Inr (c', b)" by (cases q) auto
  note * = commit_loop_ok [OF r]
  then have t: "touch c c'" and ts: "targets c' = targets c" by auto
  have "core ts S c'" using touch_core_same [OF t ts assms(1)] .
  moreover have "clients_done T' c' = clients_done T' c" for T'
    using ts touchD(9) [OF t] by (simp add: clients_done_def without_set_state_def)
  moreover have "\<not> b \<Longrightarrow> devices_committed T c'"
    using * assms(6) ts devices_all [of c "\<lambda>t. holds_in T t \<and> confirmed_in T t"]
    by (simp add: devices_committed_def)
  ultimately show ?thesis
    using assms touch_clean [OF t] unfolding await_commit_def r
    by (cases b) (simp_all add: update_simps touchD [OF t])
qed


lemma await_device_ok:
  assumes core: "core ts S c" and "clean c" and "\<not> upload_in_progress c" and "\<not> upload_only plan"
    and "swap_scheduled c \<longleftrightarrow> any_trial c" and dev: "device c = Some T"
    and clients: "T' \<in> S" "clients_running T' c"
  shows "step_ok ts S plan (await_device plan c)"
proof (cases "device_loop [0..<length (targets c)] False c")
  case (Inl p)
  then obtain c' e where "touch c c'" "targets c' = targets c" "p = fail_update c' e"
    using device_loop_fails by blast
  then show ?thesis
    using Inl assms(1,2) fail_ok [of ts S c'] touch_clean [of c c'] touch_core_same [of c c']
    by (simp add: await_device_def)
next
  case (Inr q)
  then obtain c' b where r: "device_loop [0..<length (targets c)] False c = Inr (c', b)" by (cases q) auto
  note * = device_loop_ok [OF r]
  then have t: "touch c c'" and ts: "targets c' = targets c" by auto
  have core': "core ts S c'" using touch_core_same [OF t ts core] .
  have any: "any_trial c' = any_trial c" using ts by (simp add: any_trial_def)
  have cl: "clients_running T' c'"
    using clients(2) ts touchD(9) [OF t] by (simp add: clients_running_def without_set_state_def)
  have dv: "\<not> b \<Longrightarrow> devices_running T c'"
    using * dev ts devices_all [of c "holds_in T"] by (simp add: devices_running_def)
  have T: "T \<in> S" using core dev by (simp add: core_def)
  have fin: "\<not> any_trial c' \<Longrightarrow> clients_done T' c'"
    using cl by (auto simp: clients_done_def clients_running_def any_trial_def)
  note [simp] = touchD [OF t] touch_clean [OF t]
  consider "b" | "\<not> b" "\<not> swap_scheduled c" | "\<not> b" "swap_scheduled c" by blast
  then show ?thesis
  proof cases
    case 1
    then show ?thesis
      using assms core' cl any unfolding await_device_def r by (auto simp: update_simps)
  next
    case 2
    then show ?thesis
      using assms core' any fin await_commit_ok [OF core', of plan T]
      unfolding await_device_def r by auto
  next
    case 3
    then show ?thesis
      using assms core' any dv T confirmation_fork_ok [OF core', of plan T]
      unfolding await_device_def r by auto
  qed
qed

lemma inspect_boot_ok:
  assumes core: "core ts S c" and cl: "clean c" and up: "\<not> upload_in_progress c" "\<not> upload_only plan"
    and dev: "device c = Some T"
  shows "step_ok ts S plan (inspect_boot plan c)"
proof -
  let ?n = "length (targets c)"
  obtain c1 rv nb where fold: "fold boot_check [0..<?n] (c, False, False) = (c1, rv, nb)"
    by (metis prod_cases3)
  note * = boot_fold_ok [OF fold dev]
  have t: "touch c c1" and mark: "\<forall>i < ?n. in_trial (targets c1 ! i) = trial_mark T c (targets c ! i)"
    and hold: "\<not> rv \<Longrightarrow> \<not> nb \<Longrightarrow>
      \<forall>i < ?n. commit (targets c ! i) = Commit_Client \<longrightarrow> holds_in T (targets c ! i)"
    using * by auto
  define c' where "c' = c1\<lparr>swap_scheduled := nb \<or> next_in_trial c1 0 < length (targets c1)\<rparr>"
  have T: "T \<in> S" using core dev by (simp add: core_def)
  have mark1: "\<forall>i < length (targets c1). in_trial (targets c1 ! i) = trial_mark T c1 (targets c1 ! i)"
    using mark touch_trial_mark [OF t] touchD(14) [OF t] by simp
  then have m: "\<forall>t \<in> set (targets c1). in_trial t = trial_mark T c1 t"
    by (metis in_set_conv_nth)
  have core1: "core ts S c'"
    unfolding c'_def core_update using m by (intro touch_core [OF t core]) (simp add: trial_mark_def)
  have run: "\<not> rv \<Longrightarrow> \<not> nb \<Longrightarrow> clients_running T c'"
  proof -
    assume "\<not> rv" "\<not> nb"
    then have "\<forall>i < length (targets c1). commit (targets c1 ! i) = Commit_Client \<longrightarrow>
        holds_in T (targets c1 ! i)"
      using hold touch_in [OF t] touchD(14) [OF t] by simp
    then have "\<forall>t \<in> set (targets c1). commit t = Commit_Client \<longrightarrow> holds_in T t"
      by (metis in_set_conv_nth)
    then show ?thesis
      using m by (auto simp: clients_running_def c'_def trial_mark_def without_set_state_def)
  qed
  have [simp]: "clean c'" "\<not> upload_in_progress c'" "device c' = Some T"
    "swap_scheduled c' = (nb \<or> any_trial c')"
    using cl up dev touch_clean [OF t] touchD [OF t] next_in_trial_any [of c1]
    by (simp_all add: c'_def any_trial_def)
  have "step_ok ts S plan
      (if rv then fail_update c' (Error UpdateFailed ''dfu: device reverted to the old image'')
       else if nb then fail_update c' (Error UpdateFailed ''dfu: device did not boot the new image'')
       else await_device plan c')"
    using fail_ok [OF core1] await_device_ok [OF core1 _ _ up(2) _ _ T run] by simp
  then show ?thesis
    unfolding inspect_boot_def fold Let_def prod.case c'_def [symmetric] using fail_ok [OF core cl] by auto
qed

section \<open>Planning\<close>

text \<open>A context from which the planner may go on, under the plan.\<close>

definition plannable :: "target list \<Rightarrow> image_state set \<Rightarrow> update_plan \<Rightarrow> machine_context \<Rightarrow> bool" where
  "plannable ts S plan c \<longleftrightarrow> core ts S c \<and> clean c \<and> \<not> upload_in_progress c \<and> device c \<noteq> None \<and>
     (upload_only plan \<longrightarrow> \<not> swap_scheduled c)"

lemma plannable_update [simp]:
  "plannable ts S plan (c\<lparr>current := n\<rparr>) = plannable ts S plan c"
  "plannable ts S plan (c\<lparr>mark_retried := x\<rparr>) = plannable ts S plan c"
  "plannable ts S plan (c\<lparr>preconditions_checked := x\<rparr>) = plannable ts S plan c"
  by (simp_all add: plannable_def)

lemma plannable_swap:
  "plannable ts S plan c \<Longrightarrow> (upload_only plan \<longrightarrow> \<not> x) \<Longrightarrow>
     plannable ts S plan (c\<lparr>swap_scheduled := x\<rparr>)"
  by (simp add: plannable_def)

lemma plannable_touch:
  assumes "touch c c'" and "targets c' = targets c"
  shows "plannable ts S plan c \<Longrightarrow> plannable ts S plan c'"
  using touch_core_same [OF assms] touch_clean [OF assms(1)] touchD [OF assms(1)]
  by (simp add: plannable_def)

lemma plannable_set_image:
  "plannable ts S plan c \<Longrightarrow> (\<And>r. rstatic (f r) = rstatic r) \<Longrightarrow> plannable ts S plan (set_image i f c)"
  by (rule plannable_touch [of c]) (simp_all add: touch_set_image)

lemma plannable_marks [simp]:
  "plannable ts S plan c \<Longrightarrow> plannable ts S plan (set_image i (\<lambda>r. r\<lparr>r_upload_skipped := True\<rparr>) c)"
  "plannable ts S plan c \<Longrightarrow> plannable ts S plan (set_image i (\<lambda>r. r\<lparr>r_upload_slot := z\<rparr>) c)"
  by (rule plannable_set_image, simp, simp add: rstatic_def)+

lemma plannable_fail: "plannable ts S plan c \<Longrightarrow> step_ok ts S plan (fail_update c e)"
  by (simp add: plannable_def fail_ok)

lemma preconditions_cases:
  assumes "plannable ts S plan c" and "check_preconditions plan c = (c', r)"
  shows "r = None \<Longrightarrow> plannable ts S plan c' \<and> preconditions_checked c' \<and> current c' = current c \<and>
           targets c' = targets c \<and> device c' = device c \<and> report c' = report c \<and>
           swap_scheduled c' = swap_scheduled c"
    and "r = Some s \<Longrightarrow> step_ok ts S plan (c', s)"
proof -
  show "r = None \<Longrightarrow> plannable ts S plan c' \<and> preconditions_checked c' \<and> current c' = current c \<and>
      targets c' = targets c \<and> device c' = device c \<and> report c' = report c \<and>
      swap_scheduled c' = swap_scheduled c"
    using assms
    by (auto simp: check_preconditions_def Let_def fail_update_def split: if_splits option.splits)
next
  assume s: "r = Some s"
  have core: "core ts S (c\<lparr>preconditions_checked := True, report := r\<rparr>)"
    if "images r = images (report c)" for r
    using assms(1) that by (simp add: plannable_def core_def shape_def)
  show "step_ok ts S plan (c', s)"
    using assms s
    by (auto simp: check_preconditions_def Let_def fail_update_def set_report_def plannable_def
        update_simps core split: if_splits option.splits)
qed

lemma staged_ok:
  assumes "plannable ts S plan c"
  shows "step_ok ts S plan (staged plan c)"
proof (cases "upload_only plan")
  case True
  then show ?thesis using assms by (simp add: staged_def plannable_def update_simps)
next
  case False
  obtain T where "device c = Some T" using assms by (auto simp: plannable_def)
  then have "step_ok ts S plan (inspect_boot plan c)"
    using assms False inspect_boot_ok by (simp add: plannable_def)
  moreover obtain c' r where chk: "check_preconditions plan c = (c', r)" by fastforce
  note pc = preconditions_cases [OF assms chk]
  ultimately show ?thesis
    using False chk pc
    by (cases r) (simp_all add: staged_def, auto simp: plannable_def update_simps)
qed

lemma next_target_ok:
  assumes "plannable ts S plan c"
  shows "step_ok ts S plan (next_target plan c)"
  using assms staged_ok [of ts S plan "c\<lparr>current := Suc (current c), mark_retried := False\<rparr>"]
  by (simp add: next_target_def Let_def) (simp add: plannable_def update_simps)

lemma mark_or_skip_ok:
  assumes "plannable ts S plan c" and "\<not> upload_only plan" and "current c < length (targets c)"
    and "preconditions_checked c"
  shows "step_ok ts S plan (mark_or_skip plan c)"
  using assms next_target_ok [OF plannable_swap [of ts S plan c True]]
  by (auto simp: mark_or_skip_def) (simp add: plannable_def update_simps)

lemma plan_upload_ok:
  assumes "plannable ts S plan c" and "current c < length (targets c)"
  shows "step_ok ts S plan (plan_upload plan c)"
proof -
  obtain c' r where chk: "check_preconditions plan c = (c', r)" by fastforce
  note pc = preconditions_cases [OF assms(1) chk]
  show ?thesis
    using assms(2) chk pc
    by (cases r) (simp_all add: plan_upload_def, auto simp: plannable_def update_simps)
qed

lemma choose_build_cases:
  assumes "choose_build c = (c', r)"
  obtains (same) "c' = c" and "r = None"
  | (bad) e s where "fail_update c e = (c', s)" and "r = Some s"
  | (chosen) h ch v where "r = None" and "ch \<le> 1" and "builds (targets c ! current c) \<noteq> None"
      and "c' = set_image (current c) (\<lambda>r. r\<lparr>r_target_hash := h\<rparr>)
      (set_target (current c) (\<lambda>t. t\<lparr>chosen := ch, chosen_known := True, hash := h, version := v\<rparr>) c)"
proof (cases "builds (targets c ! current c)")
  case None
  then show thesis using assms same by (simp add: choose_build_def)
next
  case (Some bs)
  let ?img = "t_image (targets c ! current c)"
  define ch0 :: nat where "ch0 = (case active_of c ?img of None \<Rightarrow> 1
    | Some (j, running) \<Rightarrow> if slot_number running = ?img * 2 + 1 then 0 else 1)"
  define ch where "ch = fst (fold (consider_build c ?img bs) [0, 1] (ch0, False))"
  have "ch0 \<le> 1" by (simp add: ch0_def split: option.splits prod.splits)
  then have "ch \<le> 1"
    by (auto simp: ch_def consider_build_def Let_def split: option.splits prod.splits if_splits)
  let ?c = "set_image (current c) (\<lambda>r. r\<lparr>r_target_hash := b_hash (build_at bs ch)\<rparr>)
      (set_target (current c) (\<lambda>t. t\<lparr>chosen := ch, chosen_known := True, hash := b_hash (build_at bs ch),
         version := b_version (build_at bs ch)\<rparr>) c)"
  let ?f = "fail_update c (Error InvalidArgument ''dfu: one file per slot needs a direct-XIP device'')"
  have "choose_build c = (c, None) \<or> choose_build c = (fst ?f, Some (snd ?f)) \<or> choose_build c = (?c, None)"
    unfolding choose_build_def Let_def Some option.case ch0_def [symmetric] ch_def [symmetric]
    by (simp split: prod.splits)
  then show thesis
  proof (elim disjE)
    assume "choose_build c = (fst ?f, Some (snd ?f))"
    then show thesis using assms by (intro bad [of _ "snd ?f"]) auto
  next
    assume "choose_build c = (?c, None)"
    then show thesis using assms \<open>ch \<le> 1\<close> Some by (intro chosen) auto
  qed (use assms same in auto)
qed

lemma choose_build_ok:
  assumes "plannable ts S plan c" and "current c < length (targets c)" and "choose_build c = (c', r)"
  shows "r = None \<Longrightarrow> plannable ts S plan c' \<and> current c' = current c \<and>
           length (targets c') = length (targets c)"
    and "r = Some s \<Longrightarrow> step_ok ts S plan (c', s)"
proof -
  have core: "core ts S (set_image (current c) (\<lambda>r. r\<lparr>r_target_hash := h\<rparr>)
      (set_target (current c) (\<lambda>t. t\<lparr>chosen := ch, chosen_known := True, hash := h, version := v\<rparr>) c))"
    if "core ts S c" "ch \<le> 1" "builds (targets c ! current c) \<noteq> None" for h ch v
  proof -
    have len: "length (images (report c)) = length (targets c)"
      using that(1) map_eq_imp_length_eq by (fastforce simp: core_def shape_def)
    have sh: "rstatic (images (report c) ! i) = (t_image (targets c ! i), commit (targets c ! i), hash (targets c ! i))"
      if "i < length (targets c)" for i
      using \<open>core ts S c\<close> that len by (metis (no_types, lifting) core_def nth_map shape_def)
    let ?t = "(targets c ! current c)\<lparr>chosen := ch, chosen_known := True, hash := h, version := v\<rparr>"
    let ?r = "(images (report c) ! current c)\<lparr>r_target_hash := h\<rparr>"
    have "map (\<lambda>t. (t_image t, commit t, builds t)) ((targets c)[current c := ?t]) =
        map (\<lambda>t. (t_image t, commit t, builds t)) ts"
      using that map_update_same [of "\<lambda>t. (t_image t, commit t, builds t)" "\<lambda>t. ?t" "targets c"]
      by (simp add: core_def shape_def)
    moreover have "rstatic ?r = (t_image ?t, commit ?t, hash ?t)"
      using sh [OF assms(2)] by (simp add: rstatic_def)
    then have "map rstatic ((images (report c))[current c := ?r]) =
        map (\<lambda>t. (t_image t, commit t, hash t)) ((targets c)[current c := ?t])"
      using that by (simp add: map_update core_def shape_def)
    moreover have "\<forall>t \<in> set ((targets c)[current c := ?t]). in_trial t \<longrightarrow> commit t = Commit_Client"
    proof
      fix t assume "t \<in> set ((targets c)[current c := ?t])"
      then have "t = ?t \<or> t \<in> set (targets c)" using set_update_subset_insert by fastforce
      then show "in_trial t \<longrightarrow> commit t = Commit_Client"
        using that nth_mem [OF assms(2)] by (auto simp: core_def)
    qed
    moreover have "\<forall>t \<in> set ((targets c)[current c := ?t]). chosen t \<le> 1 \<and> (builds t = None \<longrightarrow> chosen t = 0)"
    proof
      fix t assume "t \<in> set ((targets c)[current c := ?t])"
      then have "t = ?t \<or> t \<in> set (targets c)" using set_update_subset_insert by fastforce
      then show "chosen t \<le> 1 \<and> (builds t = None \<longrightarrow> chosen t = 0)"
        using that by (auto simp: core_def shape_def)
    qed
    ultimately show ?thesis
      using that(1) by (simp add: core_def shape_def set_image_def set_report_def set_target_def)
  qed
  show "r = None \<Longrightarrow> plannable ts S plan c' \<and> current c' = current c \<and>
      length (targets c') = length (targets c)"
    using assms(3)
  proof (cases rule: choose_build_cases)
    case (chosen h ch v)
    have "clean c'" "\<not> upload_in_progress c'" "device c' = device c" "swap_scheduled c' = swap_scheduled c"
      using assms(1) by (simp_all add: chosen(4) plannable_def set_image_def set_target_def clean_def)
    moreover have "core ts S c'" using core chosen(2,3) assms(1) by (simp add: chosen(4) plannable_def)
    ultimately show ?thesis using assms(1) by (simp add: plannable_def) (simp add: chosen(4))
  qed (use assms(1) in auto)
  show "r = Some s \<Longrightarrow> step_ok ts S plan (c', s)"
    using assms(3)
  proof (cases rule: choose_build_cases)
    case (bad e s')
    then show "r = Some s \<Longrightarrow> ?thesis" using plannable_fail [OF assms(1), of e] by simp
  qed auto
qed

lemma plan_loop_ok:
  assumes "plannable ts S plan c0"
  shows "step_ok ts S plan (plan_loop plan c0)"
  using assms
proof (induction "length (targets c0) - current c0" arbitrary: c0 rule: less_induct)
  case less
  show ?case
  proof (cases "current c0 < length (targets c0)")
    case False
    then show ?thesis using staged_ok [OF less(2)] by (subst plan_loop.simps) simp
  next
    case True
    obtain c r where ch: "choose_build c0 = (c, r)" by fastforce
    show ?thesis
    proof (cases r)
      case (Some s)
      then show ?thesis
        using True ch choose_build_ok(2) [OF less(2) True ch] by (subst plan_loop.simps) simp
    next
      case None
      then have ok: "plannable ts S plan c" "current c < length (targets c)"
        and less': "length (targets c) - Suc (current c) < length (targets c0) - current c0"
        using choose_build_ok(1) [OF less(2) True ch] True by auto
      let ?skip = "set_image (current c) (\<lambda>r. r\<lparr>r_upload_skipped := True\<rparr>) c"
      have IH: "step_ok ts S plan (plan_loop plan (d\<lparr>current := Suc (current c)\<rparr>))"
        if "plannable ts S plan d" "targets d = targets c" for d
        using that less' by (intro less(1)) simp_all
      obtain c' r' where chk: "check_preconditions plan ?skip = (c', r')" by fastforce
      have pc: "step_ok ts S plan (case r' of Some refused \<Rightarrow> (c', refused) | None \<Rightarrow>
          mark_or_skip plan (set_image (current c) (\<lambda>r. r\<lparr>r_upload_slot := z\<rparr>) c'))"
        if "\<not> upload_only plan" for z
        using preconditions_cases [OF plannable_marks(1) [OF ok(1)] chk] ok that
        by (cases r') (auto intro!: mark_or_skip_ok)
      have sw: "upload_only plan \<longrightarrow> \<not> (swap_scheduled c \<or> \<not> upload_only plan)"
        using ok(1) by (simp add: plannable_def)
      have IH1: "step_ok ts S plan (plan_loop plan (?skip\<lparr>current := Suc (current c)\<rparr>))"
        by (rule IH) (simp_all add: ok)
      have IH2: "step_ok ts S plan (plan_loop plan
          ((set_image (current c) (\<lambda>r. r\<lparr>r_upload_slot := z\<rparr>) ?skip)
            \<lparr>swap_scheduled := swap_scheduled c \<or> \<not> upload_only plan, current := Suc (current c)\<rparr>))" for z
        by (rule IH) (simp_all add: ok plannable_swap [OF _ sw])
      show ?thesis
      proof (cases "slot_holding c (targets c ! current c)")
        case (Some p)
        then obtain i h where h: "slot_holding c (targets c ! current c) = Some (i, h)" by (cases p) auto
        consider "active_of c (t_image (targets c ! current c)) = Some (i, h)"
          | "Some (i, h) \<noteq> active_of c (t_image (targets c ! current c))" "pending h"
          | "Some (i, h) \<noteq> active_of c (t_image (targets c ! current c))" "\<not> pending h"
          by metis
        then show ?thesis
        proof cases
          case 1
          then show ?thesis using True ch None h IH1 by (subst plan_loop.simps) (simp add: Let_def)
        next
          case 2
          then show ?thesis using True ch None h IH2 by (subst plan_loop.simps) (simp add: Let_def)
        next
          case 3
          then show ?thesis
            using True ch None h IH1 plan_upload_ok [OF ok] chk pc
            by (subst plan_loop.simps) (auto simp: Let_def split: option.splits)
        qed
      qed (use True ch None plan_upload_ok [OF ok] in \<open>subst plan_loop.simps, simp add: Let_def\<close>)
    qed
  qed
qed

lemma plan_from_state_ok:
  assumes "plannable ts S plan c"
  shows "step_ok ts S plan (plan_from_state plan c)"
proof -
  let ?c = "set_report (\<lambda>r. r\<lparr>images := map (\<lambda>im. im\<lparr>r_upload_skipped := True\<rparr>) (images r)\<rparr>) c"
  obtain T where dev: "device c = Some T" using assms by (auto simp: plannable_def)
  have "core ts S ?c"
    using assms by (intro core_set_report) (simp_all add: plannable_def rstatic_def o_def)
  then have "\<not> upload_only plan \<Longrightarrow> step_ok ts S plan (inspect_boot plan ?c)"
    using assms dev by (intro inspect_boot_ok) (simp_all add: plannable_def clean_def)
  then show ?thesis using plan_loop_ok [OF assms] by (simp add: plan_from_state_def)
qed

section \<open>Every event\<close>

lemma with_table_simps [simp]:
  "device (with_table ev c) = ev_state ev" "targets (with_table ev c) = targets c"
  "current (with_table ev c) = current c" "report (with_table ev c) = report c"
  "swap_scheduled (with_table ev c) = swap_scheduled c"
  "upload_in_progress (with_table ev c) = upload_in_progress c"
  "preconditions_checked (with_table ev c) = preconditions_checked c"
  "clean (with_table ev c) = clean c" "any_trial (with_table ev c) = any_trial c"
  "clients_running T (with_table ev c) = clients_running T c"
  "clients_done T (with_table ev c) = clients_done T c"
  "devices_running T (with_table ev c) = devices_running T c"
  by (simp_all add: with_table_def clean_def any_trial_def clients_running_def clients_done_def
      devices_running_def without_set_state_def)

lemma with_table_core: "core ts S c \<Longrightarrow> ev_state ev = Some T \<Longrightarrow> T \<in> S \<Longrightarrow> core ts S (with_table ev c)"
  by (simp add: core_def shape_def)

lemma machine_inv_clean: "machine_inv ts S plan st c \<Longrightarrow> \<not> is_terminal st \<Longrightarrow> clean c"
  by (auto simp: machine_inv_def report_ok_def clean_def is_terminal_def)

lemma confirm_accepted_ok:
  assumes core: "core ts S c" and "clean c" and "\<not> upload_in_progress c" and "\<not> upload_only plan"
    and dev: "T \<in> S" "devices_running T c" and cur: "current c < length (targets c)"
  shows "step_ok ts S plan (confirm_accepted c)"
proof -
  define c1 where "c1 = set_target (current c) (\<lambda>t. t\<lparr>in_trial := False\<rparr>) c"
  have t: "touch c c1" unfolding c1_def by (rule touch_set_target) (simp add: tstatic_def)
  have sub: "\<forall>t \<in> set (targets c1). t \<in> set (targets c) \<or> t = (targets c ! current c)\<lparr>in_trial := False\<rparr>"
    unfolding c1_def set_target_def using set_update_subset_insert by fastforce
  have "core ts S c1"
    by (rule touch_core [OF t core]) (use sub core in \<open>auto simp: core_def\<close>)
  moreover have "devices_running T c1"
    using sub dev(2) nth_mem [OF cur] by (auto simp: devices_running_def holds_in_def)
  moreover have "next_in_trial c1 (current c1) < length (targets c1) \<Longrightarrow>
      in_trial (targets c1 ! next_in_trial c1 (current c1))"
    by (rule next_in_trial_in)
  ultimately show ?thesis
    using assms touch_clean [OF t]
    unfolding confirm_accepted_def c1_def [symmetric] Let_def
    by (auto simp: update_simps touchD [OF t] devices_running_def)
qed

lemma verify_confirmed_ok:
  assumes "core ts S c" and "clean c" and "\<not> upload_in_progress c" and "\<not> upload_only plan"
    and "\<not> swap_scheduled c" and dev: "device c = Some T"
  shows "step_ok ts S plan (verify_confirmed c)"
proof -
  have "T \<in> S" using assms(1) dev by (simp add: core_def)
  moreover have "list_all (client_confirmed c) (targets c) \<Longrightarrow> clients_done T c"
    using dev by (auto simp: clients_done_def client_confirmed_def list_all_iff holds_in_def confirmed_in_def)
  ultimately show ?thesis
    using assms await_commit_ok [of ts S c plan T] fail_ok [of ts S "c\<lparr>swap_scheduled := True\<rparr>"]
    by (auto simp: verify_confirmed_def)
qed

lemma wait_read_failed_ok:
  assumes "machine_inv ts S plan st c" and "clean c"
    and "st = State_AwaitingDeviceApply \<or> st = State_AwaitingDeviceCommit"
  shows "step_ok ts S plan (wait_read_failed st e c)"
proof -
  have "core ts S c" "\<not> upload_in_progress c" "\<not> upload_only plan"
    using assms by (auto simp: machine_inv_def state_ok_def)
  moreover have "legal_step st Effect_AwaitApply" using assms(3) by (auto simp: legal_step_def)
  moreover have "step_ok ts S plan (c, mk_step State_AwaitingReconnect Effect_RequestReconnect)"
    using calculation assms(2) by (simp add: update_simps)
  ultimately show ?thesis
    using assms fail_ok [of ts S c] by (simp add: wait_read_failed_def step_ok_mk_step)
qed

lemma confirm_failed_ok:
  assumes "core ts S c" and "clean c" and "\<not> upload_in_progress c" and "\<not> upload_only plan"
  shows "step_ok ts S plan (confirm_failed e c)"
  using assms fail_ok [of ts S "c\<lparr>swap_scheduled := True\<rparr>"]
  by (auto simp: confirm_failed_def Let_def) (auto simp: update_simps)

lemma apply_poll_simps [simp]:
  "any_trial (c\<lparr>apply_poll := p\<rparr>) = any_trial c"
  "clients_running T (c\<lparr>apply_poll := p\<rparr>) = clients_running T c"
  "clients_done T (c\<lparr>apply_poll := p\<rparr>) = clients_done T c"
  by (simp_all add: any_trial_def clients_running_def clients_done_def without_set_state_def)

lemma tick_ok:
  assumes inv: "machine_inv ts S plan st c"
  shows "step_ok ts S plan (tick st t c) \<or> tick st t c = (c, mk_step st Effect_None)"
proof (cases "is_terminal st")
  case True
  then show ?thesis by (auto simp: tick_def is_terminal_def)
next
  case False
  have cl: "clean c" using machine_inv_clean [OF inv False] .
  show ?thesis
  proof (cases "st = State_AwaitingDeviceApply \<or> st = State_AwaitingDeviceCommit")
    case True
    then have "machine_inv ts S plan st (c\<lparr>apply_poll := None\<rparr>)" "legal_step st Effect_ReadState"
      using inv
      by (auto simp: update_simps)
    then show ?thesis
      using True cl fail_ok [of ts S "c\<lparr>apply_poll := None\<rparr>"] inv
      by (auto simp: tick_def Let_def step_ok_mk_step machine_inv_def clean_def split: option.splits)
  next
    case other: False
    then show ?thesis
      using inv cl by (auto simp: tick_def update_simps split: option.splits)
  qed
qed

text \<open>The pieces of \<open>decide\<close> that need the invariant of their own state.\<close>

lemma state_ok_facts:
  assumes "machine_inv ts S plan st c"
  shows "st = State_Planning \<Longrightarrow> plannable ts S plan c"
    and "st = State_Uploading \<Longrightarrow> plannable ts S plan (c\<lparr>upload_in_progress := False\<rparr>)"
    and "st = State_VerifyingUpload \<or> st = State_MarkingForTest \<Longrightarrow> ev_state ev = Some T \<Longrightarrow> T \<in> S \<Longrightarrow>
      plannable ts S plan (with_table ev c)"
  using assms by (auto simp: machine_inv_def state_ok_def report_ok_def plannable_def clean_def
      intro!: with_table_core)

lemma upload_finished_ok:
  assumes inv: "machine_inv ts S plan State_Uploading c"
  shows "step_ok ts S plan (upload_finished ev plan c)"
proof -
  let ?c = "set_image (current c) (\<lambda>r. r\<lparr>r_bytes_transferred := transferred ev,
      r_upload_skipped := r_upload_skipped r \<or> already_present ev\<rparr>) (c\<lparr>upload_in_progress := False\<rparr>)"
  have p: "plannable ts S plan ?c"
    using state_ok_facts(2) [OF inv] by (rule plannable_set_image) (simp_all add: rstatic_def)
  moreover have "current c < length (targets c)" "preconditions_checked c"
    using inv by (auto simp: machine_inv_def state_ok_def)
  ultimately have "\<not> upload_only plan \<Longrightarrow>
      step_ok ts S plan (?c, mk_step State_VerifyingUpload Effect_ReadState)"
    by (simp add: plannable_def update_simps)
  then show ?thesis
    using next_target_ok [OF p] by (simp add: upload_finished_def Let_def)
qed

lemma verify_upload_ok:
  assumes "plannable ts S plan c" and "\<not> upload_only plan" and "current c < length (targets c)"
    and "preconditions_checked c"
  shows "step_ok ts S plan (verify_upload plan c)"
  using assms
  by (auto simp: verify_upload_def plannable_fail split: option.splits intro!: mark_or_skip_ok)

lemma record_mode_simps [simp]:
  "cause (record_mode m plan r) = cause r" "refusal (record_mode m plan r) = refusal r"
  "revert_pending (record_mode m plan r) = revert_pending r" "images (record_mode m plan r) = images r"
  by (simp_all add: record_mode_def split: option.splits)

lemma core_record_mode: "core ts S c \<Longrightarrow> core ts S (set_report (record_mode m plan) c)"
  by (rule core_set_report) simp_all

lemma clean_record_mode [simp]: "clean (set_report (record_mode m plan) c) = clean c"
  by (simp add: clean_def)

definition acts :: "event \<Rightarrow> bool" where
  "acts ev \<longleftrightarrow> kind ev \<noteq> Kind_Cancel \<and> kind ev \<noteq> Kind_Tick"

text \<open>The slot table of an event that carries one is among those seen.\<close>

definition table_seen :: "image_state set \<Rightarrow> event \<Rightarrow> bool" where
  "table_seen S ev \<longleftrightarrow> (carries_table (kind ev) \<longrightarrow> (\<exists>T \<in> S. ev_state ev = Some T))"

lemma table_seen_core:
  assumes "table_seen S ev" and "core ts S c"
    and "kind ev = Kind_StateRead \<or> kind ev = Kind_MarkedForTest \<or> kind ev = Kind_Confirmed"
  shows "\<exists>T. ev_state ev = Some T \<and> T \<in> S \<and> core ts S (with_table ev c)"
  using assms with_table_core [OF assms(2)] by (auto simp: table_seen_def carries_table_def)

lemma decide_query_ok:
  assumes inv: "machine_inv ts S plan st c" and ev: "acts ev" "table_seen S ev"
    and st: "st = State_Idle \<or> st = State_QueryingParameters \<or> st = State_QueryingBootloader \<or>
      st = State_InspectingImages \<or> st = State_Planning"
  shows "step_ok ts S plan (decide st ev plan c)"
proof -
  have core: "core ts S c" and cl: "clean c" and so: "state_ok S plan st c"
    using inv st by (auto simp: machine_inv_def report_ok_def clean_def)
  note bad = fail_ok [OF core cl]
  from st show ?thesis
  proof (elim disjE)
    assume "st = State_Planning"
    then show ?thesis
      using ev bad plan_from_state_ok [OF state_ok_facts(1) [OF inv]] by (simp add: decide_def acts_def illegal_def)
  next
    assume "st = State_InspectingImages"
    then show ?thesis
      using ev bad so cl table_seen_core [OF ev(2) core]
      by (auto simp: decide_def acts_def illegal_def) (auto simp: update_simps)
  next
    assume "st = State_QueryingBootloader"
    then show ?thesis
      using ev bad so cl core_record_mode [OF core] clean_record_mode [of _ plan c]
      by (auto simp: decide_def acts_def illegal_def bootloader_failed_def) (auto simp: update_simps)
  qed (use ev bad so cl core in \<open>auto simp: decide_def acts_def illegal_def\<close>, auto simp: update_simps)
qed

lemma decide_stage_ok:
  assumes inv: "machine_inv ts S plan st c" and ev: "acts ev" "table_seen S ev"
    and st: "st = State_Uploading \<or> st = State_VerifyingUpload \<or> st = State_MarkingForTest \<or>
      st = State_Resetting \<or> st = State_AwaitingDisconnect \<or> st = State_AwaitingReconnect"
  shows "step_ok ts S plan (decide st ev plan c)"
proof -
  have core: "core ts S c" and cl: "clean c" and so: "state_ok S plan st c"
    using inv st by (auto simp: machine_inv_def report_ok_def clean_def)
  note bad = fail_ok [OF core cl]
  from st show ?thesis
  proof (elim disjE)
    assume s: "st = State_Uploading"
    then show ?thesis
      using ev bad so cl core upload_finished_ok [OF inv [unfolded s]]
      by (auto simp: decide_def acts_def illegal_def) (auto simp: update_simps)
  next
    assume "st = State_VerifyingUpload"
    then show ?thesis
      using ev bad so table_seen_core [OF ev(2) core] state_ok_facts(3) [OF inv]
      by (auto simp: decide_def acts_def illegal_def state_ok_def intro!: verify_upload_ok)
  next
    assume "st = State_MarkingForTest"
    then show ?thesis
      using ev bad so cl core table_seen_core [OF ev(2) core] state_ok_facts(3) [OF inv]
      by (auto simp: decide_def acts_def illegal_def mark_refused_def state_ok_def
          intro!: next_target_ok plannable_swap) (auto simp: update_simps)
  qed (use ev bad so cl core in \<open>auto simp: decide_def acts_def illegal_def reset_refused_def\<close>,
      auto simp: update_simps)
qed

lemma decide_boot_ok:
  assumes inv: "machine_inv ts S plan st c" and ev: "acts ev" "table_seen S ev"
    and st: "st = State_VerifyingBooted \<or> st = State_AwaitingDeviceApply \<or>
      st = State_AwaitingDeviceCommit \<or> st = State_AwaitingConfirmation \<or>
      st = State_Confirming \<or> st = State_VerifyingConfirmed"
  shows "step_ok ts S plan (decide st ev plan c)"
proof -
  have core: "core ts S c" and cl: "clean c" and so: "state_ok S plan st c"
    and up: "\<not> upload_in_progress c" "\<not> upload_only plan"
    using inv st by (auto simp: machine_inv_def report_ok_def clean_def state_ok_def)
  note bad = fail_ok [OF core cl]
  note simps = decide_def acts_def illegal_def
  note tc = table_seen_core [OF ev(2) core]
  from st show ?thesis
  proof (elim disjE)
    assume "st = State_VerifyingBooted"
    then show ?thesis
      using ev bad cl up tc by (auto simp: simps intro!: inspect_boot_ok [where T = "the (ev_state ev)"])
  next
    assume s: "st = State_AwaitingDeviceApply"
    then obtain T' where "T' \<in> S" "clients_running T' c" using so by (auto simp: state_ok_def)
    then show ?thesis
      using s ev bad so cl up tc wait_read_failed_ok [OF inv cl]
      by (auto simp: simps state_ok_def intro!: await_device_ok [where T = "the (ev_state ev)"])
  next
    assume s: "st = State_AwaitingDeviceCommit"
    then show ?thesis
      using ev bad so cl up tc wait_read_failed_ok [OF inv cl]
      by (auto simp: simps state_ok_def intro!: await_commit_ok [where T = "the (ev_state ev)"])
  next
    assume "st = State_AwaitingConfirmation"
    then show ?thesis
      using ev bad so cl core by (auto simp: simps) (auto simp: update_simps devices_running_def)
  next
    assume s: "st = State_Confirming"
    then obtain T' where "T' \<in> S" "devices_running T' c" "current c < length (targets c)"
      using so by (auto simp: state_ok_def)
    then show ?thesis
      using s ev bad cl up tc confirm_failed_ok [OF core cl up]
      by (auto simp: simps intro!: confirm_accepted_ok)
  next
    assume "st = State_VerifyingConfirmed"
    then show ?thesis
      using ev bad so cl up tc confirm_failed_ok [OF core cl up]
      by (auto simp: simps state_ok_def intro!: verify_confirmed_ok [where T = "the (ev_state ev)"])
  qed
qed

lemma decide_ok:
  assumes inv: "machine_inv ts S plan st c" and table: "table_seen S ev"
  shows "step_ok ts S plan (decide st ev plan c) \<or> decide st ev plan c = (c, mk_step st Effect_None)"
proof (cases "acts ev \<and> \<not> is_terminal st")
  case True
  then show ?thesis
    using decide_query_ok [OF inv _ table] decide_stage_ok [OF inv _ table] decide_boot_ok [OF inv _ table]
    by (cases st) (auto simp: is_terminal_def)
next
  case False
  have "\<not> is_terminal st \<Longrightarrow> step_ok ts S plan
      (set_report (\<lambda>r. r\<lparr>revert_pending := swap_scheduled c\<rparr>) c, mk_step State_Cancelled Effect_Finish)"
    using inv machine_inv_clean [OF inv]
    by (auto simp: update_simps is_terminal_def intro!: core_set_report)
  then show ?thesis
    using False tick_ok [OF inv, of "now ev"] by (auto simp: decide_def acts_def is_terminal_def)
qed

section \<open>The machine keeps its invariant\<close>

lemma machine_inv_set_report:
  assumes "machine_inv ts S plan st c"
    and "images (f (report c)) = images (report c)" and "cause (f (report c)) = cause (report c)"
    and "refusal (f (report c)) = refusal (report c)"
    and "revert_pending (f (report c)) = revert_pending (report c)"
    and "bootloader_mode (f (report c)) = bootloader_mode (report c)"
  shows "machine_inv ts S plan st (set_report f c)"
proof -
  have same: "any_trial (set_report f c) = any_trial c"
    "clients_running T (set_report f c) = clients_running T c"
    "clients_done T (set_report f c) = clients_done T c"
    "devices_running T (set_report f c) = devices_running T c"
    "devices_committed T (set_report f c) = devices_committed T c" for T
    using assms(6) by (simp_all add: any_trial_def clients_running_def clients_done_def
        devices_running_def devices_committed_def without_set_state_def)
  show ?thesis
    using assms(1,2) core_set_report [of ts S c f]
    unfolding machine_inv_def state_ok_def report_ok_def same set_report_simps current_simps assms(3-5)
    by simp
qed

text \<open>Contexts that differ in the deadlines only.\<close>

definition untimed :: "machine_context \<Rightarrow> machine_context" where
  "untimed c = c\<lparr>grace_deadline := None, apply_poll := None, apply_deadline := None, apply_phase := None\<rparr>"

lemma untimed_simps [simp]:
  "report (untimed c) = report c" "swap_scheduled (untimed c) = swap_scheduled c"
  "device (untimed c) = device c" "upload_in_progress (untimed c) = upload_in_progress c"
  "current (untimed c) = current c" "targets (untimed c) = targets c"
  "preconditions_checked (untimed c) = preconditions_checked c" "reset_forced (untimed c) = reset_forced c"
  by (simp_all add: untimed_def)

lemma machine_inv_untimed: "machine_inv ts S plan st (untimed c) = machine_inv ts S plan st c"
proof -
  have same: "any_trial (untimed c) = any_trial c" "clients_running T (untimed c) = clients_running T c"
    "clients_done T (untimed c) = clients_done T c" "devices_running T (untimed c) = devices_running T c"
    "devices_committed T (untimed c) = devices_committed T c" "core ts S (untimed c) = core ts S c" for T
    by (simp_all add: any_trial_def clients_running_def clients_done_def
        devices_running_def devices_committed_def without_set_state_def core_def shape_def)
  show ?thesis
    unfolding machine_inv_def state_ok_def report_ok_def same untimed_simps by simp
qed

lemma keep_time_untimed: "untimed (keep_time s t plan c) = untimed c"
  by (simp add: untimed_def keep_time_def Let_def split: effect.split)

lemma summarise_inv: "machine_inv ts S plan st c \<Longrightarrow> machine_inv ts S plan st (summarise c)"
  by (auto simp: summarise_def Let_def intro!: machine_inv_set_report)

lemma parameterise_step:
  assumes "parameterise s c = (c', s')"
  shows "next_state s' = next_state s" "effect s' = effect s"
  using assms by (auto simp: parameterise_def Let_def split: effect.splits)

lemma parameterise_inv:
  "parameterise s c = (c', s') \<Longrightarrow> machine_inv ts S plan st c \<Longrightarrow> machine_inv ts S plan st c'"
  by (auto simp: parameterise_def Let_def split: effect.splits intro!: machine_inv_set_report)

lemma guarded_decide_ok:
  assumes inv: "machine_inv ts S (m_plan m) (m_state m) (m_context m)"
    and table: "\<forall>T. ev_state ev = Some T \<longrightarrow> T \<in> S"
  shows "step_ok ts S (m_plan m) (guarded_decide m ev) \<or>
    guarded_decide m ev = (m_context m, mk_step (m_state m) Effect_None)"
proof (cases "is_terminal (m_state m) \<or> \<not> carries_table (kind ev) \<or> ev_state ev \<noteq> None")
  case True
  have decide: "step_ok ts S (m_plan m) (decide (m_state m) ev (m_plan m) (m_context m)) \<or>
      decide (m_state m) ev (m_plan m) (m_context m) = (m_context m, mk_step (m_state m) Effect_None)"
  proof (cases "is_terminal (m_state m)")
    case True
    then show ?thesis
      using tick_ok [OF inv, of "now ev"] by (auto simp: decide_def is_terminal_def)
  next
    case False
    then have "table_seen S ev" using \<open>_ \<or> _\<close> table by (auto simp: table_seen_def)
    then show ?thesis using decide_ok [OF inv] by blast
  qed
  have fail: "\<not> is_terminal (m_state m) \<Longrightarrow> step_ok ts S (m_plan m) (fail_update (m_context m) e)" for e
    using fail_ok machine_inv_clean [OF inv] inv by (simp add: machine_inv_def)
  show ?thesis
    using decide fail True by (auto simp: guarded_decide_def Let_def no_image_def)
next
  case False
  then show ?thesis
    using fail_ok [OF _ machine_inv_clean [OF inv]] inv
    by (auto simp: guarded_decide_def Let_def no_image_def machine_inv_def)
qed

text \<open>A step that names the current target is into a state that has one.\<close>

lemma step_ok_names_current:
  "step_ok ts S plan (c, s) \<Longrightarrow> names_current (effect s) \<Longrightarrow> current c < length (targets c)"
  by (cases "next_state s")
    (auto simp: step_ok_def machine_inv_def state_ok_def legal_step_def names_current_def)

lemma machine_apply_parts:
  assumes run: "machine_apply m ev = (m', s)"
    and inv: "machine_inv ts S (m_plan m) (m_state m) (m_context m)"
    and table: "\<forall>T. ev_state ev = Some T \<longrightarrow> T \<in> S"
  obtains c1 s1 c3 where "guarded_decide m ev = (c1, s1)"
    and "step_ok ts S (m_plan m) (c1, s1) \<or> c1 = m_context m \<and> s1 = mk_step (m_state m) Effect_None"
    and "parameterise s1 (summarise c1) = (c3, s)" and "next_state s = next_state s1"
    and "effect s = effect s1"
    and "m' = m\<lparr>m_state := next_state s, m_context := keep_time s (now ev) (m_plan m) c3\<rparr>"
proof -
  obtain c1 s1 where g: "guarded_decide m ev = (c1, s1)" by fastforce
  have ok: "step_ok ts S (m_plan m) (c1, s1) \<or> c1 = m_context m \<and> s1 = mk_step (m_state m) Effect_None"
    using guarded_decide_ok [OF inv table] g by auto
  then have "\<not> (names_current (effect s1) \<and> current c1 \<ge> length (targets c1))"
    using step_ok_names_current [of ts S "m_plan m" c1 s1] by (auto simp: names_current_def)
  then obtain c3 where p: "parameterise s1 (summarise c1) = (c3, s)"
    and m': "m' = m\<lparr>m_state := next_state s, m_context := keep_time s (now ev) (m_plan m) c3\<rparr>"
    using run g by (auto simp: machine_apply_def split: prod.splits if_splits)
  show thesis using that [OF g ok p parameterise_step [OF p] m'] .
qed

lemma machine_apply_inv:
  assumes run: "machine_apply m ev = (m', s)"
    and inv: "machine_inv ts S (m_plan m) (m_state m) (m_context m)"
    and table: "\<forall>T. ev_state ev = Some T \<longrightarrow> T \<in> S"
  shows "m_plan m' = m_plan m \<and> m_state m' = next_state s \<and>
    machine_inv ts S (m_plan m) (m_state m') (m_context m') \<and>
    (legal_step (m_state m') (effect s) \<or> m_state m' = m_state m \<and> effect s = Effect_None)"
  using run inv table
proof (cases rule: machine_apply_parts)
  case (1 c1 s1 c3)
  have "machine_inv ts S (m_plan m) (next_state s1) c1"
    using 1(2) inv by (auto simp: step_ok_def)
  then have "machine_inv ts S (m_plan m) (next_state s) c3"
    using parameterise_inv [OF 1(3) summarise_inv] 1(4) by simp
  then have "machine_inv ts S (m_plan m) (next_state s) (keep_time s (now ev) (m_plan m) c3)"
    using machine_inv_untimed keep_time_untimed by metis
  then show ?thesis using 1 by (auto simp: step_ok_def)
qed

section \<open>Runs\<close>

text \<open>The machines a run of events reaches, with the events and the steps they led to.\<close>

inductive run :: "target list \<Rightarrow> update_plan \<Rightarrow> machine \<Rightarrow> (event \<times> machine_step) list \<Rightarrow> bool"
  for ts :: "target list" and plan :: update_plan where
  init: "run ts plan (Machine ts plan) []"
| step: "run ts plan m tr \<Longrightarrow> machine_apply m ev = (m', s) \<Longrightarrow> run ts plan m' (tr @ [(ev, s)])"

inductive_cases run_snocE: "run ts plan m (tr @ [(ev, s)])"

definition tables :: "(event \<times> machine_step) list \<Rightarrow> image_state set" where
  "tables tr = {T. \<exists>(ev, s) \<in> set tr. ev_state ev = Some T}"

lemma tables_snoc: "tables (tr @ [(ev, s)]) = tables tr \<union> {T. ev_state ev = Some T}"
  by (auto simp: tables_def)

lemma machine_inv_mono:
  assumes "machine_inv ts S plan st c" and "S \<subseteq> S'"
  shows "machine_inv ts S' plan st c"
proof -
  have "core ts S' c" using assms by (auto simp: machine_inv_def core_def)
  moreover have "state_ok S' plan st c"
    using assms by (auto simp: machine_inv_def state_ok_def split: update_state.splits)
  ultimately show ?thesis using assms(1) by (simp add: machine_inv_def)
qed

lemma Machine_inv: "machine_inv ts S plan State_Idle (m_context (Machine ts plan))"
  by (simp add: machine_inv_def core_def shape_def report_ok_def state_ok_def Machine_def no_report_def
      rstatic_def target.defs)

lemma run_inv:
  assumes "run ts plan m tr"
  shows "m_plan m = plan \<and> machine_inv ts (tables tr) plan (m_state m) (m_context m)"
  using assms
proof induction
  case init
  then show ?case using Machine_inv by (simp add: Machine_def)
next
  case (step m tr ev m' s)
  have "machine_inv ts (tables (tr @ [(ev, s)])) (m_plan m) (m_state m) (m_context m)"
    using step.IH by (auto simp: tables_snoc intro: machine_inv_mono)
  then show ?case
    using machine_apply_inv [OF step.hyps(2), of ts "tables (tr @ [(ev, s)])"] step.IH
    by (auto simp: tables_snoc)
qed

lemma run_step_inv:
  assumes "run ts plan m tr" and "machine_apply m ev = (m', s)"
  shows "m_plan m = plan" "machine_inv ts (tables (tr @ [(ev, s)])) plan (m_state m) (m_context m)"
    "machine_inv ts (tables (tr @ [(ev, s)])) plan (m_state m') (m_context m')"
    "\<forall>T. ev_state ev = Some T \<longrightarrow> T \<in> tables (tr @ [(ev, s)])"
  using run_inv [OF assms(1)] run_inv [OF run.step [OF assms]]
  by (auto simp: tables_snoc intro: machine_inv_mono)

text \<open>A finished machine ignores every event.\<close>

lemma decide_terminal: "is_terminal st \<Longrightarrow> decide st ev plan c = (c, mk_step st Effect_None)"
  by (auto simp: decide_def tick_def is_terminal_def)

lemma terminal_decide:
  "is_terminal (m_state m) \<Longrightarrow> guarded_decide m ev = (m_context m, mk_step (m_state m) Effect_None)"
  by (simp add: guarded_decide_def Let_def decide_terminal)

lemma summarise_simps [simp]:
  "targets (summarise c) = targets c" "current (summarise c) = current c" "device (summarise c) = device c"
  "images (report (summarise c)) = images (report c)" "cause (report (summarise c)) = cause (report c)"
  "final_state (report (summarise c)) = final_state (report c)"
  "final_device_state (report (summarise c)) = final_device_state (report c)"
  "refusal (report (summarise c)) = refusal (report c)" "buf_size (summarise c) = buf_size c"
  "preconditions_checked (summarise c) = preconditions_checked c" "reset_forced (summarise c) = reset_forced c"
  "summarise (summarise c) = summarise c"
  by (simp_all add: summarise_def Let_def set_report_def)

lemma keep_time_simps [simp]:
  "targets (keep_time s t plan c) = targets c" "current (keep_time s t plan c) = current c"
  "device (keep_time s t plan c) = device c" "report (keep_time s t plan c) = report c"
  "preconditions_checked (keep_time s t plan c) = preconditions_checked c"
  "reset_forced (keep_time s t plan c) = reset_forced c"
  using untimed_simps [of "keep_time s t plan c"] untimed_simps [of c]
  by (metis keep_time_untimed)+

lemma terminal_apply:
  assumes "is_terminal (m_state m)" and "machine_apply m ev = (m', s)"
  shows "m_state m' = m_state m \<and> s = mk_step (m_state m) Effect_None \<and>
    m_context m' = keep_time s (now ev) (m_plan m) (summarise (m_context m))"
  using assms terminal_decide [OF assms(1), of ev]
  by (auto simp: machine_apply_def names_current_def parameterise_def mk_step_def split: prod.splits)

lemma run_final:
  assumes "run ts plan m tr"
  shows "is_terminal (m_state m) \<longrightarrow> final_state (report (m_context m)) = m_state m \<and>
    final_device_state (report (m_context m)) = device (m_context m)"
  using assms
proof induction
  case init
  then show ?case by (simp add: Machine_def is_terminal_def)
next
  case (step m tr ev m' s)
  show ?case
  proof (cases "is_terminal (m_state m)")
    case True
    then show ?thesis using step terminal_apply [OF True step.hyps(2)] by simp
  next
    case False
    note inv = run_step_inv [OF step.hyps]
    from step.hyps(2) inv(2) [folded inv(1)] inv(4) show ?thesis
    proof (cases rule: machine_apply_parts)
      case (1 c1 s1 c3)
      have "is_terminal (next_state s) \<Longrightarrow> effect s1 = Effect_Finish"
        using 1(2,4) False by (auto simp: step_ok_def legal_step_def is_terminal_def)
      then show ?thesis using 1(3,4,6) by (auto simp: parameterise_def Let_def)
    qed
  qed
qed

end
