(* ===== verification/UpdateSafety.thy ===== *)
theory UpdateSafety
  imports UpdateInvariant
begin

text \<open>
  The properties of the update machine over its runs: what completion, confirmation and refusal
  mean for the device, that an update ends once, that its effects name images of the update,
  that its recovery budgets are spent at most once, and its deadlines.
\<close>

section \<open>What a decision leaves alone\<close>

text \<open>
  The deadlines and the reset budget (\<open>timing\<close>), and with them the refusal checks
  (\<open>checks\<close>): only \<open>check_preconditions\<close>, while they have not run, touches the latter.
\<close>

definition timing :: "machine_context \<Rightarrow> bool \<times> time_point option \<times> time_point option \<times>
    time_point option \<times> update_state option" where
  "timing c = (reset_forced c, grace_deadline c, apply_poll c, apply_deadline c, apply_phase c)"

definition checks :: "machine_context \<Rightarrow> (bool \<times> time_point option \<times> time_point option \<times>
    time_point option \<times> update_state option) \<times> bool \<times> refusal option" where
  "checks c = (timing c, preconditions_checked c, refusal (report c))"

definition quiet :: "machine_context \<Rightarrow> machine_context \<Rightarrow> bool" where
  "quiet c c' \<longleftrightarrow> timing c' = timing c \<and> (preconditions_checked c \<longrightarrow> checks c' = checks c)"

lemma checks_update [simp]:
  "checks (c\<lparr>swap_scheduled := x\<rparr>) = checks c" "checks (c\<lparr>current := n\<rparr>) = checks c"
  "checks (c\<lparr>mark_retried := x\<rparr>) = checks c" "checks (c\<lparr>confirm_approved := x\<rparr>) = checks c"
  "checks (c\<lparr>buf_size := z\<rparr>) = checks c" "checks (c\<lparr>confirm_reread := x\<rparr>) = checks c"
  "checks (c\<lparr>no_downgrade := x\<rparr>) = checks c" "checks (c\<lparr>upload_in_progress := x\<rparr>) = checks c"
  "checks (with_table ev c) = checks c" "checks (set_target i f c) = checks c"
  "checks (set_image i g c) = checks c"
  by (simp_all add: checks_def timing_def with_table_def set_target_def set_image_def set_report_def)

lemma checks_set_report [simp]:
  "refusal (f (report c)) = refusal (report c) \<Longrightarrow> checks (set_report f c) = checks c"
  by (simp add: checks_def timing_def set_report_def)

lemma checks_touch: "touch c c' \<Longrightarrow> checks c' = checks c"
  by (auto simp: touch_def checks_def timing_def)

lemma checks_fail [simp]: "checks (fst (fail_update c e)) = checks c"
  by (simp add: fail_update_def)

lemma checks_illegal [simp]: "checks (fst (illegal c)) = checks c" "checks (fst (no_image c)) = checks c"
  by (simp_all add: illegal_def no_image_def)

lemma checks_await_commit [simp]: "checks (fst (await_commit c)) = checks c"
proof (cases "commit_loop [0..<length (targets c)] False c")
  case (Inl p)
  then show ?thesis using commit_loop_fails [OF Inl] checks_touch by (auto simp: await_commit_def)
next
  case (Inr q)
  then show ?thesis
    using commit_loop_ok [of "[0..<length (targets c)]" False c "fst q" "snd q"] checks_touch
    by (auto simp: await_commit_def split: prod.splits)
qed

lemma checks_confirmation_fork [simp]: "checks (fst (confirmation_fork plan c)) = checks c"
  by (simp add: confirmation_fork_def Let_def)

lemma checks_await_device [simp]: "checks (fst (await_device plan c)) = checks c"
proof (cases "device_loop [0..<length (targets c)] False c")
  case (Inl p)
  then show ?thesis using device_loop_fails [OF Inl] checks_touch by (auto simp: await_device_def)
next
  case (Inr q)
  then show ?thesis
    using device_loop_ok [of "[0..<length (targets c)]" False c "fst q" "snd q"] checks_touch
    by (auto simp: await_device_def split: prod.splits)
qed

lemma checks_boot_check: "checks (fst (boot_check i (c, rv, nb))) = checks c"
  by (auto simp: boot_check_def Let_def)

lemma checks_boot_fold: "checks (fst (fold boot_check is s)) = checks (fst s)"
proof (induction "is" arbitrary: s)
  case (Cons i "is")
  then show ?case using checks_boot_check [of i "fst s" "fst (snd s)" "snd (snd s)"] by simp
qed simp

lemma checks_inspect_boot [simp]: "checks (fst (inspect_boot plan c)) = checks c"
  using checks_boot_fold [of "[0..<length (targets c)]" "(c, False, False)"]
  by (auto simp: inspect_boot_def Let_def split: prod.splits)

lemma checks_late [simp]:
  "checks (fst (wait_read_failed st e c)) = checks c" "checks (fst (confirm_failed e c)) = checks c"
  "checks (fst (confirm_accepted c)) = checks c" "checks (fst (verify_confirmed c)) = checks c"
  "checks (fst (mark_refused e c)) = checks c" "checks (fst (bootloader_failed e plan c)) = checks c"
  by (simp_all add: wait_read_failed_def confirm_failed_def confirm_accepted_def verify_confirmed_def
      mark_refused_def bootloader_failed_def Let_def)

lemma checks_choose_build: "choose_build c = (c', r) \<Longrightarrow> checks c' = checks c"
  by (erule choose_build_cases) (auto simp: fail_update_def)

section \<open>What the refusal checks may change\<close>

lemma quiet_refl [simp]: "quiet c c"
  by (simp add: quiet_def)

lemma quiet_checks: "checks c' = checks c \<Longrightarrow> quiet c c'"
  by (simp add: quiet_def checks_def)

lemma quiet_trans: "quiet c c' \<Longrightarrow> quiet c' c'' \<Longrightarrow> quiet c c''"
  by (auto simp: quiet_def checks_def)

lemma quiet_check_preconditions: "check_preconditions plan c = (c', r) \<Longrightarrow> quiet c c'"
  by (auto simp: check_preconditions_def Let_def quiet_def timing_def fail_update_def set_report_def
      split: if_splits option.splits)

lemma quiet_staged: "quiet c (fst (staged plan c))"
proof -
  obtain c' r where chk: "check_preconditions plan c = (c', r)" by fastforce
  then show ?thesis
    using quiet_check_preconditions [OF chk] by (auto simp: staged_def quiet_checks split: option.splits)
qed

lemma quiet_next_target: "quiet c (fst (next_target plan c))"
  using quiet_trans [OF _ quiet_staged [of "c\<lparr>current := Suc (current c), mark_retried := False\<rparr>" plan], of c]
  by (simp add: next_target_def Let_def quiet_checks)

lemma quiet_mark_or_skip: "quiet c (fst (mark_or_skip plan c))"
  using quiet_trans [OF _ quiet_next_target [of "c\<lparr>swap_scheduled := True\<rparr>" plan], of c]
  by (simp add: mark_or_skip_def quiet_checks)

lemma quiet_plan_upload: "quiet c (fst (plan_upload plan c))"
proof -
  obtain c' r where chk: "check_preconditions plan c = (c', r)" by fastforce
  then show ?thesis
    using quiet_trans [OF quiet_check_preconditions [OF chk], of "c'\<lparr>upload_in_progress := True\<rparr>"]
      quiet_check_preconditions [OF chk]
    by (auto simp: plan_upload_def quiet_checks split: option.splits)
qed

lemma quiet_plan_loop: "quiet c0 (fst (plan_loop plan c0))"
proof (induction "length (targets c0) - current c0" arbitrary: c0 rule: less_induct)
  case less
  show ?case
  proof (cases "current c0 < length (targets c0)")
    case False
    then show ?thesis using quiet_staged by (subst plan_loop.simps) simp
  next
    case True
    obtain c r where ch: "choose_build c0 = (c, r)" by fastforce
    have q: "quiet c0 c" using checks_choose_build [OF ch] by (rule quiet_checks)
    have m: "length (targets c) - Suc (current c) < length (targets c0) - current c0"
      using choose_build_measure [OF ch] True by simp
    have IH: "quiet c0 (fst (plan_loop plan (d\<lparr>current := Suc (current c)\<rparr>)))"
      if "checks d = checks c" "targets d = targets c" for d
      using that m quiet_trans [OF quiet_trans [OF q quiet_checks] less(1)] by simp
    let ?skip = "set_image (current c) (\<lambda>r. r\<lparr>r_upload_skipped := True\<rparr>) c"
    obtain c' r' where chk: "check_preconditions plan ?skip = (c', r')" by fastforce
    have q': "quiet c0 c'"
      using quiet_trans [OF quiet_trans [OF q quiet_checks] quiet_check_preconditions [OF chk]] by simp
    then have q'': "quiet c0 (fst (mark_or_skip plan (set_image (current c) f c')))" for f
      using quiet_trans [OF quiet_trans [OF _ quiet_checks] quiet_mark_or_skip] by simp
    show ?thesis
      using True ch q q' q'' chk quiet_trans [OF q quiet_plan_upload [of c plan]] IH
      by (subst plan_loop.simps) (auto simp: Let_def split: option.splits prod.splits)
  qed
qed

lemma quiet_plan_from_state: "quiet c (fst (plan_from_state plan c))"
proof -
  let ?c = "set_report (\<lambda>r. r\<lparr>images := map (\<lambda>im. im\<lparr>r_upload_skipped := True\<rparr>) (images r)\<rparr>) c"
  have "checks (fst (inspect_boot plan ?c)) = checks c" by simp
  then show ?thesis using quiet_plan_loop quiet_checks by (simp add: plan_from_state_def)
qed

lemma quiet_upload_finished: "quiet c (fst (upload_finished ev plan c))"
  using quiet_trans [OF quiet_checks quiet_next_target] by (simp add: upload_finished_def Let_def quiet_checks)

lemma quiet_verify_upload: "quiet c (fst (verify_upload plan c))"
  using quiet_trans [OF quiet_checks quiet_mark_or_skip]
  by (simp add: verify_upload_def quiet_checks split: option.splits)

lemma quiet_with: "quiet (with_table ev c) d \<Longrightarrow> quiet c d" "quiet (c\<lparr>swap_scheduled := x\<rparr>) d \<Longrightarrow> quiet c d"
  using quiet_trans [OF quiet_checks] by (metis checks_update)+

lemma quiet_fst_simps [simp]:
  "quiet c (fst (fail_update c e))" "quiet c (fst (illegal c))"
  by (simp_all add: quiet_checks)

text \<open>Away from ticks and resets, a decision keeps the deadlines and the reset budget, and the
  refusal checks once they have run.\<close>

lemma decide_quiet:
  assumes "acts ev" and "st \<noteq> State_Resetting"
  shows "quiet c (fst (decide st ev plan c))"
  using assms quiet_plan_from_state [of c plan] quiet_upload_finished [of c ev plan]
    quiet_with(1) [OF quiet_verify_upload] quiet_with [OF quiet_with(2) [OF quiet_next_target]]
  by (cases st) (simp_all add: decide_def acts_def quiet_checks)

lemma decide_resetting:
  assumes "acts ev" and "decide State_Resetting ev plan c = (c', s)"
  shows "snd (timing c') = snd (timing c)" "preconditions_checked c' = preconditions_checked c"
    "refusal (report c') = refusal (report c)"
    "reset_forced c' \<longleftrightarrow> reset_forced c \<or> effect s = Effect_ForceReset"
    "effect s = Effect_ForceReset \<Longrightarrow> \<not> reset_forced c"
  using assms
  by (auto simp: decide_def acts_def reset_refused_def illegal_def fail_update_def timing_def
      set_report_def split: if_splits)

section \<open>States after the reset\<close>

text \<open>Past the reset, or in the confirmation window, an update does not go back to staging
  unless it has an upload to resume.\<close>

definition late :: "update_state \<Rightarrow> bool" where
  "late st \<longleftrightarrow> st = State_AwaitingReconnect \<or> st = State_VerifyingBooted \<or>
     st = State_AwaitingDeviceApply \<or> st = State_AwaitingConfirmation \<or> st = State_Confirming \<or>
     st = State_VerifyingConfirmed \<or> st = State_AwaitingDeviceCommit \<or> is_terminal st"

definition waiting :: "update_state \<Rightarrow> bool" where
  "waiting st \<longleftrightarrow> st = State_AwaitingDeviceApply \<or> st = State_AwaitingDeviceCommit"

definition late_step :: "machine_context \<Rightarrow> machine_context \<times> machine_step \<Rightarrow> bool" where
  "late_step c p \<longleftrightarrow> late (next_state (snd p)) \<and> effect (snd p) \<noteq> Effect_Reset \<and>
     effect (snd p) \<noteq> Effect_ForceReset \<and>
     (waiting (next_state (snd p)) \<longrightarrow> effect (snd p) = Effect_AwaitApply) \<and>
     upload_in_progress (fst p) = upload_in_progress c"

lemma late_step_mk [simp]:
  "late_step c (c', mk_step st e) \<longleftrightarrow> late st \<and> e \<noteq> Effect_Reset \<and> e \<noteq> Effect_ForceReset \<and>
     (waiting st \<longrightarrow> e = Effect_AwaitApply) \<and> upload_in_progress c' = upload_in_progress c"
  by (simp add: late_step_def)

lemma late_simps [simp]:
  "late State_AwaitingReconnect" "late State_VerifyingBooted" "late State_AwaitingDeviceApply"
  "late State_AwaitingConfirmation" "late State_Confirming" "late State_VerifyingConfirmed"
  "late State_AwaitingDeviceCommit" "late State_Completed" "late State_Failed" "late State_Cancelled"
  by (simp_all add: late_def is_terminal_def)

lemma waiting_simps [simp]:
  "waiting State_AwaitingDeviceApply" "waiting State_AwaitingDeviceCommit" "\<not> waiting State_Idle"
  "\<not> waiting State_QueryingParameters" "\<not> waiting State_QueryingBootloader"
  "\<not> waiting State_InspectingImages" "\<not> waiting State_Planning" "\<not> waiting State_Uploading"
  "\<not> waiting State_VerifyingUpload" "\<not> waiting State_MarkingForTest" "\<not> waiting State_Resetting"
  "\<not> waiting State_AwaitingDisconnect" "\<not> waiting State_AwaitingReconnect"
  "\<not> waiting State_VerifyingBooted" "\<not> waiting State_AwaitingConfirmation"
  "\<not> waiting State_Confirming" "\<not> waiting State_VerifyingConfirmed" "\<not> waiting State_Completed"
  "\<not> waiting State_Failed" "\<not> waiting State_Cancelled"
  by (simp_all add: waiting_def)

lemma late_fail [simp]:
  "late_step c (fail_update c' e) \<longleftrightarrow> upload_in_progress c' = upload_in_progress c"
  "late_step c (illegal c)" "late_step c (no_image c)"
  by (simp_all add: illegal_def no_image_def fail_update_def)

lemma late_await_commit [simp]:
  "late_step c (await_commit c') \<longleftrightarrow> upload_in_progress c' = upload_in_progress c"
proof (cases "commit_loop [0..<length (targets c')] False c'")
  case (Inl p)
  then show ?thesis using commit_loop_fails [OF Inl] touchD(4) by (auto simp: await_commit_def)
next
  case (Inr q)
  then show ?thesis
    using commit_loop_ok [of "[0..<length (targets c')]" False c' "fst q" "snd q"] touchD(4) [of c' "fst q"]
    by (auto simp: await_commit_def split: prod.splits)
qed

lemma late_await_device [simp]:
  "late_step c (await_device plan c') \<longleftrightarrow> upload_in_progress c' = upload_in_progress c"
proof (cases "device_loop [0..<length (targets c')] False c'")
  case (Inl p)
  then show ?thesis using device_loop_fails [OF Inl] touchD(4) by (auto simp: await_device_def)
next
  case (Inr q)
  then show ?thesis
    using device_loop_ok [of "[0..<length (targets c')]" False c' "fst q" "snd q"] touchD(4) [of c' "fst q"]
    by (auto simp: await_device_def confirmation_fork_def Let_def split: prod.splits)
qed

lemma boot_fold_upload: "upload_in_progress (fst (fold boot_check is s)) = upload_in_progress (fst s)"
proof (induction "is" arbitrary: s)
  case (Cons i "is")
  have "upload_in_progress (fst (boot_check i s)) = upload_in_progress (fst s)"
    by (auto simp: boot_check_def Let_def set_target_def set_image_def split: prod.splits)
  then show ?case using Cons by simp
qed simp

lemma late_inspect_boot [simp]:
  "late_step c (inspect_boot plan c') \<longleftrightarrow> upload_in_progress c' = upload_in_progress c"
  using boot_fold_upload [of "[0..<length (targets c')]" "(c', False, False)"]
  by (auto simp: inspect_boot_def Let_def split: prod.splits)

lemma late_helpers [simp]:
  "late_step c (confirm_accepted c') \<longleftrightarrow> upload_in_progress c' = upload_in_progress c"
  "late_step c (verify_confirmed c') \<longleftrightarrow> upload_in_progress c' = upload_in_progress c"
  "late_step c (confirm_failed e c)" "late st \<Longrightarrow> late_step c (wait_read_failed st e c)"
  by (simp_all add: confirm_accepted_def verify_confirmed_def confirm_failed_def wait_read_failed_def
      set_target_def Let_def)

lemma decide_late_checks:
  "acts ev \<Longrightarrow> late st \<Longrightarrow> checks (fst (decide st ev plan c)) = checks c"
  by (cases st) (simp_all add: decide_def acts_def late_def is_terminal_def)

lemma decide_late_step:
  "acts ev \<Longrightarrow> late st \<Longrightarrow> \<not> upload_in_progress c \<Longrightarrow> late_step c (decide st ev plan c)"
  by (cases st) (simp_all add: decide_def acts_def late_def [of State_Idle] late_def [of State_Planning]
      late_def [of State_QueryingParameters] late_def [of State_QueryingBootloader]
      late_def [of State_InspectingImages] late_def [of State_Uploading] late_def [of State_VerifyingUpload]
      late_def [of State_MarkingForTest] late_def [of State_Resetting] late_def [of State_AwaitingDisconnect]
      is_terminal_def)

text \<open>A reset is forced in \<open>Resetting\<close> only, and a wait on the device starts with its effect.\<close>

definition unforced :: "machine_context \<times> machine_step \<Rightarrow> bool" where
  "unforced p \<longleftrightarrow> effect (snd p) \<noteq> Effect_ForceReset \<and>
     (waiting (next_state (snd p)) \<longrightarrow> effect (snd p) = Effect_AwaitApply)"

lemma unforced_late: "late_step c p \<Longrightarrow> unforced p"
  by (simp add: late_step_def unforced_def)

lemma unforced_late_simps [simp]:
  "unforced (fail_update c e)" "unforced (illegal c)" "unforced (await_commit c)"
  "unforced (await_device plan c)" "unforced (inspect_boot plan c)"
  by (rule unforced_late [of c]; simp)+

lemma unforced_mk [simp]: "unforced (c, mk_step st e) \<longleftrightarrow> e \<noteq> Effect_ForceReset \<and> (waiting st \<longrightarrow> e = Effect_AwaitApply)"
  by (simp add: unforced_def)

lemma unforced_check: "check_preconditions plan c = (c', Some s) \<Longrightarrow> unforced (c', s)"
  by (auto simp: check_preconditions_def Let_def fail_update_def split: if_splits option.splits)

lemma unforced_staged [simp]: "unforced (staged plan c)"
  by (auto simp: staged_def unforced_late split: prod.splits option.splits dest: unforced_check)

lemma unforced_next_target [simp]: "unforced (next_target plan c)"
  by (simp add: next_target_def Let_def)

lemma unforced_mark_or_skip [simp]: "unforced (mark_or_skip plan c)"
  by (simp add: mark_or_skip_def)

lemma unforced_plan_upload [simp]: "unforced (plan_upload plan c)"
  by (auto simp: plan_upload_def split: prod.splits option.splits dest: unforced_check)

lemma unforced_choose: "choose_build c = (c', Some s) \<Longrightarrow> unforced (c', s)"
  by (erule choose_build_cases) (auto simp: fail_update_def)

lemma unforced_plan_loop [simp]: "unforced (plan_loop plan c)"
  by (induction plan c rule: plan_loop.induct, subst plan_loop.simps)
    (auto simp: Let_def split: prod.splits option.splits dest: unforced_check unforced_choose)

lemma decide_unforced:
  assumes "acts ev" and "st \<noteq> State_Resetting"
  shows "unforced (decide st ev plan c)"
proof -
  have "unforced (plan_from_state plan c)" "unforced (upload_finished ev plan c)"
    "unforced (verify_upload plan c')" for c'
    by (auto simp: plan_from_state_def upload_finished_def verify_upload_def Let_def unforced_late
        split: option.splits)
  then show ?thesis
    using assms
    by (cases st) (simp_all add: decide_def acts_def unforced_late bootloader_failed_def mark_refused_def
        confirm_accepted_def Let_def verify_confirmed_def confirm_failed_def wait_read_failed_def)
qed

section \<open>One step of the machine\<close>

lemma decide_still:
  assumes "\<not> acts ev" and "decide st ev plan c = (c', s)"
  shows "preconditions_checked c' = preconditions_checked c" "refusal (report c') = refusal (report c)"
    "reset_forced c' = reset_forced c" "effect s \<noteq> Effect_Reset" "effect s \<noteq> Effect_ForceReset"
    "upload_in_progress c' = upload_in_progress c"
    "next_state s = st \<or> late (next_state s)"
  using assms
  by (auto simp: decide_def acts_def tick_def fail_update_def set_report_def Let_def
      split: if_splits option.splits)

lemma guarded_cases:
  assumes "guarded_decide m ev = (c1, s1)"
  obtains (acts) "acts ev" "decide (m_state m) ev (m_plan m) (m_context m) = (c1, s1)"
  | (still) "\<not> acts ev" "decide (m_state m) ev (m_plan m) (m_context m) = (c1, s1)"
  | (guard) e where "fail_update (m_context m) e = (c1, s1)"
  using assms by (auto simp: guarded_decide_def Let_def no_image_def split: if_splits)

lemma guarded_checked:
  assumes "guarded_decide m ev = (c1, s1)" and "preconditions_checked (m_context m)"
  shows "preconditions_checked c1 \<and> refusal (report c1) = refusal (report (m_context m))"
  using assms(1)
proof (cases rule: guarded_cases)
  case acts
  show ?thesis
  proof (cases "m_state m = State_Resetting")
    case True
    then show ?thesis using decide_resetting [OF acts(1) acts(2) [unfolded True]] assms(2) by simp
  next
    case False
    then show ?thesis
      using decide_quiet [OF acts(1) False, of "m_context m" "m_plan m"] acts(2) assms(2)
      by (simp add: quiet_def checks_def)
  qed
qed (use assms(2) decide_still in \<open>auto simp: fail_update_def set_report_def\<close>)

lemma guarded_late:
  assumes "guarded_decide m ev = (c1, s1)" and "late (m_state m)" and "\<not> upload_in_progress (m_context m)"
  shows "late (next_state s1)" "effect s1 \<noteq> Effect_Reset" "\<not> upload_in_progress c1"
    "preconditions_checked c1 = preconditions_checked (m_context m)"
    "refusal (report c1) = refusal (report (m_context m))"
proof -
  have "late (next_state s1) \<and> effect s1 \<noteq> Effect_Reset \<and> \<not> upload_in_progress c1 \<and>
    preconditions_checked c1 = preconditions_checked (m_context m) \<and>
    refusal (report c1) = refusal (report (m_context m))"
    using assms(1)
  proof (cases rule: guarded_cases)
    case acts
    then show ?thesis
      using decide_late_step [OF acts(1) assms(2,3), of "m_plan m"] assms(3)
        decide_late_checks [OF acts(1) assms(2), of "m_plan m" "m_context m"]
      by (simp add: late_step_def checks_def)
  next
    case still
    then show ?thesis using decide_still [OF still] assms(2,3) by auto
  qed (use assms in \<open>auto simp: fail_update_def set_report_def\<close>)
  then show "late (next_state s1)" "effect s1 \<noteq> Effect_Reset" "\<not> upload_in_progress c1"
    "preconditions_checked c1 = preconditions_checked (m_context m)"
    "refusal (report c1) = refusal (report (m_context m))" by auto
qed

lemma guarded_forced:
  assumes "guarded_decide m ev = (c1, s1)"
  shows "reset_forced c1 \<longleftrightarrow> reset_forced (m_context m) \<or> effect s1 = Effect_ForceReset"
    and "effect s1 = Effect_ForceReset \<Longrightarrow> \<not> reset_forced (m_context m)"
proof -
  have "(reset_forced c1 \<longleftrightarrow> reset_forced (m_context m) \<or> effect s1 = Effect_ForceReset) \<and>
    (effect s1 = Effect_ForceReset \<longrightarrow> \<not> reset_forced (m_context m))"
    using assms
  proof (cases rule: guarded_cases)
    case acts
    show ?thesis
    proof (cases "m_state m = State_Resetting")
      case True
      then show ?thesis using decide_resetting(4,5) [OF acts(1) acts(2) [unfolded True]] by blast
    next
      case False
      then show ?thesis
        using decide_quiet [OF acts(1) False, of "m_context m" "m_plan m"] acts(2)
          decide_unforced [OF acts(1) False, of "m_plan m" "m_context m"]
        by (simp add: quiet_def timing_def unforced_def)
    qed
  next
    case still
    then show ?thesis using decide_still [OF still] by auto
  qed (auto simp: fail_update_def set_report_def)
  then show "reset_forced c1 \<longleftrightarrow> reset_forced (m_context m) \<or> effect s1 = Effect_ForceReset"
    and "effect s1 = Effect_ForceReset \<Longrightarrow> \<not> reset_forced (m_context m)" by auto
qed

lemma parameterise_cause:
  "parameterise s (summarise c1) = (c3, s') \<Longrightarrow> cause (report (keep_time s' t plan c3)) = cause (report c1)"
  by (auto simp: parameterise_def Let_def split: effect.splits)

lemma run_step_cause:
  assumes "run ts plan m tr" and "machine_apply m ev = (m', s)" and "guarded_decide m ev = (c1, s1)"
  shows "cause (report (m_context m')) = cause (report c1)"
proof -
  note inv = run_step_inv [OF assms(1,2)]
  from assms(2) inv(2) [folded inv(1)] inv(4) show ?thesis
    using assms(3) parameterise_cause by (cases rule: machine_apply_parts) auto
qed

lemma upload_keep_time [simp]: "upload_in_progress (keep_time s t plan c) = upload_in_progress c"
  using untimed_simps(4) keep_time_untimed by metis

lemma parameterise_frame:
  assumes "parameterise s (summarise c1) = (c3, s')"
  shows "preconditions_checked (keep_time s' t plan c3) = preconditions_checked c1"
    "refusal (report (keep_time s' t plan c3)) = refusal (report c1)"
    "reset_forced (keep_time s' t plan c3) = reset_forced c1"
    "upload_in_progress (keep_time s' t plan c3) = upload_in_progress c1"
    "targets (keep_time s' t plan c3) = targets c1" "current (keep_time s' t plan c3) = current c1"
    "images (report (keep_time s' t plan c3)) = images (report c1)"
    "report (summarise (keep_time s' t plan c3)) = report (keep_time s' t plan c3)"
proof -
  obtain f where c3: "c3 = set_report f (summarise c1)"
    and f: "\<And>r. refusal (f r) = refusal r" "\<And>r. images (f r) = images r"
      "\<And>r. f r = r \<or> (\<exists>a b d. f r = r\<lparr>final_state := a, report_target_hash := b, final_device_state := d\<rparr>)"
  proof -
    have "c3 = summarise c1 \<or> (\<exists>a b d. c3 = set_report (\<lambda>r. r\<lparr>final_state := a,
        report_target_hash := b, final_device_state := d\<rparr>) (summarise c1))"
      using assms by (auto simp: parameterise_def Let_def split: effect.splits)
    moreover have "summarise c1 = set_report (\<lambda>r. r) (summarise c1)" by (simp add: set_report_def)
    ultimately show thesis using that by force
  qed
  show "preconditions_checked (keep_time s' t plan c3) = preconditions_checked c1"
    "refusal (report (keep_time s' t plan c3)) = refusal (report c1)"
    "reset_forced (keep_time s' t plan c3) = reset_forced c1"
    "upload_in_progress (keep_time s' t plan c3) = upload_in_progress c1"
    "targets (keep_time s' t plan c3) = targets c1" "current (keep_time s' t plan c3) = current c1"
    "images (report (keep_time s' t plan c3)) = images (report c1)"
    using f by (simp_all add: c3 set_report_def) (simp_all add: summarise_def set_report_def Let_def)
  show "report (summarise (keep_time s' t plan c3)) = report (keep_time s' t plan c3)"
    using f(3) [of "report (summarise c1)"]
    by (auto simp: c3 summarise_def Let_def set_report_def f(2))
qed

text \<open>The part of one step that the properties over runs rest on.\<close>

lemma run_step_cases:
  assumes "run ts plan m tr" and "machine_apply m ev = (m', s)"
  obtains c1 s1 where "guarded_decide m ev = (c1, s1)"
    and "step_ok ts (tables (tr @ [(ev, s)])) plan (c1, s1) \<or> c1 = m_context m \<and> s1 = mk_step (m_state m) Effect_None"
    and "m_state m' = next_state s1" and "next_state s = next_state s1" and "effect s = effect s1"
    and "preconditions_checked (m_context m') = preconditions_checked c1"
    and "refusal (report (m_context m')) = refusal (report c1)"
    and "reset_forced (m_context m') = reset_forced c1"
    and "upload_in_progress (m_context m') = upload_in_progress c1"
    and "targets (m_context m') = targets c1" and "current (m_context m') = current c1"
    and "report (summarise (m_context m')) = report (m_context m')"
    and "s = snd (parameterise s1 (summarise c1))"
proof -
  note inv = run_step_inv [OF assms]
  from assms(2) inv(2) [folded inv(1)] inv(4) show thesis
  proof (cases rule: machine_apply_parts)
    case (1 c1 s1 c3)
    show thesis
      by (rule that [of c1 s1]) (use 1 parameterise_frame [OF 1(3)] inv(1) in simp_all)
  qed
qed

section \<open>Properties\<close>


text \<open>
  C3. The images smply commits are confirmed only after the device has applied its own: a step
  that asks for the confirmation or sends it comes after a slot table in which every
  device-committed image of the update runs its file. The confirm names, by its hash, an image
  that smply commits and that is on trial.
\<close>

theorem confirm_after_device_images:
  assumes "run ts plan m tr" and "machine_apply m ev = (m', s)"
    and "effect s = Effect_RequestConfirmation \<or> effect s = Effect_Confirm"
  shows "(\<exists>T \<in> tables (tr @ [(ev, s)]). devices_running T (m_context m')) \<and>
    (effect s = Effect_Confirm \<longrightarrow>
      (\<exists>i < length ts. commit (ts ! i) = Commit_Client \<and> step_image s = t_image (ts ! i) \<and>
         step_hash s = hash (targets (m_context m') ! i) \<and> in_trial (targets (m_context m') ! i)))"
proof -
  note inv = run_step_inv [OF assms(1,2)]
  note mi = machine_apply_inv [OF assms(2) inv(2) [folded inv(1)] inv(4)]
  have st: "m_state m' = State_AwaitingConfirmation \<or> m_state m' = State_Confirming \<and> effect s = Effect_Confirm"
    using mi assms(3) by (cases "m_state m'") (auto simp: legal_step_def)
  let ?c = "m_context m'"
  have ok: "current ?c < length (targets ?c)" "in_trial (targets ?c ! current ?c)"
    "\<exists>T \<in> tables (tr @ [(ev, s)]). devices_running T ?c" "core ts (tables (tr @ [(ev, s)])) ?c"
    using inv(3) st by (auto simp: machine_inv_def state_ok_def)
  have sh: "shape ts ?c" using ok(4) by (simp add: core_def)
  have "effect s = Effect_Confirm \<Longrightarrow> step_image s = t_image (targets ?c ! current ?c) \<and>
      step_hash s = hash (targets ?c ! current ?c)"
    using assms(2) inv(2) [folded inv(1)] inv(4)
  proof (cases rule: machine_apply_parts)
    case (1 c1 s1 c3)
    then show "effect s = Effect_Confirm \<Longrightarrow> ?thesis" by (auto simp: parameterise_def Let_def)
  qed
  then show ?thesis
    using ok shape_nth [OF sh] nth_mem [OF ok(1)] by (auto simp: core_def intro!: exI [of _ "current ?c"])
qed

text \<open>
  An update finishes once. Over any run the \<open>Finish\<close> effect occurs exactly once if the
  machine is in a terminal state and not at all otherwise, and a finished machine answers every
  further event by doing nothing, its state and report unchanged.
\<close>

theorem update_finishes_once:
  assumes "run ts plan m tr"
  shows "length (filter (\<lambda>(ev, s). effect s = Effect_Finish) tr) = (if is_terminal (m_state m) then 1 else 0) \<and>
    (is_terminal (m_state m) \<longrightarrow> (\<forall>ev. case machine_apply m ev of (m', s) \<Rightarrow>
       m_state m' = m_state m \<and> effect s = Effect_None \<and> report (m_context m') = report (m_context m)))"
  using assms
proof induction
  case init
  then show ?case by (simp add: Machine_def is_terminal_def)
next
  case (step m tr ev m' s)
  obtain c1 s1 where s1: "step_ok ts (tables (tr @ [(ev, s)])) plan (c1, s1) \<or>
      c1 = m_context m \<and> s1 = mk_step (m_state m) Effect_None"
    and st: "m_state m' = next_state s1" "effect s = effect s1"
    and rep: "report (summarise (m_context m')) = report (m_context m')"
    using run_step_cases [OF step.hyps] by metis
  have "\<not> is_terminal (m_state m) \<Longrightarrow> effect s = Effect_Finish \<longleftrightarrow> is_terminal (m_state m')"
    using s1 st by (cases "next_state s1") (auto simp: step_ok_def legal_step_def is_terminal_def)
  moreover have "is_terminal (m_state m) \<Longrightarrow> m_state m' = m_state m \<and> effect s = Effect_None"
    using terminal_apply [OF _ step.hyps(2)] by simp
  moreover have "case machine_apply m' e of (n, u) \<Rightarrow> m_state n = m_state m' \<and> effect u = Effect_None \<and>
      report (m_context n) = report (m_context m')" if "is_terminal (m_state m')" for e
    using terminal_apply [OF that, of e] rep by (auto split: prod.splits)
  ultimately show ?case using step.IH by (auto split: prod.splits)
qed

text \<open>
  Every effect that is carried out on an image names one of the update: an upload gives the
  index of a target, its image number and a build it has; a mark for test gives the image number
  and the hash of a target. The machine's own check for a missing image never fires.
\<close>

theorem effects_name_targets:
  assumes "run ts plan m tr" and "machine_apply m ev = (m', s)"
  shows "(effect s = Effect_StartUpload \<longrightarrow> step_target s < length ts \<and>
       step_image s = t_image (ts ! step_target s) \<and> step_build s \<le> 1 \<and>
       (builds (ts ! step_target s) = None \<longrightarrow> step_build s = 0)) \<and>
    (effect s = Effect_MarkForTest \<longrightarrow> (\<exists>i < length ts. step_image s = t_image (ts ! i) \<and>
       step_hash s = hash (targets (m_context m') ! i))) \<and>
    (needs_current (m_state m) \<longrightarrow> current (m_context m) < length (targets (m_context m)))"
  using assms
proof (cases rule: run_step_cases)
  case (1 c1 s1)
  have inv: "machine_inv ts (tables (tr @ [(ev, s)])) plan (m_state m) (m_context m)"
    using run_step_inv(2) [OF assms] .
  have "needs_current (m_state m) \<longrightarrow> current (m_context m) < length (targets (m_context m))"
    using inv by (auto simp: machine_inv_def state_ok_def needs_current_def)
  moreover have "(effect s = Effect_StartUpload \<longrightarrow> step_target s < length ts \<and>
       step_image s = t_image (ts ! step_target s) \<and> step_build s \<le> 1 \<and>
       (builds (ts ! step_target s) = None \<longrightarrow> step_build s = 0)) \<and>
    (effect s = Effect_MarkForTest \<longrightarrow> (\<exists>i < length ts. step_image s = t_image (ts ! i) \<and>
       step_hash s = hash (targets (m_context m') ! i)))"
  proof (cases "effect s = Effect_StartUpload \<or> effect s = Effect_MarkForTest")
    case True
    then have ok: "step_ok ts (tables (tr @ [(ev, s)])) plan (c1, s1)" using 1(2,5) by auto
    then have sh: "shape ts c1" and cur: "current c1 < length (targets c1)"
      using True 1(5) step_ok_names_current [OF ok]
      by (auto simp: step_ok_def machine_inv_def core_def names_current_def)
    have ch: "chosen (targets c1 ! current c1) \<le> 1"
      "builds (targets c1 ! current c1) = None \<longrightarrow> chosen (targets c1 ! current c1) = 0"
      using sh nth_mem [OF cur] by (auto simp: shape_def)
    show ?thesis
      using True 1(5,10,13) ch cur shape_nth [OF sh]
      by (auto simp: parameterise_def Let_def intro!: exI [of _ "current c1"])
  qed auto
  ultimately show ?thesis by blast
qed

text \<open>The effects that change the device.\<close>

definition changes_device :: "effect \<Rightarrow> bool" where
  "changes_device e \<longleftrightarrow> e = Effect_StartUpload \<or> e = Effect_ResumeUpload \<or> e = Effect_MarkForTest \<or>
     e = Effect_Reset \<or> e = Effect_ForceReset \<or> e = Effect_Confirm"

lemma changes_device_checked:
  assumes "step_ok ts S plan (c, s)" and "changes_device (effect s)"
  shows "preconditions_checked c \<or> next_state s = State_Confirming \<and> \<not> upload_in_progress c"
    and "refusal (report c) = None"
  using assms
  by (cases "next_state s";
      auto simp: step_ok_def machine_inv_def state_ok_def report_ok_def legal_step_def changes_device_def)+

lemma run_changed:
  assumes "run ts plan m tr" and "\<exists>(ev, s) \<in> set tr. changes_device (effect s)"
  shows "refusal (report (m_context m)) = None \<and>
    (preconditions_checked (m_context m) \<or> late (m_state m) \<and> \<not> upload_in_progress (m_context m))"
  using assms
proof induction
  case (step m tr ev m' s)
  from step.hyps show ?case
  proof (cases rule: run_step_cases)
    case (1 c1 s1)
    show ?thesis
    proof (cases "changes_device (effect s)")
      case True
      then have ok: "step_ok ts (tables (tr @ [(ev, s)])) plan (c1, s1)"
        using 1(2,5) by (auto simp: changes_device_def)
      show ?thesis using changes_device_checked [OF ok] True 1 by auto
    next
      case False
      then have IH: "refusal (report (m_context m)) = None"
        "preconditions_checked (m_context m) \<or> late (m_state m) \<and> \<not> upload_in_progress (m_context m)"
        using step.IH step.prems by auto
      show ?thesis
        using IH guarded_checked [OF 1(1)] guarded_late [OF 1(1)] 1 by metis
    qed
  qed
qed simp

text \<open>
  C4. A refused update has not touched the device: when the report carries a refusal, the update
  has failed with \<open>UpdateRefused\<close> and no step of the run uploaded, marked, reset or confirmed
  anything.
\<close>

theorem refusal_leaves_device_untouched:
  assumes "run ts plan m tr" and "refusal (report (m_context m)) \<noteq> None"
  shows "m_state m = State_Failed \<and>
    (\<exists>e. cause (report (m_context m)) = Some e \<and> code e = UpdateRefused) \<and>
    (\<forall>(ev, s) \<in> set tr. \<not> changes_device (effect s))"
proof -
  have "report_ok (m_state m) (m_context m)" using run_inv [OF assms(1)] by (simp add: machine_inv_def)
  then show ?thesis using run_changed [OF assms(1)] assms(2) by (auto simp: report_ok_def)
qed

section \<open>Budgets and deadlines\<close>

lemma decide_force:
  assumes "guarded_decide m ev = (c1, s1)" and "effect s1 = Effect_ForceReset"
  shows "m_state m = State_Resetting"
  using assms(1)
proof (cases rule: guarded_cases)
  case acts
  then show ?thesis
    using decide_unforced [OF acts(1), of "m_state m" "m_plan m" "m_context m"] assms(2)
    by (auto simp: unforced_def)
next
  case still
  then show ?thesis using decide_still(5) [OF still] assms(2) by simp
qed (use assms(2) in \<open>auto simp: fail_update_def\<close>)

lemma decide_into_resetting:
  assumes "guarded_decide m ev = (c1, s1)" and "next_state s1 = State_Resetting"
    and "step_ok ts S plan (c1, s1) \<or> s1 = mk_step (m_state m) Effect_None"
  shows "effect s1 = Effect_Reset \<or> m_state m = State_Resetting"
  using assms decide_force [OF assms(1)] by (auto simp: step_ok_def legal_step_def)

definition past_reset :: "update_state \<Rightarrow> machine_context \<Rightarrow> bool" where
  "past_reset st c \<longleftrightarrow>
     (st = State_Resetting \<or> st = State_AwaitingDisconnect \<or> late st) \<and> \<not> upload_in_progress c"

lemma guarded_past_reset:
  assumes g: "guarded_decide m ev = (c1, s1)" and past: "past_reset (m_state m) (m_context m)"
  shows "past_reset (next_state s1) c1 \<and> effect s1 \<noteq> Effect_Reset"
proof (cases "late (m_state m)")
  case True
  then show ?thesis using guarded_late [OF g] past by (simp add: past_reset_def)
next
  case False
  then have st: "m_state m = State_Resetting \<or> m_state m = State_AwaitingDisconnect"
    and up: "\<not> upload_in_progress (m_context m)"
    using past by (auto simp: past_reset_def)
  from g show ?thesis
  proof (cases rule: guarded_cases)
    case acts
    then show ?thesis
      using st up
      by (auto simp: decide_def acts_def past_reset_def reset_refused_def illegal_def fail_update_def
          set_report_def split: if_splits)
  next
    case still
    then show ?thesis using decide_still [OF still] st up by (auto simp: past_reset_def)
  qed (use up in \<open>auto simp: past_reset_def fail_update_def set_report_def\<close>)
qed

definition count_effect :: "effect \<Rightarrow> (event \<times> machine_step) list \<Rightarrow> nat" where
  "count_effect e tr = length (filter (\<lambda>(ev, s). effect s = e) tr)"

lemma count_effect_simps [simp]:
  "count_effect e [] = 0"
  "count_effect e (tr @ [(ev, s)]) = count_effect e tr + (if effect s = e then 1 else 0)"
  by (simp_all add: count_effect_def)

text \<open>
  The device is reset at most once, and the reset is forced at most once: over any run, the
  \<open>Reset\<close> and \<open>ForceReset\<close> effects each occur at most once, and a forced reset only after a
  plain one.
\<close>

theorem resets_bounded:
  assumes "run ts plan m tr"
  shows "count_effect Effect_Reset tr \<le> 1 \<and>
    count_effect Effect_ForceReset tr = (if reset_forced (m_context m) then 1 else 0) \<and>
    count_effect Effect_ForceReset tr \<le> count_effect Effect_Reset tr"
proof -
  have "count_effect Effect_Reset tr \<le> 1 \<and>
    count_effect Effect_ForceReset tr = (if reset_forced (m_context m) then 1 else 0) \<and>
    (count_effect Effect_Reset tr = 0 \<longrightarrow> \<not> reset_forced (m_context m) \<and> m_state m \<noteq> State_Resetting) \<and>
    (count_effect Effect_Reset tr = 1 \<longrightarrow> past_reset (m_state m) (m_context m))"
    using assms
  proof induction
    case init
    then show ?case by (simp add: Machine_def)
  next
    case (step m tr ev m' s)
    from step.hyps show ?case
    proof (cases rule: run_step_cases)
      case (1 c1 s1)
      have reset: "effect s1 = Effect_Reset \<Longrightarrow> past_reset (next_state s1) c1"
        and force: "effect s1 = Effect_ForceReset \<Longrightarrow> m_state m = State_Resetting"
        and into: "next_state s1 = State_Resetting \<Longrightarrow> effect s1 = Effect_Reset \<or> m_state m = State_Resetting"
        using 1(2) decide_force [OF 1(1)] decide_into_resetting [OF 1(1), of ts "tables (tr @ [(ev, s)])" plan]
        by (auto simp: past_reset_def step_ok_def machine_inv_def state_ok_def legal_step_def
            split: update_state.splits)
      have past: "past_reset (m_state m) (m_context m) \<Longrightarrow> past_reset (next_state s1) c1 \<and> effect s1 \<noteq> Effect_Reset"
        using guarded_past_reset [OF 1(1)] .
      have "past_reset (m_state m') (m_context m') = past_reset (next_state s1) c1"
        using 1 by (simp add: past_reset_def)
      then show ?thesis
        using step.IH reset force into past guarded_forced [OF 1(1)] 1(3,5,8) by (auto split: if_splits)
    qed
  qed
  then show ?thesis by (auto split: if_splits)
qed

lemma guarded_timing:
  assumes "guarded_decide m ev = (c1, s1)"
  shows "grace_deadline c1 = grace_deadline (m_context m) \<and>
    apply_deadline c1 = apply_deadline (m_context m) \<and> apply_phase c1 = apply_phase (m_context m) \<and>
    (apply_poll c1 = apply_poll (m_context m) \<or> apply_poll c1 = None)"
  using assms
proof (cases rule: guarded_cases)
  case acts
  show ?thesis
  proof (cases "m_state m = State_Resetting")
    case True
    then show ?thesis
      using decide_resetting(1) [OF acts(1) acts(2) [unfolded True]] by (simp add: timing_def)
  next
    case False
    then show ?thesis
      using decide_quiet [OF acts(1) False, of "m_context m" "m_plan m"] acts(2)
      by (simp add: quiet_def timing_def)
  qed
qed (auto simp: decide_def acts_def tick_def fail_update_def set_report_def Let_def
      split: if_splits option.splits)

lemma parameterise_timing:
  "parameterise s (summarise c) = (c', s') \<Longrightarrow> timing c' = timing c"
  by (auto simp: parameterise_def summarise_def Let_def timing_def set_report_def split: effect.splits if_splits)

text \<open>The deadlines after a step, from those before it.\<close>

lemma run_step_timing:
  assumes "run ts plan m tr" and "machine_apply m ev = (m', s)"
  shows "grace_deadline (m_context m') = (if effect s = Effect_AwaitDisconnect
      then Some (now ev + disconnect_grace plan)
      else if m_state m' = State_AwaitingDisconnect then grace_deadline (m_context m) else None)"
    and "effect s \<noteq> Effect_Finish \<Longrightarrow> effect s \<noteq> Effect_AwaitApply \<Longrightarrow>
      apply_deadline (m_context m') = apply_deadline (m_context m) \<and>
      apply_phase (m_context m') = apply_phase (m_context m) \<and>
      (apply_poll (m_context m') = apply_poll (m_context m) \<or> apply_poll (m_context m') = None)"
    and "effect s = Effect_AwaitApply \<Longrightarrow> apply_phase (m_context m') = Some (m_state m') \<and>
      apply_poll (m_context m') = Some (now ev + apply_poll_interval plan) \<and>
      apply_deadline (m_context m') =
        (if apply_phase (m_context m) = Some (m_state m') then apply_deadline (m_context m)
         else Some (now ev + apply_timeout plan))"
    and "effect s = Effect_Finish \<Longrightarrow> apply_poll (m_context m') = None \<and> apply_deadline (m_context m') = None"
    and "\<exists>c1 s1. guarded_decide m ev = (c1, s1) \<and> effect s = effect s1 \<and>
      (effect s \<noteq> Effect_AwaitApply \<longrightarrow> effect s \<noteq> Effect_Finish \<longrightarrow> apply_poll (m_context m') = apply_poll c1)"
proof -
  note inv = run_step_inv [OF assms]
  from assms(2) inv(2) [folded inv(1)] inv(4) obtain c1 s1 c3 where g: "guarded_decide m ev = (c1, s1)"
    and ok: "step_ok ts (tables (tr @ [(ev, s)])) (m_plan m) (c1, s1) \<or>
      c1 = m_context m \<and> s1 = mk_step (m_state m) Effect_None"
    and p: "parameterise s1 (summarise c1) = (c3, s)"
    and e: "next_state s = next_state s1" "effect s = effect s1"
    and m': "m' = m\<lparr>m_state := next_state s, m_context := keep_time s (now ev) (m_plan m) c3\<rparr>"
    by (rule machine_apply_parts)
  have t: "timing c3 = timing c1" using parameterise_timing [OF p] .
  have legal: "legal_step (next_state s) (effect s) \<or> effect s = Effect_None"
    using ok e by (auto simp: step_ok_def)
  have aw: "effect s = Effect_AwaitDisconnect \<Longrightarrow> next_state s = State_AwaitingDisconnect"
    using legal by (cases "next_state s") (auto simp: legal_step_def)
  note gt = guarded_timing [OF g]
  show "grace_deadline (m_context m') = (if effect s = Effect_AwaitDisconnect
      then Some (now ev + disconnect_grace plan)
      else if m_state m' = State_AwaitingDisconnect then grace_deadline (m_context m) else None)"
    using t gt aw inv(1) by (auto simp: m' timing_def keep_time_def Let_def split: effect.splits)
  show "effect s \<noteq> Effect_Finish \<Longrightarrow> effect s \<noteq> Effect_AwaitApply \<Longrightarrow>
      apply_deadline (m_context m') = apply_deadline (m_context m) \<and>
      apply_phase (m_context m') = apply_phase (m_context m) \<and>
      (apply_poll (m_context m') = apply_poll (m_context m) \<or> apply_poll (m_context m') = None)"
    using t gt by (auto simp: m' timing_def keep_time_def Let_def split: effect.splits)
  show "effect s = Effect_AwaitApply \<Longrightarrow> apply_phase (m_context m') = Some (m_state m') \<and>
      apply_poll (m_context m') = Some (now ev + apply_poll_interval plan) \<and>
      apply_deadline (m_context m') =
        (if apply_phase (m_context m) = Some (m_state m') then apply_deadline (m_context m)
         else Some (now ev + apply_timeout plan))"
    using t gt inv(1) by (auto simp: m' timing_def keep_time_def Let_def)
  show "effect s = Effect_Finish \<Longrightarrow> apply_poll (m_context m') = None \<and> apply_deadline (m_context m') = None"
    by (simp add: m' keep_time_def Let_def)
  show "\<exists>c1 s1. guarded_decide m ev = (c1, s1) \<and> effect s = effect s1 \<and>
      (effect s \<noteq> Effect_AwaitApply \<longrightarrow> effect s \<noteq> Effect_Finish \<longrightarrow> apply_poll (m_context m') = apply_poll c1)"
    using g e(2) t by (auto simp: m' timing_def keep_time_def Let_def split: effect.splits)
qed

text \<open>
  The machine wants at most one tick at a time, in the state that armed it: the reconnect
  grace is armed only while the link is expected to drop, the apply poll only after that, and a
  finished update has no deadline.
\<close>

theorem one_deadline:
  assumes "run ts plan m tr"
  shows "(grace_deadline (m_context m) \<noteq> None \<longrightarrow> m_state m = State_AwaitingDisconnect) \<and>
    (grace_deadline (m_context m) = None \<or> apply_poll (m_context m) = None) \<and>
    (is_terminal (m_state m) \<longrightarrow> next_deadline m = None)"
proof -
  have "(grace_deadline (m_context m) \<noteq> None \<longrightarrow> m_state m = State_AwaitingDisconnect) \<and>
    (apply_poll (m_context m) \<noteq> None \<longrightarrow> late (m_state m) \<and> \<not> is_terminal (m_state m) \<and>
       \<not> upload_in_progress (m_context m))"
    using assms
  proof induction
    case init
    then show ?case by (simp add: Machine_def)
  next
    case (step m tr ev m' s)
    note tm = run_step_timing [OF step.hyps]
    from step.hyps show ?case
    proof (cases rule: run_step_cases)
      case (1 c1 s1)
      have g: "grace_deadline (m_context m') \<noteq> None \<Longrightarrow> m_state m' = State_AwaitingDisconnect"
        using tm(1) 1(2-5) by (cases "next_state s1") (auto simp: step_ok_def legal_step_def split: if_splits)
      have aw: "effect s = Effect_AwaitApply \<Longrightarrow> late (m_state m') \<and> \<not> is_terminal (m_state m') \<and>
          \<not> upload_in_progress (m_context m')"
        using 1(2,3,5,9)
        by (cases "next_state s1")
          (auto simp: step_ok_def legal_step_def machine_inv_def state_ok_def is_terminal_def)
      have fin: "\<not> is_terminal (m_state m) \<Longrightarrow> is_terminal (m_state m') \<Longrightarrow> effect s = Effect_Finish"
        using 1(2,3,5) by (cases "next_state s1") (auto simp: step_ok_def legal_step_def is_terminal_def)
      have "apply_poll (m_context m') \<noteq> None \<Longrightarrow> effect s \<noteq> Effect_AwaitApply \<Longrightarrow>
          apply_poll (m_context m) \<noteq> None \<and> effect s \<noteq> Effect_Finish"
        using tm(2,4) by metis
      then show ?thesis
        using step.IH g aw fin guarded_late(1,3) [OF 1(1)] 1(3,9) by metis
    qed
  qed
  then show ?thesis by (auto simp: next_deadline_def late_def is_terminal_def split: option.splits)
qed

text \<open>A wait on the device is entered by its own effect, or was already under way.\<close>

lemma guarded_waiting:
  assumes "guarded_decide m ev = (c1, s1)" and "waiting (next_state s1)"
  shows "effect s1 = Effect_AwaitApply \<or> next_state s1 = m_state m"
  using assms(1)
proof (cases rule: guarded_cases)
  case acts
  show ?thesis
  proof (cases "m_state m = State_Resetting")
    case True
    then show ?thesis
      using acts assms(2)
      by (auto simp: decide_def acts_def reset_refused_def illegal_def fail_update_def split: if_splits)
  next
    case False
    then show ?thesis
      using decide_unforced [OF acts(1) False, of "m_plan m" "m_context m"] acts(2) assms(2)
      by (simp add: unforced_def)
  qed
next
  case still
  then show ?thesis
    using assms(2) by (auto simp: decide_def acts_def tick_def fail_update_def Let_def
        split: if_splits option.splits)
qed (use assms(2) in \<open>auto simp: fail_update_def\<close>)

lemma run_waiting:
  assumes "run ts plan m tr"
  shows "(apply_phase (m_context m) \<noteq> None \<longrightarrow> is_terminal (m_state m) \<or> apply_deadline (m_context m) \<noteq> None) \<and>
    (waiting (m_state m) \<longrightarrow> apply_phase (m_context m) = Some (m_state m))"
  using assms
proof induction
  case init
  then show ?case by (simp add: Machine_def)
next
  case (step m tr ev m' s)
  note tm = run_step_timing [OF step.hyps]
  from step.hyps show ?case
  proof (cases rule: run_step_cases)
    case (1 c1 s1)
    have w: "waiting (m_state m') \<Longrightarrow> effect s = Effect_AwaitApply \<or> m_state m' = m_state m"
      using guarded_waiting [OF 1(1)] 1(3,5) by simp
    have fin: "effect s = Effect_Finish \<Longrightarrow> is_terminal (m_state m')"
      using 1(2,3,5) by (cases "next_state s1") (auto simp: step_ok_def legal_step_def is_terminal_def)
    have ter: "is_terminal (m_state m) \<Longrightarrow> is_terminal (m_state m')"
      using terminal_apply [OF _ step.hyps(2)] by simp
    have nt: "waiting (m_state m') \<Longrightarrow> \<not> is_terminal (m_state m')"
      by (auto simp: waiting_def is_terminal_def)
    show ?thesis
    proof (cases "effect s = Effect_Finish \<or> effect s = Effect_AwaitApply")
      case True
      then show ?thesis using tm(3) fin ter nt step.IH by (cases "effect s = Effect_Finish") auto
    next
      case False
      then show ?thesis using tm(2) w ter step.IH by auto
    qed
  qed
qed

lemma tick_waiting:
  assumes "waiting st" and "kind ev = Kind_Tick"
  shows "decide st ev plan c =
    (case apply_poll c of
       None \<Rightarrow> (c, mk_step st Effect_None)
     | Some p \<Rightarrow>
         if now ev < p then (c, mk_step st Effect_None)
         else if (case apply_deadline c of None \<Rightarrow> False | Some d \<Rightarrow> d \<le> now ev)
         then fail_update (c\<lparr>apply_poll := None\<rparr>) (Error Timeout
           (if st = State_AwaitingDeviceApply then ''dfu: device did not apply an image in time''
            else ''dfu: device did not commit an image in time''))
         else (c\<lparr>apply_poll := None\<rparr>, mk_step st Effect_ReadState))"
  using assms by (auto simp: decide_def tick_def waiting_def Let_def split: option.splits)

lemma guarded_tick:
  assumes "run ts plan m tr" and "kind ev = Kind_Tick" and "waiting (m_state m)" and "ts \<noteq> []"
  shows "guarded_decide m ev = decide (m_state m) ev plan (m_context m)"
proof -
  have "shape ts (m_context m)" "m_plan m = plan"
    using run_inv [OF assms(1)] by (auto simp: machine_inv_def core_def)
  then have "targets (m_context m) \<noteq> []" using shape_nth(1) assms(4) by fastforce
  then show ?thesis
    using assms \<open>m_plan m = plan\<close>
    by (auto simp: guarded_decide_def Let_def carries_table_def needs_current_def waiting_def)
qed

text \<open>
  C27. The wait for the device is bounded. While the machine waits for the device to apply or
  commit an image a timeout is armed; no step that stays in or comes back to the same wait moves
  it; a tick reads the device again only before the timeout, and a tick at or after it, once a
  read is due, fails the update with \<open>Timeout\<close>.
\<close>

theorem apply_wait_bounded:
  assumes "run ts plan m tr" and "waiting (m_state m)" and "ts \<noteq> []" and "machine_apply m ev = (m', s)"
  shows "\<exists>d. apply_deadline (m_context m) = Some d \<and>
    (\<not> is_terminal (m_state m') \<longrightarrow> apply_phase (m_context m') = apply_phase (m_context m) \<longrightarrow>
       apply_deadline (m_context m') = Some d) \<and>
    (kind ev = Kind_Tick \<longrightarrow> effect s = Effect_ReadState \<longrightarrow> now ev < d) \<and>
    (kind ev = Kind_Tick \<longrightarrow> d \<le> now ev \<longrightarrow>
       (\<exists>p. apply_poll (m_context m) = Some p \<and> p \<le> now ev) \<longrightarrow>
       m_state m' = State_Failed \<and> (\<exists>e. cause (report (m_context m')) = Some e \<and> code e = Timeout))"
proof -
  have ph: "apply_phase (m_context m) = Some (m_state m)"
    using run_waiting [OF assms(1)] assms(2) by simp
  moreover have "\<not> is_terminal (m_state m)" using assms(2) by (auto simp: waiting_def is_terminal_def)
  ultimately obtain d where d: "apply_deadline (m_context m) = Some d"
    using run_waiting [OF assms(1)] by auto
  note tm = run_step_timing [OF assms(1,4)]
  have fin: "effect s = Effect_Finish \<Longrightarrow> is_terminal (m_state m')"
  proof -
    from assms(1,4) obtain c1 s1 where "step_ok ts (tables (tr @ [(ev, s)])) plan (c1, s1) \<or>
      c1 = m_context m \<and> s1 = mk_step (m_state m) Effect_None" "m_state m' = next_state s1" "effect s = effect s1"
      by (rule run_step_cases)
    then show "effect s = Effect_Finish \<Longrightarrow> is_terminal (m_state m')"
      by (cases "next_state s1") (auto simp: step_ok_def legal_step_def is_terminal_def)
  qed
  have keep: "\<not> is_terminal (m_state m') \<Longrightarrow> apply_phase (m_context m') = apply_phase (m_context m) \<Longrightarrow>
      apply_deadline (m_context m') = Some d"
    using tm(2,3) fin d ph by (cases "effect s = Effect_AwaitApply") (auto split: if_splits)
  have tick: "kind ev = Kind_Tick \<Longrightarrow> guarded_decide m ev = decide (m_state m) ev plan (m_context m)"
    using guarded_tick [OF assms(1) _ assms(2,3)] by simp
  from assms(1,4) show ?thesis
  proof (cases rule: run_step_cases)
    case (1 c1 s1)
    have "kind ev = Kind_Tick \<Longrightarrow> effect s = Effect_ReadState \<Longrightarrow> now ev < d"
      using tick tick_waiting [OF assms(2), of ev plan "m_context m"] 1(1,5) d
      by (auto simp: fail_update_def split: option.splits if_splits)
    moreover have "kind ev = Kind_Tick \<Longrightarrow> d \<le> now ev \<Longrightarrow>
        \<exists>p. apply_poll (m_context m) = Some p \<and> p \<le> now ev \<Longrightarrow>
        m_state m' = State_Failed \<and> (\<exists>e. cause (report c1) = Some e \<and> code e = Timeout)"
      using tick tick_waiting [OF assms(2), of ev plan "m_context m"] 1(1,3) d
      by (auto simp: fail_update_def)
    moreover have "cause (report (m_context m')) = cause (report c1)"
      using run_step_cause [OF assms(1,4) 1(1)] .
    ultimately show ?thesis using d keep by auto
  qed
qed

section \<open>A run, evaluated\<close>

fun run_events :: "machine \<Rightarrow> event list \<Rightarrow> machine \<times> (event \<times> machine_step) list" where
  "run_events m [] = (m, [])"
| "run_events m (ev # evs) =
     (case machine_apply m ev of (m', s) \<Rightarrow>
        (case run_events m' evs of (m'', tr) \<Rightarrow> (m'', (ev, s) # tr)))"

lemma run_events_run:
  assumes "run ts plan m tr" and "run_events m evs = (m', tr')"
  shows "run ts plan m' (tr @ tr')"
  using assms
proof (induction evs arbitrary: m tr tr')
  case (Cons ev evs)
  then show ?case
    using run.step by (auto split: prod.splits) (metis append.assoc append_Cons append_Nil)
qed simp

lemma run_events_from: "run ts plan (fst (run_events (Machine ts plan) evs)) (snd (run_events (Machine ts plan) evs))"
  using run_events_run [OF run.init, of ts plan evs] by simp

definition demo_slot :: "u32 \<Rightarrow> u32 \<Rightarrow> byte \<Rightarrow> bool \<Rightarrow> bool \<Rightarrow> bool \<Rightarrow> image_slot" where
  "demo_slot img n h act pend conf = \<lparr>slot_image = img, slot_number = n, slot_version = ''1.0.0'',
     slot_hash = Some [h], bootable = True, pending = pend, confirmed = conf, active = act,
     permanent = False\<rparr>"

definition demo_event :: "event_kind \<Rightarrow> time_point \<Rightarrow> image_slot list \<Rightarrow> event" where
  "demo_event k t ss = \<lparr>kind = k, now = t, ev_buf_size = 512,
     bootloader = \<lparr>bl_mode = Mcuboot_SwapUsingMove, raw_mode = 3, bl_no_downgrade = False\<rparr>,
     ev_state = (if carries_table k then Some \<lparr>slots = ss, split_status = None\<rparr> else None),
     transferred = 100, already_present = False, ev_error = Error Timeout ''demo''\<rparr>"

definition demo_version :: image_version where
  "demo_version = \<lparr>major = 2, minor = 0, revision = 0, build = 0\<rparr>"

definition demo_targets :: "target list" where
  "demo_targets = [\<lparr>t_image = 0, commit = Commit_Client, hash = [1], version = demo_version, builds = None\<rparr>,
     \<lparr>t_image = 1, commit = Commit_Device, hash = [2], version = demo_version, builds = None\<rparr>]"

definition demo_plan :: update_plan where
  "demo_plan = \<lparr>plan_mode = Mode_ConfirmImmediately, fallback_mode = None, allow_no_revert = False,
     check_downgrade = True, skip_if_already_present = True, disconnect_grace = 10,
     apply_timeout = 300, apply_poll_interval = 2\<rparr>"

text \<open>Two images, the second committed by the device, up to the wait for the device.\<close>

definition demo_stage :: "event list" where
  "demo_stage =
     [demo_event Kind_Start 0 [], demo_event Kind_ParametersRead 1 [],
      demo_event Kind_BootloaderRead 2 [],
      demo_event Kind_StateRead 3 [demo_slot 0 0 9 True False True, demo_slot 1 2 8 True False True],
      demo_event Kind_Continue 3 [], demo_event Kind_UploadFinished 4 [],
      demo_event Kind_StateRead 5 [demo_slot 0 0 9 True False True, demo_slot 0 1 1 False False False],
      demo_event Kind_MarkedForTest 6 [demo_slot 0 0 9 True False True, demo_slot 0 1 1 False True False,
        demo_slot 1 2 8 True False True],
      demo_event Kind_Continue 6 [], demo_event Kind_UploadFinished 7 [],
      demo_event Kind_StateRead 8 [demo_slot 0 1 1 False True False, demo_slot 1 3 2 False False False],
      demo_event Kind_MarkedForTest 9 [demo_slot 1 3 2 False True False],
      demo_event Kind_ResetAccepted 10 [], demo_event Kind_Disconnected 11 [],
      demo_event Kind_Reconnected 12 [],
      demo_event Kind_StateRead 13 [demo_slot 0 0 1 True False False, demo_slot 1 2 8 True False True,
        demo_slot 1 3 2 False True False]]"

definition demo_finish :: "event list" where
  "demo_finish =
     [demo_event Kind_Tick 15 [],
      demo_event Kind_StateRead 16 [demo_slot 0 0 1 True False False, demo_slot 1 2 2 True False False],
      demo_event Kind_Confirmed 17 [demo_slot 0 0 1 True False True, demo_slot 1 2 2 True False False],
      demo_event Kind_StateRead 18 [demo_slot 0 0 1 True False True, demo_slot 1 2 2 True False False],
      demo_event Kind_Tick 20 [],
      demo_event Kind_StateRead 21 [demo_slot 0 0 1 True False True, demo_slot 1 2 2 True False True]]"

definition demo_run :: "event list \<Rightarrow> machine \<times> (event \<times> machine_step) list" where
  "demo_run evs = run_events (Machine demo_targets demo_plan) evs"

lemma demo_run_run: "run demo_targets demo_plan (fst (demo_run evs)) (snd (demo_run evs))"
  by (simp add: demo_run_def run_events_from)

lemma demo_stage_effects:
  "m_state (fst (demo_run demo_stage)) = State_AwaitingDeviceApply \<and>
   map (\<lambda>(ev, s). effect s) (snd (demo_run demo_stage)) =
     [Effect_QueryParameters, Effect_QueryBootloader, Effect_ReadState, Effect_Continue,
      Effect_StartUpload, Effect_ReadState, Effect_MarkForTest, Effect_Continue, Effect_StartUpload,
      Effect_ReadState, Effect_MarkForTest, Effect_Reset, Effect_AwaitDisconnect,
      Effect_RequestReconnect, Effect_ReadState, Effect_AwaitApply]"
  by code_simp

lemma demo_finish_effects:
  "m_state (fst (demo_run (demo_stage @ demo_finish))) = State_Completed \<and>
   drop 16 (map (\<lambda>(ev, s). effect s) (snd (demo_run (demo_stage @ demo_finish)))) =
     [Effect_ReadState, Effect_Confirm, Effect_ReadState, Effect_AwaitApply, Effect_ReadState, Effect_Finish]"
  by code_simp


text \<open>The step that confirms, from the run up to it.\<close>

lemma demo_confirm:
  "effect (snd (machine_apply (fst (demo_run (demo_stage @ take 1 demo_finish))) (demo_finish ! 1))) = Effect_Confirm"
  by code_simp

theorem confirm_after_device_images_witness:
  "\<exists>i < length demo_targets. commit (demo_targets ! i) = Commit_Client \<and>
     step_image (snd (machine_apply (fst (demo_run (demo_stage @ take 1 demo_finish))) (demo_finish ! 1))) =
       t_image (demo_targets ! i)"
proof -
  let ?m = "fst (demo_run (demo_stage @ take 1 demo_finish))"
  obtain m' s where a: "machine_apply ?m (demo_finish ! 1) = (m', s)" by fastforce
  then have "effect s = Effect_Confirm" using demo_confirm by simp
  then show ?thesis
    using confirm_after_device_images [OF demo_run_run a] a by auto
qed

theorem update_finishes_once_witness:
  "length (filter (\<lambda>(ev, s). effect s = Effect_Finish) (snd (demo_run (demo_stage @ demo_finish)))) = 1"
  using update_finishes_once [OF demo_run_run [of "demo_stage @ demo_finish"]] demo_finish_effects
  by (simp add: is_terminal_def)

lemma demo_upload:
  "effect (snd (machine_apply (fst (demo_run (take 4 demo_stage))) (demo_stage ! 4))) = Effect_StartUpload"
  by code_simp

theorem effects_name_targets_witness:
  "step_target (snd (machine_apply (fst (demo_run (take 4 demo_stage))) (demo_stage ! 4))) < length demo_targets"
proof -
  obtain m' s where a: "machine_apply (fst (demo_run (take 4 demo_stage))) (demo_stage ! 4) = (m', s)" by fastforce
  then show ?thesis using effects_name_targets [OF demo_run_run a] demo_upload by simp
qed

text \<open>A device whose bootloader has no second slot: the update is refused.\<close>

definition demo_refused :: "event list" where
  "demo_refused =
     [demo_event Kind_Start 0 [], demo_event Kind_ParametersRead 1 [],
      (demo_event Kind_BootloaderRead 2 [])\<lparr>bootloader :=
         \<lparr>bl_mode = Mcuboot_SingleSlot, raw_mode = 0, bl_no_downgrade = False\<rparr>\<rparr>,
      demo_event Kind_StateRead 3 [demo_slot 0 0 9 True False True], demo_event Kind_Continue 3 []]"

lemma demo_refused_refusal:
  "refusal (report (m_context (fst (demo_run demo_refused)))) = Some Refusal_UnsupportedMode"
  by code_simp

theorem refusal_leaves_device_untouched_witness:
  "m_state (fst (demo_run demo_refused)) = State_Failed \<and>
   list_all (\<lambda>(ev, s). \<not> changes_device (effect s)) (snd (demo_run demo_refused))"
  using refusal_leaves_device_untouched [OF demo_run_run [of demo_refused]] demo_refused_refusal
  by (simp add: list_all_iff)

theorem resets_bounded_witness:
  "count_effect Effect_Reset (snd (demo_run (demo_stage @ demo_finish))) \<le> 1"
  using resets_bounded [OF demo_run_run [of "demo_stage @ demo_finish"]] by simp

theorem one_deadline_witness:
  "next_deadline (fst (demo_run (demo_stage @ demo_finish))) = None"
  using one_deadline [OF demo_run_run [of "demo_stage @ demo_finish"]] demo_finish_effects
  by (simp add: is_terminal_def)

lemma demo_wait:
  "apply_deadline (m_context (fst (demo_run demo_stage))) = Some 313 \<and>
   apply_poll (m_context (fst (demo_run demo_stage))) = Some 15"
  by code_simp

theorem apply_wait_bounded_witness:
  "m_state (fst (machine_apply (fst (demo_run demo_stage)) (demo_event Kind_Tick 400 []))) = State_Failed"
proof -
  obtain m' s where a: "machine_apply (fst (demo_run demo_stage)) (demo_event Kind_Tick 400 []) = (m', s)"
    by fastforce
  have "kind (demo_event Kind_Tick 400 []) = Kind_Tick" "now (demo_event Kind_Tick 400 []) = 400"
    by (simp_all add: demo_event_def)
  then show ?thesis
    using apply_wait_bounded [OF demo_run_run _ _ a] demo_stage_effects demo_wait a
    by (simp add: waiting_def demo_targets_def)
qed

end
