(* ===== verification/FirmwareUpdater.thy ===== *)
theory FirmwareUpdater
  imports UpdateSafety ImageFormat UploadTypes
begin

text \<open>
  The firmware updater of \<open>src/dfu/firmware_updater.cpp\<close>, the half that carries out what the
  state machine decides. Its state is \<open>FirmwareUpdater::Impl\<close>; what it does to the rest of the
  program is recorded: the events it posts through \<open>SmpClient::defer\<close>, the commands it gives to
  the image and OS groups, and what it tells the application. The application's event callback
  may call back into the updater: what it does on being told the \<open>n\<close>-th event is the parameter
  \<open>on_told env n\<close>. Callbacks that outlive the updater are inert in the code and are inputs that
  no longer arrive here.
\<close>

section \<open>Plans, targets and what is told\<close>

record updater_plan = update_plan +
  plan_upload_options :: upload_options
  reconnect_hint :: duration

record file_target =
  ft_image :: u32
  ft_source :: "image_source option"
  ft_commit :: commit_by
  ft_secondary :: "image_source option"

datatype update_event =
    UpdateStateChanged update_state update_state
  | Progress upload_progress
  | DisconnectExpected
  | ReconnectRequired duration
  | ConfirmationRequired
  | UpdateFinished "update_report result"

text \<open>The calls the updater makes on the image and OS groups.\<close>

datatype command =
    Mcumgr_Parameters
  | Bootloader_Mode
  | Get_State
  | Set_State image_hash bool
  | Upload image_source upload_options
  | Resume_Upload nat
  | Cancel_Upload nat
  | Reset_Device bool

definition refusal_name :: "refusal \<Rightarrow> string" where
  "refusal_name r =
     (case r of
        Refusal_RevertUnavailable \<Rightarrow> ''RevertUnavailable''
      | Refusal_Downgrade \<Rightarrow> ''Downgrade''
      | Refusal_UnsupportedMode \<Rightarrow> ''UnsupportedMode''
      | Refusal_MultiImageUnsupported \<Rightarrow> ''MultiImageUnsupported'')"

definition update_state_name :: "update_state \<Rightarrow> string" where
  "update_state_name s =
     (case s of
        State_Idle \<Rightarrow> ''Idle''
      | State_QueryingParameters \<Rightarrow> ''QueryingParameters''
      | State_QueryingBootloader \<Rightarrow> ''QueryingBootloader''
      | State_InspectingImages \<Rightarrow> ''InspectingImages''
      | State_Planning \<Rightarrow> ''Planning''
      | State_Uploading \<Rightarrow> ''Uploading''
      | State_VerifyingUpload \<Rightarrow> ''VerifyingUpload''
      | State_MarkingForTest \<Rightarrow> ''MarkingForTest''
      | State_Resetting \<Rightarrow> ''Resetting''
      | State_AwaitingDisconnect \<Rightarrow> ''AwaitingDisconnect''
      | State_AwaitingReconnect \<Rightarrow> ''AwaitingReconnect''
      | State_VerifyingBooted \<Rightarrow> ''VerifyingBooted''
      | State_AwaitingDeviceApply \<Rightarrow> ''AwaitingDeviceApply''
      | State_AwaitingConfirmation \<Rightarrow> ''AwaitingConfirmation''
      | State_Confirming \<Rightarrow> ''Confirming''
      | State_VerifyingConfirmed \<Rightarrow> ''VerifyingConfirmed''
      | State_AwaitingDeviceCommit \<Rightarrow> ''AwaitingDeviceCommit''
      | State_Completed \<Rightarrow> ''Completed''
      | State_Failed \<Rightarrow> ''Failed''
      | State_Cancelled \<Rightarrow> ''Cancelled'')"

section \<open>The updater's state\<close>

text \<open>
  The members of \<open>Impl\<close>, then the logs. A source pointer is the source it points to. The event
  callback is known by the number of the update it was given for; an upload handle by its
  generation, 0 for an invalid one. The commands and the machine's steps, each with its event,
  are those of the latest update.
\<close>

record updater =
  fw_plan :: updater_plan
  fw_sources :: "(image_source \<times> image_source option) list"
  on_event :: "nat option"
  upload_handle :: nat
  fw_machine :: "machine option"
  fw_running :: bool
  last_poll :: time_point
  posted :: "event list"
  commands :: "command list"
  told :: "(nat \<times> update_event) list"
  starts :: nat
  machine_log :: "(event \<times> machine_step) list"

text \<open>What the application may do inside its event callback.\<close>

datatype app_call =
    App_Start "file_target list" updater_plan
  | App_Confirm
  | App_Resume
  | App_Reconnect_Failed error
  | App_Cancel

record updater_env =
  on_told :: "nat \<Rightarrow> app_call list"
  new_handle :: "nat \<Rightarrow> nat"

section \<open>Events\<close>

definition plain :: "event_kind \<Rightarrow> event" where
  "plain k = \<lparr>kind = k, now = 0, ev_buf_size = 0,
     bootloader = \<lparr>bl_mode = Mcuboot_Unknown, raw_mode = 0, bl_no_downgrade = False\<rparr>,
     ev_state = None, transferred = 0, already_present = False, ev_error = no_error\<rparr>"

definition failure :: "error \<Rightarrow> event" where
  "failure e = (plain Kind_Failed)\<lparr>ev_error := e\<rparr>"

definition parameters_unavailable :: event where
  "parameters_unavailable = plain Kind_ParametersUnavailable"

definition fw_state :: "updater \<Rightarrow> update_state" where
  "fw_state u = (case fw_machine u of None \<Rightarrow> State_Idle | Some m \<Rightarrow> m_state m)"

definition fw_report :: "updater \<Rightarrow> update_report" where
  "fw_report u = (case fw_machine u of None \<Rightarrow> no_report | Some m \<Rightarrow> report (m_context m))"

definition fw_next_deadline :: "updater \<Rightarrow> time_point option" where
  "fw_next_deadline u = (case fw_machine u of None \<Rightarrow> None | Some m \<Rightarrow> next_deadline m)"

definition post :: "event \<Rightarrow> updater \<Rightarrow> updater" where
  "post ev u = u\<lparr>posted := posted u @ [ev]\<rparr>"

section \<open>Starting an update\<close>

fun validate_loop :: "file_target list \<Rightarrow> bool \<Rightarrow> bool result" where
  "validate_loop [] device_commits = Inr device_commits"
| "validate_loop (t # ts) device_commits =
     (if ft_source t = None then Inl (Error InvalidArgument ''updater: image target without a source'')
      else if list_ex (\<lambda>other. ft_image other = ft_image t) ts
      then Inl (Error InvalidArgument ''updater: an image is given twice'')
      else validate_loop ts (device_commits \<or> ft_commit t = Commit_Device))"

definition validate :: "file_target list \<Rightarrow> updater_plan \<Rightarrow> unit result" where
  "validate ts plan =
     (if ts = [] then Inl (Error InvalidArgument ''updater: no image to update'')
      else case validate_loop ts False of
        Inl e \<Rightarrow> Inl e
      | Inr device_commits \<Rightarrow>
          let any_builds = list_ex (\<lambda>t. ft_secondary t \<noteq> None) ts in
          if (length ts > 1 \<or> any_builds) \<and> up_sha (plan_upload_options plan) \<noteq> None
          then Inl (Error InvalidArgument ''updater: upload.sha with several files'')
          else if device_commits \<and> apply_poll_interval plan \<le> 0
          then Inl (Error InvalidArgument ''updater: apply_poll_interval not positive'')
          else Inr ())"

definition read_target :: "image_source \<Rightarrow> target_build result" where
  "read_target source =
     (case src_read source 0 kMcubootHeaderSize of
        Inl e \<Rightarrow> Inl e
      | Inr head \<Rightarrow>
          if length head \<noteq> kMcubootHeaderSize
          then Inl (Error InvalidArgument ''updater: source shorter than an image header'')
          else case parse_mcuboot_header head of
            Inl e \<Rightarrow> Inl e
          | Inr info \<Rightarrow>
              (case find_image_tlv_hash source info of
                 Inl e \<Rightarrow> Inl e
               | Inr None \<Rightarrow> Inl (Error InvalidArgument ''updater: image carries no hash TLV'')
               | Inr (Some h) \<Rightarrow> Inr \<lparr>b_hash = h, b_version = info_version info\<rparr>))"

text \<open>The loop of \<open>start\<close> over validated targets; both builds are read.\<close>

fun read_targets :: "file_target list \<Rightarrow> (target \<times> image_source \<times> image_source option) list result" where
  "read_targets [] = Inr []"
| "read_targets (t # ts) =
     (case ft_source t of
        None \<Rightarrow> Inl (Error InvalidArgument ''updater: image target without a source'')
      | Some src \<Rightarrow>
          (case read_target src of
             Inl e \<Rightarrow> Inl e
           | Inr file \<Rightarrow>
               let decision = \<lparr>t_image = ft_image t, commit = ft_commit t, hash = b_hash file,
                     version = b_version file, builds = None\<rparr> in
               (case (case ft_secondary t of
                        None \<Rightarrow> Inr decision
                      | Some second \<Rightarrow>
                          (case read_target second of
                             Inl e \<Rightarrow> Inl e
                           | Inr secondary \<Rightarrow> Inr (decision\<lparr>builds := Some (file, secondary)\<rparr>))) of
                  Inl e \<Rightarrow> Inl e
                | Inr d \<Rightarrow>
                    (case read_targets ts of
                       Inl e \<Rightarrow> Inl e
                     | Inr rest \<Rightarrow> Inr ((d, src, ft_secondary t) # rest)))))"

definition fw_start ::
    "file_target list \<Rightarrow> updater_plan \<Rightarrow> bool \<Rightarrow> updater \<Rightarrow> updater \<times> unit result" where
  "fw_start ts plan has_callback u =
     (if fw_running u then (u, Inl (Error InvalidState ''updater: an update is already running''))
      else if \<not> has_callback then (u, Inl (Error InvalidArgument ''updater: no event callback''))
      else case validate ts plan of
        Inl e \<Rightarrow> (u, Inl e)
      | Inr _ \<Rightarrow>
          (case read_targets ts of
             Inl e \<Rightarrow> (u, Inl e)
           | Inr files \<Rightarrow>
               (post (plain Kind_Start)
                  (u\<lparr>fw_plan := plan, fw_sources := map snd files, on_event := Some (starts u),
                    fw_machine := Some (Machine (map fst files) (update_plan.truncate plan)),
                    fw_running := True, starts := starts u + 1, machine_log := [], commands := []\<rparr>),
                Inr ())))"

text \<open>The single-image \<open>start\<close>.\<close>

definition fw_start_single ::
    "image_source \<Rightarrow> updater_plan \<Rightarrow> bool \<Rightarrow> updater \<Rightarrow> updater \<times> unit result" where
  "fw_start_single source plan =
     fw_start [\<lparr>ft_image = up_image (plan_upload_options plan), ft_source = Some source,
       ft_commit = Commit_Client, ft_secondary = None\<rparr>] plan"

section \<open>Calls of the application\<close>

definition fw_confirm :: "updater \<Rightarrow> updater \<times> unit result" where
  "fw_confirm u =
     (if fw_state u \<noteq> State_AwaitingConfirmation
      then (u, Inl (Error InvalidState ''updater: not awaiting confirmation''))
      else (post (plain Kind_ConfirmApproved) u, Inr ()))"

definition fw_resume_after_reconnect :: "updater \<Rightarrow> updater \<times> unit result" where
  "fw_resume_after_reconnect u =
     (if fw_state u \<noteq> State_AwaitingReconnect
      then (u, Inl (Error InvalidState ''updater: not awaiting a reconnect''))
      else (post (plain Kind_Reconnected) u, Inr ()))"

definition fw_reconnect_failed :: "error \<Rightarrow> updater \<Rightarrow> updater" where
  "fw_reconnect_failed e u =
     (if \<not> fw_running u then u else post ((plain Kind_ReconnectFailed)\<lparr>ev_error := e\<rparr>) u)"

definition command :: "command \<Rightarrow> updater \<Rightarrow> updater" where
  "command c u = u\<lparr>commands := commands u @ [c]\<rparr>"

definition cancel_upload :: "updater \<Rightarrow> updater" where
  "cancel_upload u = (if upload_handle u \<noteq> 0 then command (Cancel_Upload (upload_handle u)) u else u)"

definition fw_cancel :: "updater \<Rightarrow> updater" where
  "fw_cancel u = (if \<not> fw_running u then u else post (plain Kind_Cancel) (cancel_upload u))"

fun app_step :: "app_call \<Rightarrow> updater \<Rightarrow> updater" where
  "app_step (App_Start ts plan) u = fst (fw_start ts plan True u)"
| "app_step App_Confirm u = fst (fw_confirm u)"
| "app_step App_Resume u = fst (fw_resume_after_reconnect u)"
| "app_step (App_Reconnect_Failed e) u = fw_reconnect_failed e u"
| "app_step App_Cancel u = fw_cancel u"

section \<open>Carrying out a step\<close>

definition emit :: "updater_env \<Rightarrow> update_event \<Rightarrow> updater \<Rightarrow> updater" where
  "emit env ev u =
     (case on_event u of
        None \<Rightarrow> u
      | Some cb \<Rightarrow> fold app_step (on_told env (length (told u))) (u\<lparr>told := told u @ [(cb, ev)]\<rparr>))"

definition announce :: "updater_env \<Rightarrow> update_state \<Rightarrow> update_state \<Rightarrow> updater \<Rightarrow> updater" where
  "announce env previous next u =
     (if next = previous then u else emit env (UpdateStateChanged previous next) u)"

definition fw_outcome :: "updater \<Rightarrow> update_report result" where
  "fw_outcome u =
     (if fw_state u \<noteq> State_Completed
      then Inl (case cause (fw_report u) of
          None \<Rightarrow> Error Cancelled ''updater: cancelled''
        | Some e \<Rightarrow> e)
      else Inr (fw_report u))"

definition fw_finish :: "updater_env \<Rightarrow> updater \<Rightarrow> updater" where
  "fw_finish env u =
     (let u1 = u\<lparr>fw_running := False\<rparr>;
          u2 = emit env (UpdateFinished (fw_outcome u1)) u1
      in u2\<lparr>on_event := None, fw_sources := [], upload_handle := 0\<rparr>)"

text \<open>\<open>sources_[target][build]\<close>; the machine names a second build only where there is one.\<close>

definition build_source :: "image_source \<times> image_source option \<Rightarrow> nat \<Rightarrow> image_source" where
  "build_source p i = (if i = 0 then fst p else case snd p of None \<Rightarrow> fst p | Some other \<Rightarrow> other)"

definition start_upload :: "updater_env \<Rightarrow> machine_step \<Rightarrow> updater \<Rightarrow> updater" where
  "start_upload env s u =
     (let given = plan_upload_options (fw_plan u);
          options = given\<lparr>up_image := step_image s,
            up_server_buf_size :=
              (if up_server_buf_size given = None \<and> step_buf_size s \<noteq> 0 then Some (step_buf_size s)
               else up_server_buf_size given)\<rparr>;
          source = build_source (fw_sources u ! step_target s) (step_build s);
          handle = new_handle env (length (commands u))
      in (command (Upload source options) u)\<lparr>upload_handle := handle\<rparr>)"

definition apply_effect :: "updater_env \<Rightarrow> machine_step \<Rightarrow> updater \<Rightarrow> updater" where
  "apply_effect env s u =
     (case effect s of
        Effect_None \<Rightarrow> u
      | Effect_Continue \<Rightarrow> u
      | Effect_AwaitApply \<Rightarrow> u
      | Effect_QueryParameters \<Rightarrow> command Mcumgr_Parameters u
      | Effect_QueryBootloader \<Rightarrow> command Bootloader_Mode u
      | Effect_ReadState \<Rightarrow> command Get_State u
      | Effect_StartUpload \<Rightarrow> start_upload env s u
      | Effect_ResumeUpload \<Rightarrow> command (Resume_Upload (upload_handle u)) u
      | Effect_MarkForTest \<Rightarrow> command (Set_State (step_hash s) False) u
      | Effect_Reset \<Rightarrow> command (Reset_Device False) u
      | Effect_ForceReset \<Rightarrow> command (Reset_Device True) u
      | Effect_AwaitDisconnect \<Rightarrow> emit env DisconnectExpected u
      | Effect_RequestReconnect \<Rightarrow> emit env (ReconnectRequired (reconnect_hint (fw_plan u))) u
      | Effect_RequestConfirmation \<Rightarrow> emit env ConfirmationRequired u
      | Effect_Confirm \<Rightarrow> command (Set_State (step_hash s) True) u
      | Effect_Finish \<Rightarrow> fw_finish env u)"

section \<open>Dispatching events\<close>

text \<open>
  A decision that needs no I/O is followed by another only as the machine moves on to its next
  target, so the loop ends.
\<close>

definition steady :: "machine_context \<times> machine_step \<Rightarrow> bool" where
  "steady p \<longleftrightarrow> effect (snd p) \<noteq> Effect_Continue"

lemma steady_simps [simp]:
  "steady (c, mk_step st e) \<longleftrightarrow> e \<noteq> Effect_Continue" "steady (fail_update c err)" "steady (illegal c)"
  "steady (no_image c)" "steady (confirmation_fork plan c)"
  by (simp_all add: steady_def mk_step_def fail_update_def illegal_def no_image_def
      confirmation_fork_def Let_def)

lemma steady_commit_loop: "commit_loop is b c = Inl p \<Longrightarrow> steady p"
  by (induction "is" b c rule: commit_loop.induct) (auto split: if_splits apply_status.splits)

lemma steady_device_loop: "device_loop is b c = Inl p \<Longrightarrow> steady p"
  by (induction "is" b c rule: device_loop.induct) (auto split: if_splits apply_status.splits)

lemma steady_late [simp]:
  "steady (await_commit c)" "steady (await_device plan c)" "steady (inspect_boot plan c)"
proof -
  show commit: "steady (await_commit c)" for c
    by (auto simp: await_commit_def split: sum.split dest: steady_commit_loop)
  show device: "steady (await_device plan c)" for c
    using commit by (auto simp: await_device_def split: sum.split dest: steady_device_loop)
  show "steady (inspect_boot plan c)"
    using device by (auto simp: inspect_boot_def Let_def split: prod.split)
qed

lemma steady_refused:
  "check_preconditions plan c = (c', Some s) \<Longrightarrow> steady (c', s)"
  "choose_build c = (c', Some s) \<Longrightarrow> steady (c', s)"
  by (auto simp: check_preconditions_def choose_build_def Let_def fail_update_def
      split: if_splits option.splits prod.splits)

lemma check_preconditions_frame:
  "check_preconditions plan c = (c', r) \<Longrightarrow>
     length (targets c') = length (targets c) \<and> current c' = current c"
  by (auto simp: check_preconditions_def Let_def fail_update_def split: if_splits option.splits prod.splits)

definition moves_on :: "nat \<Rightarrow> nat \<Rightarrow> machine_context \<times> machine_step \<Rightarrow> bool" where
  "moves_on n k p \<longleftrightarrow> steady p \<or>
     length (targets (fst p)) = n \<and> k < current (fst p) \<and> current (fst p) < n"

lemma moves_on_steady [simp]: "steady p \<Longrightarrow> moves_on n k p"
  by (simp add: moves_on_def)

lemma steady_staged [simp]: "steady (staged plan c)"
  by (auto simp: staged_def split: prod.split option.split dest: steady_refused)

lemma steady_plan_upload [simp]: "steady (plan_upload plan c)"
  by (auto simp: plan_upload_def split: prod.split option.split dest: steady_refused)

lemma moves_on_next_target [simp]:
  "length (targets c) = n \<Longrightarrow> k \<le> current c \<Longrightarrow> moves_on n k (next_target plan c)"
  by (simp add: next_target_def Let_def) (simp add: moves_on_def)

lemma moves_on_mark_or_skip [simp]:
  "length (targets c) = n \<Longrightarrow> k \<le> current c \<Longrightarrow> moves_on n k (mark_or_skip plan c)"
  by (simp add: mark_or_skip_def)

lemma moves_on_plan_loop [simp]:
  "length (targets c) = n \<Longrightarrow> k \<le> current c \<Longrightarrow> moves_on n k (plan_loop plan c)"
proof (induction "length (targets c) - current c" arbitrary: c rule: less_induct)
  case (less c0)
  show ?case
  proof (cases "current c0 < length (targets c0)")
    case True
    obtain c bad where c: "choose_build c0 = (c, bad)" by (cases "choose_build c0")
    note frame = choose_build_measure [OF c]
    have IH: "moves_on n k (plan_loop plan c')"
      if "length (targets c') = length (targets c)" "current c' = Suc (current c)" for c'
      using less.prems True that frame by (intro less.hyps) auto
    have refused: "moves_on n k
        (case check_preconditions plan (set_image i f c) of
           (c', Some refused) \<Rightarrow> (c', refused)
         | (c', None) \<Rightarrow> mark_or_skip plan (set_image j g c'))" for i f j g
      using frame less.prems
      by (auto split: prod.split option.split dest: steady_refused check_preconditions_frame)
    show ?thesis using True c less.prems IH refused
      by (subst plan_loop.simps) (auto simp: Let_def split: option.split dest: steady_refused)
  qed (simp add: plan_loop.simps [of plan c0])
qed

lemma continue_progress:
  assumes "kind ev = Kind_Continue" and "effect (snd (machine_apply m ev)) = Effect_Continue"
  shows "length (targets (m_context (fst (machine_apply m ev)))) = length (targets (m_context m)) \<and>
    current (m_context m) < current (m_context (fst (machine_apply m ev))) \<and>
    current (m_context (fst (machine_apply m ev))) < length (targets (m_context m))"
proof -
  let ?moves = "moves_on (length (targets (m_context m))) (current (m_context m))"
  obtain c1 s1 where g: "guarded_decide m ev = (c1, s1)" by (cases "guarded_decide m ev")
  have "?moves (plan_from_state plan (m_context m))" for plan by (simp add: plan_from_state_def)
  then have "?moves (decide st ev plan (m_context m))" for st plan
    using assms(1) by (cases st) (simp_all add: decide_def)
  then have "?moves (guarded_decide m ev)" by (simp add: guarded_decide_def Let_def)
  then have m1: "?moves (c1, s1)" using g by simp
  define p where "p = (if names_current (effect s1) \<and> current c1 \<ge> length (targets c1)
    then no_image c1 else (c1, s1))"
  obtain c3 s3 where par: "parameterise (snd p) (summarise (fst p)) = (c3, s3)"
    by (cases "parameterise (snd p) (summarise (fst p))")
  have app: "machine_apply m ev =
      (m\<lparr>m_state := next_state s3, m_context := keep_time s3 (now ev) (m_plan m) c3\<rparr>, s3)"
    using par by (cases p) (simp add: machine_apply_def g p_def [symmetric])
  then have "effect (snd p) = Effect_Continue"
    using assms(2) parameterise_step(2) [OF par] by simp
  then have "p = (c1, s1)" "effect s1 = Effect_Continue"
    using steady_simps(4) [of c1] by (auto simp: p_def steady_def split: if_splits)
  then show ?thesis
    using app m1 parameterise_frame(5,6) [OF par] by (simp add: moves_on_def steady_def)
qed

text \<open>
  The loop of \<open>dispatch\<close>. \<open>m\<close> is the machine the code holds a reference to; while an update runs
  nothing the callback does replaces it.
\<close>

function dispatch_loop ::
    "updater_env \<Rightarrow> update_state \<Rightarrow> machine \<Rightarrow> machine_step \<Rightarrow> updater \<Rightarrow> updater" where
  "dispatch_loop env previous m s u =
     (let u1 = announce env previous (next_state s) u
      in if effect s \<noteq> Effect_Continue then apply_effect env s u1
         else let ev = (plain Kind_Continue)\<lparr>now := last_poll u1\<rparr>;
                  r = machine_apply m ev
              in dispatch_loop env (next_state s) (fst r) (snd r)
                   (u1\<lparr>fw_machine := Some (fst r), machine_log := machine_log u1 @ [(ev, snd r)]\<rparr>))"
  by pat_completeness auto
termination
proof (relation "measures [\<lambda>(env, previous, m, s, u). if effect s = Effect_Continue then 1 else 0,
    \<lambda>(env, previous, m, s, u). length (targets (m_context m)) - current (m_context m)]", goal_cases)
  case (2 env previous m s u u1 ev r)
  then show ?case using continue_progress [of ev m] by (auto simp: plain_def)
qed simp

declare dispatch_loop.simps [simp del]

definition dispatch :: "updater_env \<Rightarrow> event \<Rightarrow> updater \<Rightarrow> updater" where
  "dispatch env ev0 u =
     (case fw_machine u of
        None \<Rightarrow> u
      | Some m \<Rightarrow>
          if \<not> fw_running u then u
          else let ev = ev0\<lparr>now := last_poll u\<rparr>; r = machine_apply m ev
               in dispatch_loop env (m_state m) (fst r) (snd r)
                    (u\<lparr>fw_machine := Some (fst r), machine_log := machine_log u @ [(ev, snd r)]\<rparr>))"

section \<open>What reaches the updater\<close>

definition fw_poll :: "updater_env \<Rightarrow> time_point \<Rightarrow> bool \<Rightarrow> updater \<Rightarrow> updater" where
  "fw_poll env t connected u0 =
     (let u = u0\<lparr>last_poll := t\<rparr>
      in if \<not> fw_running u then u
         else if fw_state u = State_AwaitingDisconnect \<and> \<not> connected
         then dispatch env (plain Kind_Disconnected) u
         else case fw_next_deadline u of
           Some due \<Rightarrow> if due \<le> t then dispatch env (plain Kind_Tick) u else u
         | None \<Rightarrow> u)"

definition fw_abandon :: "updater_env \<Rightarrow> updater \<Rightarrow> updater" where
  "fw_abandon env u =
     (if \<not> fw_running u then u else dispatch env (plain Kind_Cancel) (cancel_upload u))"

text \<open>A closure the updater posted, run by the client.\<close>

definition run_posted :: "updater_env \<Rightarrow> updater \<Rightarrow> updater" where
  "run_posted env u =
     (case posted u of [] \<Rightarrow> u | ev # evs \<Rightarrow> dispatch env ev (u\<lparr>posted := evs\<rparr>))"

text \<open>The groups' callbacks.\<close>

definition parameters_done :: "updater_env \<Rightarrow> u32 result \<Rightarrow> updater \<Rightarrow> updater" where
  "parameters_done env r =
     (case r of
        Inl e \<Rightarrow> dispatch env parameters_unavailable
      | Inr n \<Rightarrow> dispatch env ((plain Kind_ParametersRead)\<lparr>ev_buf_size := n\<rparr>))"

definition bootloader_done :: "updater_env \<Rightarrow> bootloader_mode_info result \<Rightarrow> updater \<Rightarrow> updater" where
  "bootloader_done env r =
     (case r of
        Inl e \<Rightarrow> dispatch env (failure e)
      | Inr mode \<Rightarrow> dispatch env ((plain Kind_BootloaderRead)\<lparr>bootloader := mode\<rparr>))"

definition table_done :: "updater_env \<Rightarrow> event_kind \<Rightarrow> image_state result \<Rightarrow> updater \<Rightarrow> updater" where
  "table_done env k r =
     (case r of
        Inl e \<Rightarrow> dispatch env (failure e)
      | Inr st \<Rightarrow> dispatch env ((plain k)\<lparr>ev_state := Some st\<rparr>))"

definition reset_done :: "updater_env \<Rightarrow> unit result \<Rightarrow> updater \<Rightarrow> updater" where
  "reset_done env r =
     (case r of
        Inl e \<Rightarrow> dispatch env (failure e)
      | Inr _ \<Rightarrow> dispatch env (plain Kind_ResetAccepted))"

definition upload_done :: "updater_env \<Rightarrow> bool \<Rightarrow> upload_outcome result \<Rightarrow> updater \<Rightarrow> updater" where
  "upload_done env resumable r =
     (case r of
        Inl e \<Rightarrow> dispatch env (if resumable then plain Kind_UploadSuspended else failure e)
      | Inr out \<Rightarrow> dispatch env ((plain Kind_UploadFinished)
          \<lparr>transferred := out_transferred out, already_present := out_already_present out\<rparr>))"

text \<open>
  Everything that can reach an updater: calls, polls with the state of the link, closures it
  posted, answers of the groups. \<open>Set_State_Done\<close> carries whether the request was a confirm.
\<close>

datatype input =
    Call app_call
  | Poll time_point bool
  | Run_Posted
  | Parameters_Done "u32 result"
  | Bootloader_Done "bootloader_mode_info result"
  | Get_State_Done "image_state result"
  | Set_State_Done bool "image_state result"
  | Reset_Done "unit result"
  | Upload_Progressed upload_progress
  | Upload_Done bool "upload_outcome result"
  | Abandon

fun deliver :: "updater_env \<Rightarrow> input \<Rightarrow> updater \<Rightarrow> updater" where
  "deliver env (Call c) = app_step c"
| "deliver env (Poll t connected) = fw_poll env t connected"
| "deliver env Run_Posted = run_posted env"
| "deliver env (Parameters_Done r) = parameters_done env r"
| "deliver env (Bootloader_Done r) = bootloader_done env r"
| "deliver env (Get_State_Done r) = table_done env Kind_StateRead r"
| "deliver env (Set_State_Done confirm r) =
     table_done env (if confirm then Kind_Confirmed else Kind_MarkedForTest) r"
| "deliver env (Reset_Done r) = reset_done env r"
| "deliver env (Upload_Progressed p) = emit env (Progress p)"
| "deliver env (Upload_Done resumable r) = upload_done env resumable r"
| "deliver env Abandon = fw_abandon env"

definition FirmwareUpdater :: "updater_plan \<Rightarrow> updater" where
  "FirmwareUpdater plan = \<lparr>fw_plan = plan, fw_sources = [], on_event = None, upload_handle = 0,
     fw_machine = None, fw_running = False, last_poll = 0, posted = [], commands = [], told = [],
     starts = 0, machine_log = []\<rparr>"

definition updater_run :: "updater_env \<Rightarrow> input list \<Rightarrow> updater_plan \<Rightarrow> updater" where
  "updater_run env ins plan = fold (deliver env) ins (FirmwareUpdater plan)"

end
