(* ===== verification/UpdaterProperties.thy ===== *)
theory UpdaterProperties
  imports FirmwareUpdater
begin

text \<open>
  What the firmware updater guarantees over every history of calls, polls, answers and callbacks.
  The locale \<open>updater_invariant\<close> carries an invariant from the primitive steps to histories; its
  interpretations give that the updater carries out the state machine's decisions and nothing
  else, that the application is told of an end once and last, and that a reported success was
  shown by the device.
\<close>

section \<open>Histories\<close>

text \<open>The slot tables the groups report, and the calls made outside callbacks.\<close>

definition reported :: "input list \<Rightarrow> image_state set" where
  "reported ins = {T. Get_State_Done (Inr T) \<in> set ins \<or> (\<exists>b. Set_State_Done b (Inr T) \<in> set ins)}"

definition calls_ok :: "(app_call \<Rightarrow> bool) \<Rightarrow> input list \<Rightarrow> bool" where
  "calls_ok ok ins \<longleftrightarrow> (\<forall>c. Call c \<in> set ins \<longrightarrow> ok c)"

text \<open>
  What an invariant of the updater has to keep. \<open>P\<close> holds between inputs, \<open>Q m s\<close> while the step
  \<open>s\<close> of machine \<open>m\<close> is being carried out, \<open>R\<close> while the application is told of the end. Tables
  come from \<open>S\<close>; \<open>top\<close> limits the calls outside callbacks, \<open>inner\<close> those inside.
\<close>

locale updater_invariant =
  fixes P :: "updater \<Rightarrow> bool" and Q :: "machine \<Rightarrow> machine_step \<Rightarrow> updater \<Rightarrow> bool" and R :: "updater \<Rightarrow> bool"
    and S :: "image_state set" and top inner :: "app_call \<Rightarrow> bool"
  assumes initial: "P (FirmwareUpdater plan)"
    and posted_tables: "P u \<Longrightarrow> list_all (\<lambda>ev. ev_state ev = None) (posted u)"
    and posted_run: "P u \<Longrightarrow> posted u = ev # evs \<Longrightarrow> P (u\<lparr>posted := evs\<rparr>)"
    and clock: "P u \<Longrightarrow> P (u\<lparr>last_poll := t\<rparr>)"
    and cancelled: "P u \<Longrightarrow> fw_running u \<Longrightarrow> P (cancel_upload u)"
    and inner_top: "inner c \<Longrightarrow> top c"
    and call: "P u \<Longrightarrow> top c \<Longrightarrow> P (app_step c u)"
    and step_call: "Q m s u \<Longrightarrow> inner c \<Longrightarrow> Q m s (app_step c u)"
    and end_call: "R u \<Longrightarrow> inner c \<Longrightarrow> R (app_step c u)"
    and tell: "P u \<Longrightarrow> on_event u = Some cb \<Longrightarrow> (\<And>r. e \<noteq> UpdateFinished r) \<Longrightarrow>
      P (u\<lparr>told := told u @ [(cb, e)]\<rparr>)"
    and step_tell: "Q m s u \<Longrightarrow> on_event u = Some cb \<Longrightarrow> (\<And>r. e \<noteq> UpdateFinished r) \<Longrightarrow>
      Q m s (u\<lparr>told := told u @ [(cb, e)]\<rparr>)"
    and begins: "P u \<Longrightarrow> fw_running u \<Longrightarrow> fw_machine u = Some m \<Longrightarrow>
      (\<And>T. ev_state ev = Some T \<Longrightarrow> T \<in> S) \<Longrightarrow> machine_apply m ev = (m', s) \<Longrightarrow>
      Q m' s (u\<lparr>fw_machine := Some m', machine_log := machine_log u @ [(ev, s)]\<rparr>)"
    and continues: "Q m s u \<Longrightarrow> effect s = Effect_Continue \<Longrightarrow> ev_state ev = None \<Longrightarrow>
      machine_apply m ev = (m', s') \<Longrightarrow>
      Q m' s' (u\<lparr>fw_machine := Some m', machine_log := machine_log u @ [(ev, s')]\<rparr>)"
    and settles: "Q m s u \<Longrightarrow> effect s \<in> {Effect_None, Effect_AwaitApply, Effect_AwaitDisconnect,
        Effect_RequestReconnect, Effect_RequestConfirmation} \<Longrightarrow> P u"
    and acts: "Q m s u \<Longrightarrow> effect s \<notin> {Effect_None, Effect_AwaitApply, Effect_AwaitDisconnect,
        Effect_RequestReconnect, Effect_RequestConfirmation, Effect_Continue, Effect_Finish} \<Longrightarrow>
      P (apply_effect env s u)"
    and finishes: "Q m s u \<Longrightarrow> effect s = Effect_Finish \<Longrightarrow> on_event u = Some cb \<Longrightarrow>
      R (u\<lparr>fw_running := False, told := told u @ [(cb, UpdateFinished (fw_outcome u))]\<rparr>)"
    and finishes_silently: "Q m s u \<Longrightarrow> effect s = Effect_Finish \<Longrightarrow> on_event u = None \<Longrightarrow>
      R (u\<lparr>fw_running := False\<rparr>)"
    and cleared: "R u \<Longrightarrow> P (u\<lparr>on_event := None, fw_sources := [], upload_handle := 0\<rparr>)"
begin

lemma keeps_calls:
  "list_all inner cs \<Longrightarrow> P u \<Longrightarrow> P (fold app_step cs u)"
  "list_all inner cs \<Longrightarrow> Q m s u \<Longrightarrow> Q m s (fold app_step cs u)"
  "list_all inner cs \<Longrightarrow> R u \<Longrightarrow> R (fold app_step cs u)"
  by (induction cs arbitrary: u) (simp_all add: call inner_top step_call end_call)

lemma keeps_emit:
  assumes "\<And>n. list_all inner (on_told env n)" and "\<And>r. ev \<noteq> UpdateFinished r"
  shows "P u \<Longrightarrow> P (emit env ev u)" and "Q m s u \<Longrightarrow> Q m s (emit env ev u)"
  using assms by (auto simp: emit_def keeps_calls tell step_tell split: option.split)

lemma keeps_finish:
  assumes "\<And>n. list_all inner (on_told env n)" and "Q m s u" and "effect s = Effect_Finish"
  shows "P (fw_finish env u)"
proof -
  have "fw_outcome (u\<lparr>fw_running := False\<rparr>) = fw_outcome u"
    by (simp add: fw_outcome_def fw_state_def fw_report_def)
  then have "R (emit env (UpdateFinished (fw_outcome (u\<lparr>fw_running := False\<rparr>))) (u\<lparr>fw_running := False\<rparr>))"
    using assms finishes [OF assms(2,3)] finishes_silently [OF assms(2,3)]
    by (auto simp: emit_def keeps_calls split: option.split)
  then show ?thesis by (simp add: fw_finish_def Let_def cleared)
qed

lemma keeps_effect:
  assumes "\<And>n. list_all inner (on_told env n)" and "Q m s u" and "effect s \<noteq> Effect_Continue"
  shows "P (apply_effect env s u)"
proof (cases "effect s \<in> {Effect_None, Effect_AwaitApply, Effect_AwaitDisconnect,
    Effect_RequestReconnect, Effect_RequestConfirmation}")
  case True
  have "P u" by (rule settles [OF assms(2) True])
  then show ?thesis using True keeps_emit(1) [OF assms(1)] by (auto simp: apply_effect_def)
next
  case False
  show ?thesis
  proof (cases "effect s = Effect_Finish")
    case True
    then show ?thesis using keeps_finish [OF assms(1,2)] by (simp add: apply_effect_def)
  next
    case 2: False
    show ?thesis by (rule acts [OF assms(2)]) (use False 2 assms(3) in simp)
  qed
qed

lemma keeps_loop:
  assumes "\<And>n. list_all inner (on_told env n)" and "Q m s u"
  shows "P (dispatch_loop env previous m s u)"
  using assms
proof (induction env previous m s u rule: dispatch_loop.induct [case_names loop])
  case (loop env previous m s u)
  let ?u1 = "announce env previous (next_state s) u"
  have q: "Q m s ?u1"
    using keeps_emit(2) [OF loop.prems(1) _ loop.prems(2)] loop.prems(2) by (simp add: announce_def)
  show ?case
  proof (cases "effect s = Effect_Continue")
    case False
    then show ?thesis using keeps_effect [OF loop.prems(1) q]
      by (simp add: dispatch_loop.simps [of env previous m s u] Let_def)
  next
    case True
    let ?ev = "(plain Kind_Continue)\<lparr>now := last_poll ?u1\<rparr>"
    have "Q (fst (machine_apply m ?ev)) (snd (machine_apply m ?ev))
        (?u1\<lparr>fw_machine := Some (fst (machine_apply m ?ev)),
           machine_log := machine_log ?u1 @ [(?ev, snd (machine_apply m ?ev))]\<rparr>)"
      by (rule continues [OF q True]) (simp_all add: plain_def)
    then show ?thesis using loop.IH [OF refl _ refl refl loop.prems(1)] True
      by (simp add: dispatch_loop.simps [of env previous m s u] Let_def)
  qed
qed

lemma keeps_dispatch:
  assumes "\<And>n. list_all inner (on_told env n)" and "P u" and "\<And>T. ev_state ev = Some T \<Longrightarrow> T \<in> S"
  shows "P (dispatch env ev u)"
proof (cases "fw_running u \<and> fw_machine u \<noteq> None")
  case True
  then obtain m where m: "fw_machine u = Some m" by auto
  let ?ev = "ev\<lparr>now := last_poll u\<rparr>"
  have "Q (fst (machine_apply m ?ev)) (snd (machine_apply m ?ev))
      (u\<lparr>fw_machine := Some (fst (machine_apply m ?ev)),
         machine_log := machine_log u @ [(?ev, snd (machine_apply m ?ev))]\<rparr>)"
    using True m assms(3) by (intro begins [OF assms(2)]) simp_all
  then show ?thesis using True m keeps_loop [OF assms(1)] by (simp add: dispatch_def Let_def)
qed (use assms(2) in \<open>auto simp: dispatch_def split: option.split\<close>)

lemma keeps_deliver:
  assumes "\<And>n. list_all inner (on_told env n)" and "P u" and "reported [i] \<subseteq> S" and "calls_ok top [i]"
  shows "P (deliver env i u)"
proof -
  have quiet: "P (dispatch env ev u')" if "P u'" "ev_state ev = None" for ev u'
    by (rule keeps_dispatch [OF assms(1) that(1)]) (simp add: that(2))
  have table: "P (dispatch env ((plain k)\<lparr>ev_state := Some T\<rparr>) u)" if "T \<in> S" for k T
    by (rule keeps_dispatch [OF assms(1,2)]) (use that in simp)
  have none: "ev_state (plain k) = None" "ev_state (failure e) = None"
      "ev_state parameters_unavailable = None" for k e
    by (simp_all add: plain_def failure_def parameters_unavailable_def)
  show ?thesis
  proof (cases i)
    case (Call c)
    then show ?thesis using assms(2,4) by (simp add: call calls_ok_def)
  next
    case (Poll t b)
    then show ?thesis using clock [OF assms(2), of t]
      by (auto simp: fw_poll_def Let_def quiet none split: option.split)
  next
    case Run_Posted
    then show ?thesis using assms(2) posted_tables [OF assms(2)] posted_run [OF assms(2)]
      by (auto simp: run_posted_def quiet split: list.split)
  next
    case (Get_State_Done r)
    then show ?thesis using assms(2,3)
      by (auto simp: table_done_def reported_def quiet none table split: sum.split)
  next
    case (Set_State_Done b r)
    then show ?thesis using assms(2,3)
      by (auto simp: table_done_def reported_def quiet none table split: sum.split)
  next
    case (Upload_Progressed p)
    then show ?thesis using keeps_emit(1) [OF assms(1) _ assms(2)] by simp
  next
    case Abandon
    then show ?thesis using assms(2) cancelled [OF assms(2)] by (simp add: fw_abandon_def quiet none)
  qed (use assms(2) in \<open>auto simp: parameters_done_def bootloader_done_def reset_done_def
      upload_done_def quiet none split: sum.split\<close>)
qed

lemma keeps_run:
  assumes "\<And>n. list_all inner (on_told env n)" and "reported ins \<subseteq> S" and "calls_ok top ins"
  shows "P (updater_run env ins plan)"
proof -
  have "P u \<Longrightarrow> P (fold (deliver env) ins u)" for u
    using assms(2,3)
  proof (induction ins arbitrary: u)
    case (Cons i ins)
    have "P (deliver env i u)"
      by (rule keeps_deliver [OF assms(1) Cons.prems(1)])
        (use Cons.prems(2,3) in \<open>auto simp: reported_def calls_ok_def\<close>)
    then show ?case using Cons.IH Cons.prems(2,3) by (auto simp: reported_def calls_ok_def)
  qed simp
  then show ?thesis by (simp add: updater_run_def initial)
qed

end

section \<open>Refinement of the machine\<close>

text \<open>
  What a command asks of the device, and what a step of the machine does. Cancelling the transfer
  of an abandoned update is the updater's own.
\<close>

datatype device_op =
    Op_Parameters
  | Op_Bootloader
  | Op_Read
  | Op_Set image_hash bool
  | Op_Upload image_source u32
  | Op_Resume
  | Op_Reset bool

fun op_of_command :: "command \<Rightarrow> device_op option" where
  "op_of_command Mcumgr_Parameters = Some Op_Parameters"
| "op_of_command Bootloader_Mode = Some Op_Bootloader"
| "op_of_command Get_State = Some Op_Read"
| "op_of_command (Set_State h c) = Some (Op_Set h c)"
| "op_of_command (Upload src options) = Some (Op_Upload src (up_image options))"
| "op_of_command (Resume_Upload h) = Some Op_Resume"
| "op_of_command (Cancel_Upload h) = None"
| "op_of_command (Reset_Device force) = Some (Op_Reset force)"

definition op_of_step ::
    "(image_source \<times> image_source option) list \<Rightarrow> machine_step \<Rightarrow> device_op option" where
  "op_of_step sources s =
     (case effect s of
        Effect_QueryParameters \<Rightarrow> Some Op_Parameters
      | Effect_QueryBootloader \<Rightarrow> Some Op_Bootloader
      | Effect_ReadState \<Rightarrow> Some Op_Read
      | Effect_StartUpload \<Rightarrow>
          Some (Op_Upload (build_source (sources ! step_target s) (step_build s)) (step_image s))
      | Effect_ResumeUpload \<Rightarrow> Some Op_Resume
      | Effect_MarkForTest \<Rightarrow> Some (Op_Set (step_hash s) False)
      | Effect_Confirm \<Rightarrow> Some (Op_Set (step_hash s) True)
      | Effect_Reset \<Rightarrow> Some (Op_Reset False)
      | Effect_ForceReset \<Rightarrow> Some (Op_Reset True)
      | _ \<Rightarrow> None)"

definition carried_out :: "updater \<Rightarrow> device_op list" where
  "carried_out u = List.map_filter op_of_command (commands u)"

definition decided ::
    "(image_source \<times> image_source option) list \<Rightarrow> (event \<times> machine_step) list \<Rightarrow> device_op list" where
  "decided sources tr = List.map_filter (\<lambda>(ev, s). op_of_step sources s) tr"

lemma carried_out_simps [simp]:
  "carried_out (u\<lparr>commands := cs @ [c]\<rparr>) =
     carried_out (u\<lparr>commands := cs\<rparr>) @ (case op_of_command c of None \<Rightarrow> [] | Some o1 \<Rightarrow> [o1])"
  "carried_out (u\<lparr>commands := []\<rparr>) = []"
  by (simp_all add: carried_out_def map_filter_def split: option.split)

lemma decided_snoc [simp]:
  "decided sources (tr @ [(ev, s)]) =
     decided sources tr @ (case op_of_step sources s of None \<Rightarrow> [] | Some o1 \<Rightarrow> [o1])"
  "decided sources [] = []"
  by (simp_all add: decided_def map_filter_def split: option.split)

text \<open>A target of the machine is what its file says.\<close>

definition read_from :: "target \<times> image_source \<times> image_source option \<Rightarrow> bool" where
  "read_from x \<longleftrightarrow>
     (case x of (t, src, second) \<Rightarrow>
        \<exists>file. read_target src = Inr file \<and> hash t = b_hash file \<and> version t = b_version file \<and>
          (case second of
             None \<Rightarrow> builds t = None
           | Some other \<Rightarrow> \<exists>file2. read_target other = Inr file2 \<and> builds t = Some (file, file2)))"

lemma read_targets_read:
  "read_targets ts = Inr files \<Longrightarrow> list_all read_from files \<and> length files = length ts"
proof (induction ts arbitrary: files)
  case (Cons t ts)
  obtain d src rest where "files = (d, src, ft_secondary t) # rest" "read_targets ts = Inr rest"
      "read_from (d, src, ft_secondary t)"
    using Cons.prems by (auto simp: read_from_def Let_def split: option.splits sum.splits)
  then show ?case using Cons.IH by simp
qed simp

lemma validate_nonempty: "validate ts plan = Inr () \<Longrightarrow> ts \<noteq> []"
  by (auto simp: validate_def)

lemma finish_iff_terminal:
  assumes "run ts plan m tr" and "\<not> is_terminal (m_state m)" and "machine_apply m ev = (m', s)"
  shows "next_state s = m_state m' \<and> (effect s = Effect_Finish \<longleftrightarrow> is_terminal (m_state m'))"
proof -
  obtain c1 s1 where "step_ok ts (tables (tr @ [(ev, s)])) plan (c1, s1) \<or>
      c1 = m_context m \<and> s1 = mk_step (m_state m) Effect_None"
    and "m_state m' = next_state s1" "next_state s = next_state s1" "effect s = effect s1"
    using run_step_cases [OF assms(1,3)] by metis
  then show ?thesis using assms(2)
    by (cases "next_state s1") (auto simp: step_ok_def legal_step_def is_terminal_def)
qed

definition is_start :: "app_call \<Rightarrow> bool" where
  "is_start c = (case c of App_Start ts plan \<Rightarrow> True | _ \<Rightarrow> False)"

definition history :: "(target \<times> image_source \<times> image_source option) list \<Rightarrow> machine \<Rightarrow> updater \<Rightarrow> bool" where
  "history files m u \<longleftrightarrow> files \<noteq> [] \<and> list_all read_from files \<and>
     run (map fst files) (update_plan.truncate (fw_plan u)) m (machine_log u)"

definition quiet_posts :: "updater \<Rightarrow> bool" where
  "quiet_posts u \<longleftrightarrow> list_all (\<lambda>ev. ev_state ev = None) (posted u)"

definition following :: "updater \<Rightarrow> bool" where
  "following u \<longleftrightarrow> quiet_posts u \<and>
     (case fw_machine u of
        None \<Rightarrow> \<not> fw_running u
      | Some m \<Rightarrow> (fw_running u \<longleftrightarrow> \<not> is_terminal (m_state m)) \<and>
          (\<exists>files. history files m u \<and> (fw_running u \<longrightarrow> fw_sources u = map snd files) \<and>
             carried_out u = decided (map snd files) (machine_log u)))"

definition stepping :: "machine \<Rightarrow> machine_step \<Rightarrow> updater \<Rightarrow> bool" where
  "stepping m s u \<longleftrightarrow> quiet_posts u \<and> fw_running u \<and> fw_machine u = Some m \<and>
     (effect s = Effect_Finish \<longleftrightarrow> is_terminal (m_state m)) \<and>
     (\<exists>files ev pre. history files m u \<and> fw_sources u = map snd files \<and>
        machine_log u = pre @ [(ev, s)] \<and> carried_out u = decided (map snd files) pre)"

definition started ::
    "(target \<times> image_source \<times> image_source option) list \<Rightarrow> updater_plan \<Rightarrow> updater \<Rightarrow> updater" where
  "started files plan u =
     u\<lparr>fw_plan := plan, fw_sources := map snd files, on_event := Some (starts u),
       fw_machine := Some (Machine (map fst files) (update_plan.truncate plan)),
       fw_running := True, starts := starts u + 1, machine_log := [], commands := [],
       posted := posted u @ [plain Kind_Start]\<rparr>"

lemma fw_start_cases:
  obtains "fst (fw_start ts plan cb u) = u"
  | files where "\<not> fw_running u" "files \<noteq> []" "list_all read_from files"
    "fst (fw_start ts plan cb u) = started files plan u"
proof (cases "fw_running u \<or> \<not> cb")
  case True
  then show thesis using that(1) by (auto simp: fw_start_def)
next
  case False
  show thesis
  proof (cases "validate ts plan")
    case (Inl e)
    then show thesis using False that(1) by (simp add: fw_start_def)
  next
    case valid: (Inr n)
    then have ne: "ts \<noteq> []" using validate_nonempty [of ts plan] by simp
    show thesis
    proof (cases "read_targets ts")
      case (Inl e)
      then show thesis using False valid that(1) by (simp add: fw_start_def)
    next
      case (Inr files)
      then have "fst (fw_start ts plan cb u) = started files plan u"
        using False valid by (simp add: fw_start_def post_def started_def)
      moreover have "list_all read_from files" "files \<noteq> []"
        using read_targets_read [OF Inr] ne by auto
      ultimately show thesis using that(2) False by blast
    qed
  qed
qed

lemma following_start:
  assumes "following u"
  shows "following (fst (fw_start ts plan cb u))"
proof (cases rule: fw_start_cases [of ts plan cb u])
  case (2 files)
  have "run (map fst files) (update_plan.truncate plan) (Machine (map fst files) (update_plan.truncate plan)) []"
    by (rule run.init)
  then have "history files (Machine (map fst files) (update_plan.truncate plan)) (started files plan u)"
    using 2 by (simp add: history_def started_def)
  moreover have "carried_out (started files plan u) = []" by (simp add: started_def carried_out_def)
  ultimately show ?thesis using assms 2
    by (auto simp: following_def quiet_posts_def started_def is_terminal_def plain_def Machine_def
        intro!: exI [of _ files])
qed (simp add: assms)

lemma post_simps [simp]:
  "quiet_posts (post ev u) \<longleftrightarrow> quiet_posts u \<and> ev_state ev = None" "fw_machine (post ev u) = fw_machine u"
  "fw_running (post ev u) = fw_running u" "history files m (post ev u) = history files m u"
  "fw_sources (post ev u) = fw_sources u" "carried_out (post ev u) = carried_out u"
  "machine_log (post ev u) = machine_log u"
  by (simp_all add: post_def quiet_posts_def history_def carried_out_def)

lemma cancel_upload_simps [simp]:
  "quiet_posts (cancel_upload u) = quiet_posts u" "fw_machine (cancel_upload u) = fw_machine u"
  "fw_running (cancel_upload u) = fw_running u" "history files m (cancel_upload u) = history files m u"
  "fw_sources (cancel_upload u) = fw_sources u" "carried_out (cancel_upload u) = carried_out u"
  "machine_log (cancel_upload u) = machine_log u"
  by (simp_all add: cancel_upload_def command_def quiet_posts_def history_def carried_out_def map_filter_def)

lemma plain_state [simp]: "ev_state (plain k) = None"
  by (simp add: plain_def)

lemma following_call: "following u \<Longrightarrow> following (app_step c u)"
  by (cases c) (auto simp: following_start, auto simp: following_def fw_confirm_def
      fw_resume_after_reconnect_def fw_reconnect_failed_def fw_cancel_def split: option.splits)

lemma stepping_call: "stepping m s u \<Longrightarrow> stepping m s (app_step c u)"
  by (cases c) (auto simp: stepping_def fw_start_def fw_confirm_def
      fw_resume_after_reconnect_def fw_reconnect_failed_def fw_cancel_def)

lemma history_step:
  assumes "history files m u" and "machine_apply m ev = (m', s)"
  shows "history files m' (u\<lparr>fw_machine := Some m', machine_log := machine_log u @ [(ev, s)]\<rparr>)"
  using assms run.step [of "map fst files" _ m "machine_log u" ev m' s] by (simp add: history_def)

lemma stepping_begins:
  assumes "following u" "fw_running u" "fw_machine u = Some m" "machine_apply m ev = (m', s)"
  shows "stepping m' s (u\<lparr>fw_machine := Some m', machine_log := machine_log u @ [(ev, s)]\<rparr>)"
proof -
  obtain files where f: "history files m u" "fw_sources u = map snd files"
      "carried_out u = decided (map snd files) (machine_log u)" "\<not> is_terminal (m_state m)"
    using assms(1-3) by (auto simp: following_def)
  have "effect s = Effect_Finish \<longleftrightarrow> is_terminal (m_state m')"
    using finish_iff_terminal [OF _ f(4) assms(4)] f(1) by (auto simp: history_def)
  then show ?thesis using assms(1,2) f history_step [OF f(1) assms(4)]
    by (auto simp: stepping_def following_def quiet_posts_def carried_out_def intro!: exI [of _ files])
qed

lemma stepping_continues:
  assumes "stepping m s u" "effect s = Effect_Continue" "machine_apply m ev = (m', s')"
  shows "stepping m' s' (u\<lparr>fw_machine := Some m', machine_log := machine_log u @ [(ev, s')]\<rparr>)"
proof -
  obtain files ev0 pre where f: "history files m u" "fw_sources u = map snd files"
      "machine_log u = pre @ [(ev0, s)]" "carried_out u = decided (map snd files) pre"
      "\<not> is_terminal (m_state m)"
    using assms(1,2) by (auto simp: stepping_def)
  have "carried_out u = decided (map snd files) (machine_log u)"
    using f(3,4) assms(2) by (simp add: op_of_step_def)
  moreover have "effect s' = Effect_Finish \<longleftrightarrow> is_terminal (m_state m')"
    using finish_iff_terminal [OF _ f(5) assms(3)] f(1) by (auto simp: history_def)
  ultimately show ?thesis using assms(1) f(2) history_step [OF f(1) assms(3)]
    by (auto simp: stepping_def quiet_posts_def carried_out_def intro!: exI [of _ files])
qed

lemma start_upload_op:
  "\<exists>options h. start_upload env s u =
     (command (Upload (build_source (fw_sources u ! step_target s) (step_build s)) options) u)\<lparr>upload_handle := h\<rparr> \<and>
     up_image options = step_image s"
  by (auto simp: start_upload_def Let_def)

lemma stepping_acts:
  assumes "stepping m s u" and "effect s \<notin> {Effect_Continue, Effect_Finish, Effect_AwaitDisconnect,
        Effect_RequestReconnect, Effect_RequestConfirmation}"
  shows "following (apply_effect env s u)"
proof -
  obtain files ev pre where f: "history files m u" "fw_sources u = map snd files"
      "machine_log u = pre @ [(ev, s)]" "carried_out u = decided (map snd files) pre"
      "\<not> is_terminal (m_state m)" "fw_running u" "fw_machine u = Some m" "quiet_posts u"
    using assms by (auto simp: stepping_def)
  have keep: "following (u\<lparr>commands := commands u @ cs, upload_handle := h\<rparr>)"
    if "List.map_filter op_of_command cs = decided (map snd files) [(ev, s)]" for cs h
  proof -
    have "carried_out (u\<lparr>commands := commands u @ cs, upload_handle := h\<rparr>) =
        decided (map snd files) (machine_log u)"
      using f(3,4) that by (simp add: carried_out_def decided_def map_filter_def)
    then show ?thesis using f
      by (auto simp: following_def history_def quiet_posts_def intro!: exI [of _ files])
  qed
  have same: "following (u\<lparr>commands := commands u @ cs\<rparr>)"
    if "List.map_filter op_of_command cs = decided (map snd files) [(ev, s)]" for cs
    using keep [OF that, of "upload_handle u"] by simp
  show ?thesis
  proof (cases "effect s = Effect_StartUpload")
    case True
    obtain options h where o: "start_upload env s u = (command (Upload (build_source
        (fw_sources u ! step_target s) (step_build s)) options) u)\<lparr>upload_handle := h\<rparr>"
      "up_image options = step_image s"
      using start_upload_op by blast
    then show ?thesis using True f(2)
      by (auto simp: apply_effect_def command_def decided_def op_of_step_def map_filter_def intro: keep)
  next
    case False
    have "following (u\<lparr>commands := commands u @ []\<rparr>)" if "op_of_step (map snd files) s = None"
      using that by (intro same) (simp add: decided_def map_filter_def)
    then show ?thesis using False assms(2)
      by (cases "effect s") (auto simp: apply_effect_def command_def decided_def op_of_step_def
          map_filter_def intro!: same)
  qed
qed

lemma following_updates [simp]:
  "following (u\<lparr>told := x\<rparr>) = following u" "following (u\<lparr>last_poll := t\<rparr>) = following u"
  "following (u\<lparr>on_event := z\<rparr>) = following u" "following (u\<lparr>upload_handle := h\<rparr>) = following u"
  "stepping m s (u\<lparr>told := x\<rparr>) = stepping m s u"
  by (simp_all add: following_def stepping_def quiet_posts_def history_def carried_out_def split: option.split)

lemma following_ends:
  assumes "stepping m s u" and "effect s = Effect_Finish"
  shows "following (u\<lparr>fw_running := False\<rparr>)"
proof -
  obtain files ev pre where f: "history files m u" "machine_log u = pre @ [(ev, s)]"
      "carried_out u = decided (map snd files) pre"
    using assms by (auto simp: stepping_def)
  then have "carried_out u = decided (map snd files) (machine_log u)"
    using assms(2) by (simp add: op_of_step_def)
  then show ?thesis using assms f(1)
    by (auto simp: following_def stepping_def quiet_posts_def history_def carried_out_def
        intro!: exI [of _ files])
qed

lemma following_settles:
  assumes "stepping m s u" and "effect s \<in> {Effect_None, Effect_AwaitApply, Effect_AwaitDisconnect,
    Effect_RequestReconnect, Effect_RequestConfirmation}"
  shows "following u"
proof -
  obtain files ev pre where f: "history files m u" "fw_sources u = map snd files"
      "machine_log u = pre @ [(ev, s)]" "carried_out u = decided (map snd files) pre"
    using assms by (auto simp: stepping_def)
  then have "carried_out u = decided (map snd files) (machine_log u)"
    using assms(2) by (auto simp: op_of_step_def)
  then show ?thesis using assms f(1,2) by (auto simp: following_def stepping_def)
qed

lemma stays_ended:
  "following u \<Longrightarrow> \<not> fw_running u \<Longrightarrow> \<not> is_start c \<Longrightarrow> \<not> fw_running (app_step c u)"
  by (cases c) (simp_all add: is_start_def fw_confirm_def fw_resume_after_reconnect_def
      fw_reconnect_failed_def fw_cancel_def)

interpretation following: updater_invariant following stepping "\<lambda>u. following u \<and> \<not> fw_running u" UNIV
    "\<lambda>_. True" "\<lambda>c. \<not> is_start c"
proof (unfold_locales, goal_cases)
  case 1
  then show ?case by (simp add: following_def FirmwareUpdater_def quiet_posts_def)
next
  case (2 u)
  then show ?case by (simp add: following_def quiet_posts_def)
next
  case (3 u ev evs)
  then show ?case
    by (auto simp: following_def quiet_posts_def history_def carried_out_def split: option.splits)
next
  case (5 u)
  then show ?case by (auto simp: following_def split: option.splits)
next
  case (9 u c)
  then show ?case using following_call stays_ended by blast
next
  case (14 m s u)
  then show ?case by (rule following_settles)
next
  case (15 m s u env)
  then show ?case by (intro stepping_acts [OF 15(1)]) auto
next
  case (16 m s u cb)
  then show ?case using following_ends [OF 16(1,2)] by simp
next
  case (18 u)
  then show ?case by (auto simp: following_def quiet_posts_def history_def carried_out_def split: option.splits)
qed (auto simp: following_call stepping_call stepping_begins stepping_continues following_ends)

section \<open>What the application is told\<close>

definition is_finished :: "update_event \<Rightarrow> bool" where
  "is_finished e = (case e of UpdateFinished r \<Rightarrow> True | _ \<Rightarrow> False)"

text \<open>What the callback of update \<open>k\<close> was told.\<close>

definition heard :: "nat \<Rightarrow> updater \<Rightarrow> update_event list" where
  "heard k u = map snd (filter (\<lambda>(j, e). j = k) (told u))"

lemma heard_told [simp]:
  "heard k (u\<lparr>told := told u @ [(cb, e)]\<rparr>) = heard k u @ (if k = cb then [e] else [])"
  by (simp add: heard_def)

lemma heard_cong: "told u = told u' \<Longrightarrow> heard k u = heard k u'"
  by (simp add: heard_def)

text \<open>An end is the last thing a callback hears, and nobody hears of an update before it starts.\<close>

definition in_order :: "updater \<Rightarrow> bool" where
  "in_order u \<longleftrightarrow> (\<forall>k. list_all (\<lambda>e. \<not> is_finished e) (butlast (heard k u))) \<and>
     (\<forall>k\<ge>starts u. heard k u = [])"

definition listening :: "updater \<Rightarrow> bool" where
  "listening u \<longleftrightarrow> quiet_posts u \<and> in_order u \<and>
     (\<forall>k. on_event u = Some k \<longrightarrow> fw_running u \<and> k + 1 = starts u \<and>
        list_all (\<lambda>e. \<not> is_finished e) (heard k u))"

definition parting :: "updater \<Rightarrow> bool" where
  "parting u \<longleftrightarrow> quiet_posts u \<and> in_order u"

text \<open>Every update but a running one has ended.\<close>

definition accounted :: "updater \<Rightarrow> bool" where
  "accounted u \<longleftrightarrow>
     (if fw_running u
      then (\<exists>k. starts u = Suc k \<and> on_event u = Some k \<and> (\<forall>j < k. list_ex is_finished (heard j u)))
      else (\<forall>j < starts u. list_ex is_finished (heard j u)))"

lemma app_step_cases:
  obtains ts plan where "c = App_Start ts plan"
  | "told (app_step c u) = told u" "starts (app_step c u) = starts u"
    "on_event (app_step c u) = on_event u" "fw_running (app_step c u) = fw_running u"
    "\<not> is_start c"
  by (cases c) (auto simp: is_start_def fw_confirm_def fw_resume_after_reconnect_def
      fw_reconnect_failed_def fw_cancel_def cancel_upload_def command_def post_def)

lemma quiet_posts_call: "quiet_posts u \<Longrightarrow> quiet_posts (app_step c u)"
  by (cases c) (auto simp: fw_start_def fw_confirm_def fw_resume_after_reconnect_def
      fw_reconnect_failed_def fw_cancel_def split: sum.split, auto simp: quiet_posts_def)

lemma in_order_cong: "told u = told u' \<Longrightarrow> starts u = starts u' \<Longrightarrow> in_order u = in_order u'"
  by (simp add: in_order_def heard_def)

lemma started_simps [simp]:
  "told (started files plan u) = told u" "starts (started files plan u) = Suc (starts u)"
  "on_event (started files plan u) = Some (starts u)" "fw_running (started files plan u)"
  by (simp_all add: started_def)

lemma in_order_call: "in_order u \<Longrightarrow> in_order (app_step c u)"
proof (cases rule: app_step_cases [where c = c and u = u])
  case (1 ts plan)
  assume "in_order u"
  then show ?thesis using 1
    by (cases rule: fw_start_cases [of ts plan True u]) (auto simp: in_order_def heard_def)
qed (use in_order_cong in blast)

lemma listening_call: "listening u \<Longrightarrow> listening (app_step c u)"
proof -
  assume l: "listening u"
  note keep = quiet_posts_call [of u c] in_order_call [of u c]
  show ?thesis
  proof (cases rule: app_step_cases [where c = c and u = u])
    case (1 ts plan)
    show ?thesis
    proof (cases rule: fw_start_cases [of ts plan True u])
      case (2 files)
      then have "heard (starts u) (started files plan u) = []"
        using l by (simp add: listening_def in_order_def heard_def)
      then show ?thesis using l keep 1 2 by (simp add: listening_def)
    qed (use l 1 in simp)
  qed (use l keep in \<open>auto simp: listening_def heard_def\<close>)
qed

lemma accounted_call: "accounted u \<Longrightarrow> accounted (app_step c u)"
proof -
  assume a: "accounted u"
  show ?thesis
  proof (cases rule: app_step_cases [where c = c and u = u])
    case (1 ts plan)
    show ?thesis
    proof (cases rule: fw_start_cases [of ts plan True u])
      case (2 files)
      then show ?thesis using a 1 by (simp add: accounted_def heard_def)
    qed (use a 1 in simp)
  qed (use a in \<open>auto simp: accounted_def heard_def\<close>)
qed

lemma in_order_told:
  assumes "in_order u" and "list_all (\<lambda>e. \<not> is_finished e) (heard cb u)" and "cb < starts u"
  shows "in_order (u\<lparr>told := told u @ [(cb, e)]\<rparr>)"
  using assms by (auto simp: in_order_def)

lemma apply_effect_frame:
  assumes "effect s \<notin> {Effect_AwaitDisconnect, Effect_RequestReconnect, Effect_RequestConfirmation, Effect_Finish}"
  shows "told (apply_effect env s u) = told u \<and> starts (apply_effect env s u) = starts u \<and>
    on_event (apply_effect env s u) = on_event u \<and> fw_running (apply_effect env s u) = fw_running u \<and>
    posted (apply_effect env s u) = posted u \<and> fw_plan (apply_effect env s u) = fw_plan u \<and>
    fw_machine (apply_effect env s u) = fw_machine u"
  using assms by (cases "effect s") (simp_all add: apply_effect_def command_def start_upload_def Let_def)

lemma listening_updates [simp]:
  "listening (u\<lparr>last_poll := t\<rparr>) = listening u"
  "listening (u\<lparr>fw_machine := m, machine_log := l\<rparr>) = listening u"
  "listening (cancel_upload u) = listening u"
  "accounted (u\<lparr>last_poll := t\<rparr>) = accounted u" "accounted (u\<lparr>posted := ps\<rparr>) = accounted u"
  "accounted (u\<lparr>fw_machine := m, machine_log := l\<rparr>) = accounted u"
  "accounted (cancel_upload u) = accounted u"
  by (simp_all add: listening_def accounted_def quiet_posts_def in_order_def heard_def cancel_upload_def
      command_def)

lemma listening_posted: "listening u \<Longrightarrow> posted u = ev # evs \<Longrightarrow> listening (u\<lparr>posted := evs\<rparr>)"
  by (simp add: listening_def quiet_posts_def in_order_def heard_def)

lemma listening_told:
  assumes "listening u" and "on_event u = Some cb" and "\<And>r. e \<noteq> UpdateFinished r"
  shows "listening (u\<lparr>told := told u @ [(cb, e)]\<rparr>)"
proof -
  have "\<not> is_finished e" using assms(3) by (auto simp: is_finished_def split: update_event.splits)
  then show ?thesis using assms(1,2) in_order_told [of u cb e]
    by (auto simp: listening_def quiet_posts_def)
qed

lemma accounted_told: "accounted u \<Longrightarrow> accounted (u\<lparr>told := told u @ [(cb, e)]\<rparr>)"
  by (auto simp: accounted_def)

lemma parting_finished:
  assumes "listening u" and "on_event u = Some cb"
  shows "parting (u\<lparr>fw_running := False, told := told u @ [(cb, e)]\<rparr>)"
  using assms in_order_told [of "u\<lparr>fw_running := False\<rparr>" cb e]
  by (auto simp: listening_def parting_def quiet_posts_def in_order_def heard_def)

lemma parting_silent: "listening u \<Longrightarrow> parting (u\<lparr>fw_running := False\<rparr>)"
  by (simp add: listening_def parting_def quiet_posts_def in_order_def heard_def)

lemma parting_call: "parting u \<Longrightarrow> parting (app_step c u)"
  by (simp add: parting_def quiet_posts_call in_order_call)

lemma running_call: "fw_running u \<Longrightarrow> fw_running (app_step c u)"
  by (cases c) (auto simp: fw_start_def fw_confirm_def fw_resume_after_reconnect_def
      fw_reconnect_failed_def fw_cancel_def)

lemma running_call_machine: "fw_running u \<Longrightarrow> fw_machine (app_step c u) = fw_machine u"
  by (cases c) (auto simp: fw_start_def fw_confirm_def fw_resume_after_reconnect_def
      fw_reconnect_failed_def fw_cancel_def)

lemma listening_acts:
  assumes "listening u" and "effect s \<notin> {Effect_AwaitDisconnect, Effect_RequestReconnect,
    Effect_RequestConfirmation, Effect_Finish}"
  shows "listening (apply_effect env s u)"
  using assms(1) apply_effect_frame [OF assms(2), of env u]
  by (simp add: listening_def quiet_posts_def in_order_def heard_def)

lemma listening_cleared:
  "parting u \<Longrightarrow> listening (u\<lparr>on_event := None, fw_sources := [], upload_handle := 0\<rparr>)"
  by (simp add: listening_def parting_def quiet_posts_def in_order_def heard_def)

lemmas listening_keeps = listening_call listening_posted listening_told parting_finished parting_silent parting_call
   running_call listening_acts listening_cleared

interpretation telling: updater_invariant listening "\<lambda>m s u. listening u \<and> fw_running u" parting UNIV
    "\<lambda>_. True" "\<lambda>_. True"
proof (unfold_locales, goal_cases)
  case 1
  then show ?case by (simp add: listening_def FirmwareUpdater_def quiet_posts_def in_order_def heard_def)
next
  case (2 u)
  then show ?case by (simp add: listening_def quiet_posts_def)
qed (auto simp: listening_keeps)

definition all_ended :: "updater \<Rightarrow> bool" where
  "all_ended u \<longleftrightarrow> \<not> fw_running u \<and> (\<forall>j < starts u. list_ex is_finished (heard j u))"

lemma all_ended_call: "all_ended u \<Longrightarrow> \<not> is_start c \<Longrightarrow> all_ended (app_step c u)"
  by (cases rule: app_step_cases [where c = c and u = u]) (auto simp: is_start_def all_ended_def heard_def)

lemma all_ended_finished:
  "accounted u \<Longrightarrow> fw_running u \<Longrightarrow> on_event u = Some cb \<Longrightarrow>
     all_ended (u\<lparr>fw_running := False, told := told u @ [(cb, UpdateFinished r)]\<rparr>)"
  by (auto simp: accounted_def all_ended_def heard_def is_finished_def less_Suc_eq)

lemma all_ended_cleared:
  "all_ended u \<Longrightarrow> accounted (u\<lparr>on_event := None, fw_sources := [], upload_handle := 0\<rparr>)"
  by (simp add: accounted_def all_ended_def heard_def)

lemma accounted_acts:
  assumes "accounted u" and "effect s \<notin> {Effect_AwaitDisconnect, Effect_RequestReconnect,
    Effect_RequestConfirmation, Effect_Finish}"
  shows "accounted (apply_effect env s u)"
  using assms(1) apply_effect_frame [OF assms(2), of env u]
  by (auto simp: accounted_def heard_def split: if_splits)

lemmas accounted_keeps = accounted_call accounted_told all_ended_call all_ended_finished all_ended_cleared
  accounted_acts

interpretation accounting: updater_invariant "\<lambda>u. listening u \<and> accounted u"
    "\<lambda>m s u. listening u \<and> accounted u \<and> fw_running u" "\<lambda>u. parting u \<and> all_ended u" UNIV
    "\<lambda>_. True" "\<lambda>c. \<not> is_start c"
proof (unfold_locales, goal_cases)
  case 1
  then show ?case
    by (simp add: listening_def FirmwareUpdater_def quiet_posts_def in_order_def heard_def accounted_def)
next
  case (2 u)
  then show ?case by (simp add: listening_def quiet_posts_def)
next
  case (17 m s u)
  then show ?case by (auto simp: accounted_def)
qed (auto simp: listening_keeps accounted_keeps)

section \<open>What success means\<close>

definition runs_in :: "image_state \<Rightarrow> image_report \<Rightarrow> bool" where
  "runs_in T im \<longleftrightarrow>
     (case active_slot T (r_image im) of
        None \<Rightarrow> False
      | Some (i, s) \<Rightarrow> r_target_hash im \<noteq> [] \<and> slot_hash s = Some (r_target_hash im))"

definition confirmed_at :: "image_state \<Rightarrow> image_report \<Rightarrow> bool" where
  "confirmed_at T im \<longleftrightarrow> slot_confirmed (active_slot T (r_image im))"

text \<open>The report of an update that installed its images, on slot tables of \<open>S\<close>.\<close>

definition installed :: "image_state set \<Rightarrow> update_report \<Rightarrow> bool" where
  "installed S r \<longleftrightarrow> final_state r = State_Completed \<and> cause r = None \<and> \<not> revert_pending r \<and>
     images r \<noteq> [] \<and>
     (\<exists>T\<in>S. \<forall>im\<in>set (images r). r_commit im = Commit_Client \<longrightarrow>
        runs_in T im \<and> (confirmed_at T im \<or> bootloader_mode r = Mcuboot_DirectXip)) \<and>
     (\<exists>T\<in>S. final_device_state r = Some T \<and>
        (\<forall>im\<in>set (images r). r_commit im = Commit_Device \<longrightarrow> runs_in T im \<and> confirmed_at T im))"

lemma seen_in:
  "t_image t = r_image im \<Longrightarrow> hash t = r_target_hash im \<Longrightarrow> holds_in T t \<longleftrightarrow> runs_in T im"
  "t_image t = r_image im \<Longrightarrow> confirmed_in T t \<longleftrightarrow> confirmed_at T im"
  by (simp_all add: holds_in_def holds_def runs_in_def confirmed_in_def confirmed_at_def split: option.split)

lemma run_installed:
  assumes "run ts plan m tr" and "m_state m = State_Completed" and "plan_mode plan \<noteq> Mode_UploadOnly"
    and "ts \<noteq> []" and "tables tr \<subseteq> S"
  shows "installed S (report (m_context m))"
proof -
  let ?c = "m_context m" and ?r = "report (m_context m)"
  have inv: "machine_inv ts (tables tr) plan State_Completed ?c" using run_inv [OF assms(1)] assms(2) by simp
  obtain T1 T2 where T: "T1 \<in> S" "clients_done T1 ?c" "device ?c = Some T2" "T2 \<in> S" "devices_committed T2 ?c"
    using inv assms(3,5) by (auto simp: machine_inv_def state_ok_def core_def upload_only_def)
  have shape: "map rstatic (images ?r) = map (\<lambda>t. (t_image t, commit t, hash t)) (targets ?c)"
      "length (targets ?c) = length ts"
    using inv by (auto simp: machine_inv_def core_def shape_def dest: map_eq_imp_length_eq)
  have of_report: "\<exists>t\<in>set (targets ?c). t_image t = r_image im \<and> commit t = r_commit im \<and> hash t = r_target_hash im"
    if "im \<in> set (images ?r)" for im
  proof -
    have "rstatic im \<in> set (map rstatic (images ?r))" using that by simp
    then have "rstatic im \<in> set (map (\<lambda>t. (t_image t, commit t, hash t)) (targets ?c))"
      unfolding shape(1) .
    then show ?thesis unfolding rstatic_def set_map by (auto simp: image_iff)
  qed
  have "runs_in T1 im \<and> (confirmed_at T1 im \<or> bootloader_mode ?r = Mcuboot_DirectXip)"
    if "im \<in> set (images ?r)" "r_commit im = Commit_Client" for im
  proof -
    note im = that
    obtain t where t: "t \<in> set (targets ?c)" "t_image t = r_image im" "commit t = r_commit im"
        "hash t = r_target_hash im"
      using of_report [OF im(1)] by blast
    then show ?thesis using T(2) im(2) seen_in(1) [OF t(2,4), of T1] seen_in(2) [OF t(2), of T1]
      by (auto simp: clients_done_def without_set_state_def)
  qed
  moreover have "runs_in T2 im \<and> confirmed_at T2 im"
    if "im \<in> set (images ?r)" "r_commit im = Commit_Device" for im
  proof -
    note im = that
    obtain t where t: "t \<in> set (targets ?c)" "t_image t = r_image im" "commit t = r_commit im"
        "hash t = r_target_hash im"
      using of_report [OF im(1)] by blast
    then show ?thesis using T(5) im(2) seen_in(1) [OF t(2,4), of T2] seen_in(2) [OF t(2), of T2]
      by (auto simp: devices_committed_def)
  qed
  moreover have "images ?r \<noteq> []" using shape assms(4) by auto
  moreover have "final_state ?r = State_Completed" "final_device_state ?r = device ?c"
    using run_final [OF assms(1)] assms(2) by (simp_all add: is_terminal_def)
  moreover have "cause ?r = None" "\<not> revert_pending ?r"
    using inv by (auto simp: machine_inv_def report_ok_def)
  ultimately show ?thesis using T(1,3,4) unfolding installed_def by fastforce
qed

text \<open>The calls that start an update which is to boot what it uploads.\<close>

definition installs :: "app_call \<Rightarrow> bool" where
  "installs c = (case c of App_Start ts plan \<Rightarrow> plan_mode plan \<noteq> Mode_UploadOnly | _ \<Rightarrow> True)"

definition honest :: "image_state set \<Rightarrow> updater \<Rightarrow> bool" where
  "honest S u \<longleftrightarrow> (\<forall>k r. (k, UpdateFinished (Inr r)) \<in> set (told u) \<longrightarrow> installed S r)"

definition on_record :: "image_state set \<Rightarrow> updater \<Rightarrow> bool" where
  "on_record S u \<longleftrightarrow> honest S u \<and> quiet_posts u \<and>
     (case fw_machine u of
        None \<Rightarrow> True
      | Some m \<Rightarrow> plan_mode (fw_plan u) \<noteq> Mode_UploadOnly \<and>
          (\<exists>ts. ts \<noteq> [] \<and> run ts (update_plan.truncate (fw_plan u)) m (machine_log u)) \<and>
          tables (machine_log u) \<subseteq> S)"

lemma plan_mode_truncate [simp]: "plan_mode (update_plan.truncate plan) = plan_mode plan"
  by (simp add: update_plan.truncate_def)

lemma on_record_step:
  assumes "on_record S u" and "fw_machine u = Some m" and "\<And>T. ev_state ev = Some T \<Longrightarrow> T \<in> S"
    and "machine_apply m ev = (m', s)"
  shows "on_record S (u\<lparr>fw_machine := Some m', machine_log := machine_log u @ [(ev, s)]\<rparr>)"
proof -
  obtain ts where "ts \<noteq> []" "run ts (update_plan.truncate (fw_plan u)) m (machine_log u)"
    using assms(1,2) by (auto simp: on_record_def)
  then have "ts \<noteq> [] \<and> run ts (update_plan.truncate (fw_plan u)) m' (machine_log u @ [(ev, s)])"
    using run.step assms(4) by blast
  then show ?thesis using assms(1-3)
    by (auto simp: on_record_def honest_def quiet_posts_def tables_snoc)
qed

lemma on_record_call:
  assumes "on_record S u" and "installs c"
  shows "on_record S (app_step c u)"
proof (cases rule: app_step_cases [where c = c and u = u])
  case (1 ts plan)
  show ?thesis
  proof (cases rule: fw_start_cases [of ts plan True u])
    case (2 files)
    have "run (map fst files) (update_plan.truncate plan) (Machine (map fst files) (update_plan.truncate plan)) []"
      by (rule run.init)
    then show ?thesis using assms 1 2
      by (auto simp: on_record_def honest_def quiet_posts_def started_def installs_def tables_def
          intro!: exI [of _ "map fst files"])
  qed (use assms 1 in simp)
next
  case 2
  then have "fw_machine (app_step c u) = fw_machine u \<and> fw_plan (app_step c u) = fw_plan u \<and>
      machine_log (app_step c u) = machine_log u"
    by (cases c) (auto simp: is_start_def fw_confirm_def fw_resume_after_reconnect_def
      fw_reconnect_failed_def fw_cancel_def cancel_upload_def command_def post_def)
  then show ?thesis using assms(1) quiet_posts_call [of u c] 2
    by (auto simp: on_record_def honest_def split: option.splits)
qed

lemma on_record_told:
  "on_record S u \<Longrightarrow> (\<And>r. e = UpdateFinished (Inr r) \<Longrightarrow> installed S r) \<Longrightarrow>
     on_record S (u\<lparr>told := told u @ [(cb, e)]\<rparr>)"
  by (auto simp: on_record_def honest_def quiet_posts_def split: option.splits)

lemma on_record_updates [simp]:
  "on_record S (u\<lparr>last_poll := t\<rparr>) = on_record S u" "on_record S (u\<lparr>fw_running := b\<rparr>) = on_record S u"
  "on_record S (cancel_upload u) = on_record S u"
  "on_record S (u\<lparr>on_event := z, fw_sources := ss, upload_handle := h\<rparr>) = on_record S u"
  by (simp_all add: on_record_def honest_def quiet_posts_def cancel_upload_def command_def split: option.split)

lemma on_record_outcome:
  assumes "on_record S u" and "fw_outcome u = Inr r"
  shows "installed S r"
proof -
  obtain m where m: "fw_machine u = Some m" "m_state m = State_Completed" "r = report (m_context m)"
    using assms(2) by (auto simp: fw_outcome_def fw_state_def fw_report_def split: if_splits option.splits)
  then show ?thesis using assms(1) run_installed by (auto simp: on_record_def)
qed

lemma on_record_finished:
  assumes "on_record S u"
  shows "on_record S (u\<lparr>fw_running := False, told := told u @ [(cb, UpdateFinished (fw_outcome u))]\<rparr>)"
  using on_record_told [of S "u\<lparr>fw_running := False\<rparr>" "UpdateFinished (fw_outcome u)" cb]
    on_record_outcome [OF assms] assms by simp

lemma on_record_acts:
  assumes "on_record S u" and "effect s \<notin> {Effect_AwaitDisconnect, Effect_RequestReconnect,
    Effect_RequestConfirmation, Effect_Finish}"
  shows "on_record S (apply_effect env s u)"
proof -
  have "machine_log (apply_effect env s u) = machine_log u"
    using assms(2) by (cases "effect s") (simp_all add: apply_effect_def command_def start_upload_def Let_def)
  then show ?thesis using assms(1) apply_effect_frame [OF assms(2), of env u]
    by (auto simp: on_record_def honest_def quiet_posts_def split: option.splits)
qed

lemmas on_record_keeps = on_record_step on_record_call on_record_finished on_record_acts
  running_call running_call_machine

interpretation recorded: updater_invariant "on_record S"
    "\<lambda>m s u. on_record S u \<and> fw_machine u = Some m \<and> fw_running u" "on_record S" S installs installs
  for S
proof (unfold_locales, goal_cases)
  case 1
  then show ?case by (simp add: on_record_def honest_def FirmwareUpdater_def quiet_posts_def)
next
  case (2 u)
  then show ?case by (simp add: on_record_def quiet_posts_def)
next
  case (3 u ev evs)
  then show ?case by (simp add: on_record_def honest_def quiet_posts_def split: option.splits)
qed (auto simp: on_record_keeps intro!: on_record_told intro: on_record_step)

section \<open>A concrete update\<close>

definition demo_image_info :: image_info where
  "demo_image_info = \<lparr>header_size = 32, image_size = 4, protected_tlv_size = 0, info_flags = 0,
     info_version = \<lparr>major = 2, minor = 0, revision = 0, build = 0\<rparr>, encrypted = False\<rparr>"

definition demo_file :: bytes where
  "demo_file = tlv_file (header_bytes demo_image_info 0 @ [1, 2, 3, 4]) None [(0x10, replicate 32 7)] []"

lemma demo_file_read:
  "read_target (MemoryImageSource demo_file) = Inr \<lparr>b_hash = replicate 32 7, b_version =
     \<lparr>major = 2, minor = 0, revision = 0, build = 0\<rparr>\<rparr>"
proof -
  have ok: "info_ok demo_image_info"
    by (simp add: info_ok_def demo_image_info_def kMcubootHeaderSize_def through_body_def kMaxImageSize_def)
  have len: "length (header_bytes demo_image_info 0) = 32"
    by (simp add: header_bytes_def le32_bytes_def le16_bytes_def)
  have "find_image_tlv_hash (MemoryImageSource demo_file) demo_image_info = Inr (Some (replicate 32 7))"
    unfolding demo_file_def
    by (subst find_hash_unprotected) (simp_all add: demo_image_info_def through_body_def len
        [unfolded demo_image_info_def] length_tlv_area entry_ok_def hash_tlv_for_def kHashTlvs_def
        hash_payloads_def kMaxImageTlvs_def)
  moreover have "src_read (MemoryImageSource demo_file) 0 32 = Inr (header_bytes demo_image_info 0)"
    using len by (simp add: MemoryImageSource_def memory_read_def demo_file_def tlv_file_def
        subspan_def)
  ultimately show ?thesis
    using parse_header_bytes [OF ok, of 0 "[]"] len
    by (simp add: read_target_def kMcubootHeaderSize_def) (simp add: demo_image_info_def)
qed

definition demo_upload_options :: upload_options where
  "demo_upload_options = \<lparr>up_image = 0, up_upgrade_only = False, up_sha = None, up_chunk_size = 0,
     up_server_buf_size = None, up_max_chunk_retries = 3, up_max_restarts = 2, up_max_no_progress = 3,
     first_chunk_timeout = 30, final_chunk_timeout = 30, chunk_timeout = 5\<rparr>"

definition demo_update_plan :: updater_plan where
  "demo_update_plan = \<lparr>plan_mode = Mode_TestThenConfirm, fallback_mode = None, allow_no_revert = False,
     check_downgrade = True, skip_if_already_present = True, disconnect_grace = 10,
     apply_timeout = 300, apply_poll_interval = 2, plan_upload_options = demo_upload_options,
     reconnect_hint = 3\<rparr>"

definition demo_file_target :: file_target where
  "demo_file_target = \<lparr>ft_image = 0, ft_source = Some (MemoryImageSource demo_file),
     ft_commit = Commit_Client, ft_secondary = None\<rparr>"

definition demo_table :: "(u32 \<times> byte \<times> bool \<times> bool \<times> bool) list \<Rightarrow> image_state" where
  "demo_table ss = \<lparr>slots = map (\<lambda>(n, h, act, pend, conf). \<lparr>slot_image = 0, slot_number = n,
     slot_version = ''1.0.0'', slot_hash = Some (replicate 32 h), bootable = True, pending = pend,
     confirmed = conf, active = act, permanent = False\<rparr>) ss, split_status = None\<rparr>"

definition demo_updater_env :: "(nat \<Rightarrow> app_call list) \<Rightarrow> updater_env" where
  "demo_updater_env r = \<lparr>on_told = r, new_handle = Suc\<rparr>"

text \<open>Up to the question whether to confirm, and the rest of the update.\<close>

definition demo_trial :: "input list" where
  "demo_trial =
     [Call (App_Start [demo_file_target] demo_update_plan), Run_Posted, Parameters_Done (Inr 512),
      Bootloader_Done (Inr \<lparr>bl_mode = Mcuboot_SwapUsingMove, raw_mode = 3, bl_no_downgrade = False\<rparr>),
      Get_State_Done (Inr (demo_table [(0, 9, True, False, True)])),
      Upload_Progressed \<lparr>prog_transferred = 40, prog_total = 76\<rparr>,
      Upload_Done False (Inr \<lparr>out_transferred = 76, out_already_present = False, out_match = None\<rparr>),
      Get_State_Done (Inr (demo_table [(0, 9, True, False, True), (1, 7, False, False, False)])),
      Set_State_Done False (Inr (demo_table [(0, 9, True, False, True), (1, 7, False, True, False)])),
      Reset_Done (Inr ()), Poll 5 False, Call App_Resume, Run_Posted,
      Get_State_Done (Inr (demo_table [(0, 7, True, False, False), (1, 9, False, False, True)]))]"

definition demo_commit :: "input list" where
  "demo_commit =
     [Call App_Confirm, Run_Posted,
      Set_State_Done True (Inr (demo_table [(0, 7, True, False, True)])),
      Get_State_Done (Inr (demo_table [(0, 7, True, False, True)]))]"

definition demo_updater :: "input list \<Rightarrow> updater" where
  "demo_updater ins = updater_run (demo_updater_env (\<lambda>_. [])) ins demo_update_plan"

definition demo_files :: "(target \<times> image_source \<times> image_source option) list" where
  "demo_files = [(\<lparr>t_image = 0, commit = Commit_Client, hash = replicate 32 7,
     version = \<lparr>major = 2, minor = 0, revision = 0, build = 0\<rparr>, builds = None\<rparr>,
     MemoryImageSource demo_file, None)]"

lemma demo_start:
  "\<not> fw_running u \<Longrightarrow> fw_start [demo_file_target] demo_update_plan True u =
     (started demo_files demo_update_plan u, Inr ())"
  by (simp add: fw_start_def validate_def demo_file_target_def demo_update_plan_def demo_upload_options_def
      demo_file_read demo_files_def started_def post_def)

lemma demo_updater_start:
  "demo_updater (Call (App_Start [demo_file_target] demo_update_plan) # ins) =
     fold (deliver (demo_updater_env (\<lambda>_. []))) ins
       (started demo_files demo_update_plan (FirmwareUpdater demo_update_plan))"
  by (simp add: demo_updater_def updater_run_def demo_start FirmwareUpdater_def)

lemma demo_trial_state: "fw_state (demo_updater demo_trial) = State_AwaitingConfirmation"
  unfolding demo_trial_def demo_updater_start by code_simp

lemma demo_outcome:
  "\<exists>r. (0, UpdateFinished (Inr r)) \<in> set (told (demo_updater (demo_trial @ demo_commit)))"
proof -
  let ?u = "demo_updater (demo_trial @ demo_commit)"
  have run: "?u = fold (deliver (demo_updater_env (\<lambda>_. []))) (tl demo_trial @ demo_commit)
      (started demo_files demo_update_plan (FirmwareUpdater demo_update_plan))"
    by (simp add: demo_updater_start demo_trial_def)
  have "list_ex (\<lambda>(k, e). case e of UpdateFinished r \<Rightarrow> k = 0 \<and> \<not> isl r | _ \<Rightarrow> False) (told ?u)"
    unfolding run by code_simp
  then obtain k e where ke: "(k, e) \<in> set (told ?u)"
      "case e of UpdateFinished r \<Rightarrow> k = 0 \<and> \<not> isl r | _ \<Rightarrow> False"
    by (auto simp: list_ex_iff)
  then obtain r where "e = UpdateFinished (Inr r)" "k = 0"
    by (auto split: update_event.splits simp: isl_def) (metis sum.exhaust)
  then show ?thesis using ke(1) by blast
qed

lemma demo_calls: "calls_ok installs (demo_trial @ demo_commit)"
  by (auto simp: calls_ok_def demo_trial_def demo_commit_def installs_def demo_update_plan_def)

section \<open>Properties\<close>







text \<open>
  C8. What \<open>start\<close> accepts. It succeeds exactly when no update is running, there is a callback, at
  least one target, every target has a source and an image number of its own, the hash of one
  file is not given for several, waiting for the device has a positive interval, and every file
  can be read as an MCUboot image with its hash; if it fails, nothing at all has changed.
\<close>

theorem start_exact:
  "(snd (fw_start ts plan cb u) = Inr () \<longleftrightarrow>
      \<not> fw_running u \<and> cb \<and> ts \<noteq> [] \<and> list_all (\<lambda>t. ft_source t \<noteq> None) ts \<and>
      distinct (map ft_image ts) \<and>
      (up_sha (plan_upload_options plan) = None \<or> length ts = 1 \<and> list_all (\<lambda>t. ft_secondary t = None) ts) \<and>
      (list_ex (\<lambda>t. ft_commit t = Commit_Device) ts \<longrightarrow> 0 < apply_poll_interval plan) \<and>
      \<not> isl (read_targets ts)) \<and>
   (isl (snd (fw_start ts plan cb u)) \<longrightarrow> fst (fw_start ts plan cb u) = u)"
proof -
  have loop: "validate_loop ts b = Inr d \<longleftrightarrow> list_all (\<lambda>t. ft_source t \<noteq> None) ts \<and>
      distinct (map ft_image ts) \<and> (d \<longleftrightarrow> b \<or> list_ex (\<lambda>t. ft_commit t = Commit_Device) ts)" for b d
  proof (induction ts b rule: validate_loop.induct)
    case (2 t ts b)
    have "list_ex (\<lambda>other. ft_image other = ft_image t) ts \<longleftrightarrow> ft_image t \<in> ft_image ` set ts"
      by (induction ts) (simp_all add: eq_commute [of "ft_image t"])
    then show ?case using 2 by auto
  qed auto
  have "validate ts plan = Inr () \<longleftrightarrow> ts \<noteq> [] \<and> list_all (\<lambda>t. ft_source t \<noteq> None) ts \<and>
      distinct (map ft_image ts) \<and>
      (up_sha (plan_upload_options plan) = None \<or> length ts = 1 \<and> list_all (\<lambda>t. ft_secondary t = None) ts) \<and>
      (list_ex (\<lambda>t. ft_commit t = Commit_Device) ts \<longrightarrow> 0 < apply_poll_interval plan)"
  proof -
    have "list_ex (\<lambda>t. ft_secondary t \<noteq> None) ts \<longleftrightarrow> \<not> list_all (\<lambda>t. ft_secondary t = None) ts"
      by (simp add: list_all_iff list_ex_iff)
    moreover have "ts \<noteq> [] \<Longrightarrow> length ts > 1 \<longleftrightarrow> length ts \<noteq> 1" by (cases ts) auto
    ultimately show ?thesis
      using loop [of False True] loop [of False False] unfolding validate_def Let_def
      by (cases "validate_loop ts False") (simp_all add: not_le, blast+)
  qed
  then show ?thesis
    by (auto simp: fw_start_def isl_def split: sum.split)
qed

theorem start_exact_witness:
  "snd (fw_start [demo_file_target] demo_update_plan True (FirmwareUpdater demo_update_plan)) = Inr () \<and>
   \<not> isl (read_targets [demo_file_target]) \<and>
   fst (fw_start [] demo_update_plan True (FirmwareUpdater demo_update_plan)) =
     FirmwareUpdater demo_update_plan \<and>
   isl (snd (fw_start [] demo_update_plan True (FirmwareUpdater demo_update_plan)))"
proof -
  let ?u = "FirmwareUpdater demo_update_plan"
  have "\<not> fw_running ?u" by (simp add: FirmwareUpdater_def)
  then have "snd (fw_start [demo_file_target] demo_update_plan True ?u) = Inr ()" by (simp add: demo_start)
  moreover have "isl (snd (fw_start [] demo_update_plan True ?u))"
    by (simp add: fw_start_def validate_def FirmwareUpdater_def)
  ultimately show ?thesis
    using start_exact [of "[demo_file_target]" demo_update_plan True ?u] start_exact [of "[]" demo_update_plan True ?u]
    by blast
qed

text \<open>
  Confirming twice ends the update. \<open>confirm\<close> accepts every call while the state is
  \<open>AwaitingConfirmation\<close>, and the state changes only when the posted approval runs; the second
  approval then meets a machine that is already confirming, which fails the update as an internal
  error, although the confirmation has been sent.
\<close>

theorem double_confirm_fails:
  "let ins = demo_trial @ [Call App_Confirm, Call App_Confirm]; u = demo_updater ins;
       v = demo_updater (ins @ [Run_Posted, Run_Posted])
   in snd (fw_confirm (demo_updater (demo_trial @ [Call App_Confirm]))) = Inr () \<and>
      fw_state u = State_AwaitingConfirmation \<and> fw_state v = State_Failed \<and>
      map_option code (cause (fw_report v)) = Some Internal \<and>
      list_ex (\<lambda>c. case c of Set_State h confirm \<Rightarrow> confirm | _ \<Rightarrow> False) (commands v)"
  unfolding demo_trial_def append_Cons demo_updater_start Let_def by code_simp

text \<open>
  An update started from inside the callback that hears the end of another is lost: \<open>start\<close>
  accepts it, and the updater then forgets its callback and its sources. It runs, but its
  application will never hear of it.
\<close>

theorem restart_in_finished_lost:
  assumes "on_event u = Some cb" and "on_told env (length (told u)) = [App_Start ts p]"
    and "snd (fw_start ts p True (u\<lparr>fw_running := False\<rparr>)) = Inr ()"
  shows "fw_running (fw_finish env u) \<and> starts (fw_finish env u) = Suc (starts u) \<and>
    on_event (fw_finish env u) = None \<and> fw_sources (fw_finish env u) = [] \<and>
    heard (starts u) (fw_finish env u) = heard (starts u) u @ (if cb = starts u then
      [UpdateFinished (fw_outcome (u\<lparr>fw_running := False\<rparr>))] else [])"
proof -
  let ?e = "UpdateFinished (fw_outcome (u\<lparr>fw_running := False\<rparr>))"
  let ?v = "u\<lparr>fw_running := False, told := told u @ [(cb, ?e)]\<rparr>"
  have "isl (read_targets ts) = False" "validate ts p = Inr ()"
    using assms(3) by (auto simp: fw_start_def isl_def split: sum.splits if_splits)
  then obtain files where "fst (fw_start ts p True ?v) = started files p ?v"
    by (cases "read_targets ts") (auto simp: fw_start_def started_def post_def)
  then have "fw_finish env u = (started files p ?v)\<lparr>on_event := None, fw_sources := [], upload_handle := 0\<rparr>"
    using assms(1,2) by (simp add: fw_finish_def emit_def Let_def)
  then show ?thesis by (simp add: heard_def)
qed

text \<open>The concrete update, whose callback starts another when it hears of the end.\<close>

theorem restart_in_finished_lost_witness:
  "let u = (demo_updater (demo_trial @ demo_commit))\<lparr>on_event := Some 0, fw_running := True\<rparr>;
       env = demo_updater_env (\<lambda>n. [App_Start [demo_file_target] demo_update_plan])
   in fw_running (fw_finish env u) \<and> on_event (fw_finish env u) = None"
  unfolding Let_def
  using restart_in_finished_lost [of "(demo_updater (demo_trial @ demo_commit))\<lparr>on_event := Some 0,
      fw_running := True\<rparr>" 0 "demo_updater_env (\<lambda>n. [App_Start [demo_file_target] demo_update_plan])"
      "[demo_file_target]" demo_update_plan]
  by (simp add: demo_updater_env_def demo_start)

end
