(* ===== verification/UpdateRun.thy ===== *)
theory UpdateRun
  imports UpdaterProperties
begin

text \<open>
  The loop that drives an update: \<open>support/dfu_app/reconnect_policy.hpp\<close>, \<open>update_run.hpp\<close> and
  \<open>update_run.cpp\<close>. A run holds an updater; one turn of it polls, hands out the events, and then either
  ends, reconnects, asks for approval, or waits. What comes from outside is given turn by turn: the
  clock, what the client's poll lets the groups report, the answers of the application's hooks. The
  clock counts in milliseconds, so rounding a duration up to milliseconds is the identity. \<open>observe\<close> is
  for output and has no effect here, and every update of the updater is one its run started.
\<close>

section \<open>The reconnect policy\<close>

record reconnect_settings =
  first_delay :: duration
  max_delay :: duration
  max_attempts :: u32

record reconnect_policy =
  rp_settings :: reconnect_settings
  rp_attempts :: u32

definition kMaxTicks :: int where "kMaxTicks = 2 ^ 63 - 1"

definition ReconnectPolicy :: "reconnect_settings \<Rightarrow> reconnect_policy" where
  "ReconnectPolicy settings = \<lparr>rp_settings = settings, rp_attempts = 0\<rparr>"

definition policy_begin :: "reconnect_policy \<Rightarrow> reconnect_policy" where
  "policy_begin p = p\<lparr>rp_attempts := 0\<rparr>"

definition exhausted :: "reconnect_policy \<Rightarrow> bool" where
  "exhausted p \<longleftrightarrow> rp_attempts p \<ge> max_attempts (rp_settings p)"

fun delay_loop :: "nat \<Rightarrow> int \<Rightarrow> int \<Rightarrow> int" where
  "delay_loop 0 delay ceiling = (if delay \<ge> ceiling then ceiling else delay)"
| "delay_loop (Suc n) delay ceiling =
     (if delay \<ge> ceiling \<or> delay > kMaxTicks div 2 then ceiling else delay_loop n (delay * 2) ceiling)"

definition delay_for :: "reconnect_settings \<Rightarrow> u32 \<Rightarrow> duration" where
  "delay_for settings attempt =
     (if first_delay settings \<le> 0 then 0 else delay_loop (unat attempt) (first_delay settings) (max_delay settings))"

definition next_delay :: "reconnect_policy \<Rightarrow> duration \<times> reconnect_policy" where
  "next_delay p =
     (if exhausted p then (max_delay (rp_settings p), p)
      else (delay_for (rp_settings p) (rp_attempts p), p\<lparr>rp_attempts := rp_attempts p + 1\<rparr>))"

definition policy_succeeded :: "reconnect_policy \<Rightarrow> reconnect_policy" where
  "policy_succeeded p = p\<lparr>rp_attempts := 0\<rparr>"

section \<open>A run\<close>

datatype link_attempt = Link_Opened | Link_Retry "error option" | Link_Give_Up error

datatype approval = Approval_Confirm | Approval_Stop

datatype run_end = RunEnd_Finished | RunEnd_Refused | RunEnd_StoppedBeforeConfirm | RunEnd_TimedOut

record run_outcome =
  outcome_end :: run_end
  outcome_result :: "update_report result"
  gave_up_reconnecting :: bool

record run_settings =
  run_reconnect :: reconnect_settings
  overall_timeout :: "duration option"
  unreachable :: error

text \<open>One attempt of an episode: the clock at its two readings, the hook's answer, and what rebinding the
  client to a new link lets the groups report (every request in flight fails).\<close>

record attempt =
  at_check :: time_point
  at_sleep :: time_point
  at_answer :: link_attempt
  at_rebind :: "input list"

record turn =
  turn_now :: time_point
  turn_client :: "input list"
  turn_connected :: bool
  turn_attempts :: "nat \<Rightarrow> attempt"
  turn_approval :: "approval option"
  turn_later :: time_point

text \<open>
  The members of \<open>UpdateRun\<close>. The queue of events is what the updater has told since the last
  \<open>deliver\<close>; \<open>run_opens\<close> records when each wait before an attempt began and how long it was.
\<close>

record update_run =
  run_updater :: updater
  run_config :: run_settings
  run_can_open :: bool
  run_policy :: reconnect_policy
  run_seen :: nat
  run_running :: bool
  reconnect_pending :: bool
  confirm_pending :: bool
  run_finished :: "update_report result option"
  run_internal :: "error option"
  run_rebinds :: nat
  run_opens :: "(time_point \<times> duration) list"

definition UpdateRun :: "updater \<Rightarrow> run_settings \<Rightarrow> bool \<Rightarrow> update_run" where
  "UpdateRun u settings can_open = \<lparr>run_updater = u, run_config = settings, run_can_open = can_open,
     run_policy = ReconnectPolicy (run_reconnect settings), run_seen = length (told u), run_running = False,
     reconnect_pending = False, confirm_pending = False, run_finished = None, run_internal = None, run_rebinds = 0,
     run_opens = []\<rparr>"

text \<open>\<open>event_handler\<close>: it only queues the event.\<close>

definition handler_env :: "(nat \<Rightarrow> nat) \<Rightarrow> updater_env" where
  "handler_env h = \<lparr>on_told = (\<lambda>_. []), new_handle = h\<rparr>"

definition earliest :: "time_point option \<Rightarrow> time_point option \<Rightarrow> time_point option" where
  "earliest a b =
     (case a of
        None \<Rightarrow> b
      | Some x \<Rightarrow> (case b of None \<Rightarrow> a | Some y \<Rightarrow> if x < y then a else b))"

definition next_wake :: "time_point option \<Rightarrow> time_point option \<Rightarrow> updater \<Rightarrow> time_point option" where
  "next_wake deadline client_deadline u = earliest (earliest client_deadline (fw_next_deadline u)) deadline"

definition reached :: "time_point option \<Rightarrow> time_point \<Rightarrow> bool" where
  "reached deadline t = (case deadline of None \<Rightarrow> False | Some d \<Rightarrow> t \<ge> d)"

text \<open>The two polls of a turn: the client runs everything that is deferred, then the updater is polled.\<close>

definition poll_turn :: "updater_env \<Rightarrow> turn \<Rightarrow> updater \<Rightarrow> updater" where
  "poll_turn env t u =
     (let u1 = fold (FirmwareUpdater.deliver env) (turn_client t) u;
          u2 = (run_posted env ^^ length (posted u1)) u1
      in fw_poll env (turn_now t) (turn_connected t) u2)"

definition note_event :: "update_event \<Rightarrow> update_run \<Rightarrow> update_run" where
  "note_event ev r =
     (case ev of
        ReconnectRequired _ \<Rightarrow> r\<lparr>reconnect_pending := True\<rparr>
      | ConfirmationRequired \<Rightarrow> r\<lparr>confirm_pending := True\<rparr>
      | UpdateFinished result \<Rightarrow> r\<lparr>run_finished := Some result\<rparr>
      | _ \<Rightarrow> r)"

definition run_deliver :: "update_run \<Rightarrow> update_run" where
  "run_deliver r =
     (fold note_event (map snd (drop (run_seen r) (told (run_updater r)))) r)\<lparr>run_seen := length (told (run_updater r))\<rparr>"

definition run_refused :: "string \<Rightarrow> update_run \<Rightarrow> update_run" where
  "run_refused where_called r = r\<lparr>run_internal := Some (Error Internal where_called), run_updater := fw_cancel (run_updater r)\<rparr>"

datatype episode = Rebound "input list" | GaveUp "error option" | Episode_TimedOut

lemma unat_next: "unat (a :: u32) < unat (b :: u32) \<Longrightarrow> unat (a + 1) = unat a + 1"
proof -
  assume ab: "unat a < unat b"
  have "unat b < 2 ^ 32" using unsigned_less [of b, where 'a = nat] by simp
  with ab have "unat a + 1 < 2 ^ 32" by linarith
  then show ?thesis by (simp add: unat_word_ariths)
qed

text \<open>The loop of an episode; the last component is \<open>run_opens\<close> for it.\<close>

function episode_loop ::
    "(nat \<Rightarrow> attempt) \<Rightarrow> time_point option \<Rightarrow> error option \<Rightarrow> reconnect_policy \<Rightarrow>
     reconnect_policy \<times> episode \<times> (time_point \<times> duration) list" where
  "episode_loop attempts deadline why p =
     (if exhausted p then (p, GaveUp why, [])
      else
        let a = attempts (unat (rp_attempts p)) in
        if reached deadline (at_check a) then (p, Episode_TimedOut, [])
        else
          let (delay, p1) = next_delay p in
          if (case deadline of None \<Rightarrow> False | Some d \<Rightarrow> delay \<ge> d - at_sleep a) then (p1, Episode_TimedOut, [])
          else (case at_answer a of
              Link_Opened \<Rightarrow> (policy_succeeded p1, Rebound (at_rebind a), [(at_sleep a, delay)])
            | Link_Retry e \<Rightarrow>
                (case episode_loop attempts deadline (if e = None then why else e) p1 of
                   (p2, ep, opens) \<Rightarrow> (p2, ep, (at_sleep a, delay) # opens))
            | Link_Give_Up e \<Rightarrow> (p1, GaveUp (Some e), [(at_sleep a, delay)])))"
  by pat_completeness auto
termination
proof (relation "measure (\<lambda>(_, _, _, p). unat (max_attempts (rp_settings p)) - unat (rp_attempts p))", goal_cases)
  case 1
  show ?case by simp
next
  case (2 attempts deadline why p a x delay p1 e)
  then have lt: "unat (rp_attempts p) < unat (max_attempts (rp_settings p))"
    and p1: "p1 = p\<lparr>rp_attempts := rp_attempts p + 1\<rparr>"
    by (auto simp: exhausted_def next_delay_def word_le_nat_alt)
  then show ?case using unat_next [OF lt] by simp
qed

declare episode_loop.simps [simp del]

definition reconnect :: "updater_env \<Rightarrow> turn \<Rightarrow> time_point option \<Rightarrow> update_run \<Rightarrow> update_run \<times> episode" where
  "reconnect env t deadline r =
     (let (p, ep, opens) = (if run_can_open r then episode_loop (turn_attempts t) deadline None (policy_begin (run_policy r))
            else (run_policy r, GaveUp None, []));
          r1 = r\<lparr>run_policy := p, run_opens := run_opens r @ opens\<rparr>
      in case ep of
           Rebound ins \<Rightarrow>
             (case fw_resume_after_reconnect (fold (FirmwareUpdater.deliver env) ins (run_updater r1)) of
                (u, Inr _) \<Rightarrow> (r1\<lparr>run_updater := u, run_rebinds := run_rebinds r1 + 1\<rparr>, ep)
              | (u, Inl _) \<Rightarrow>
                  (run_refused ''update run: FirmwareUpdater::resume_after_reconnect() refused''
                     (r1\<lparr>run_updater := u, run_rebinds := run_rebinds r1 + 1\<rparr>), ep))
         | GaveUp why \<Rightarrow>
             (r1\<lparr>run_updater := fw_reconnect_failed (case why of None \<Rightarrow> unreachable (run_config r1) | Some e \<Rightarrow> e) (run_updater r1)\<rparr>, ep)
         | Episode_TimedOut \<Rightarrow> (r1, ep))"

definition timed_out :: "bool \<Rightarrow> run_outcome" where
  "timed_out gave_up = \<lparr>outcome_end = RunEnd_TimedOut, outcome_result = Inl (Error Timeout ''update run: overall deadline''),
     gave_up_reconnecting = gave_up\<rparr>"

text \<open>One turn: the run goes on, with whether an episode gave up so far, or it has an outcome.\<close>

definition run_turn :: "updater_env \<Rightarrow> time_point option \<Rightarrow> turn \<Rightarrow> bool \<Rightarrow> update_run \<Rightarrow> update_run \<times> (bool + run_outcome)" where
  "run_turn env deadline t gave_up r0 =
     (let r = run_deliver (r0\<lparr>run_updater := poll_turn env t (run_updater r0)\<rparr>) in
      case run_finished r of
        Some result \<Rightarrow>
          (r\<lparr>run_internal := None, run_finished := None, run_running := False\<rparr>,
           Inr \<lparr>outcome_end = RunEnd_Finished,
             outcome_result = (case run_internal r of None \<Rightarrow> result | Some e \<Rightarrow> Inl e), gave_up_reconnecting = gave_up\<rparr>)
      | None \<Rightarrow>
          if reconnect_pending r then
            (case reconnect env t deadline r of
               (r1, Rebound _) \<Rightarrow> (r1\<lparr>reconnect_pending := False\<rparr>, Inl gave_up)
             | (r1, GaveUp _) \<Rightarrow> (r1\<lparr>reconnect_pending := False\<rparr>, Inl True)
             | (r1, Episode_TimedOut) \<Rightarrow> (r1, Inr (timed_out gave_up)))
          else if confirm_pending r then
            let r1 = r\<lparr>confirm_pending := False\<rparr> in
            (case (case turn_approval t of None \<Rightarrow> Approval_Confirm | Some a \<Rightarrow> a) of
               Approval_Confirm \<Rightarrow>
                 (case fw_confirm (run_updater r1) of
                    (u, Inr _) \<Rightarrow> (r1\<lparr>run_updater := u\<rparr>, Inl gave_up)
                  | (u, Inl _) \<Rightarrow>
                      (run_refused ''update run: FirmwareUpdater::confirm() refused'' (r1\<lparr>run_updater := u\<rparr>), Inl gave_up))
             | Approval_Stop \<Rightarrow>
                 (r1, Inr \<lparr>outcome_end = RunEnd_StoppedBeforeConfirm,
                    outcome_result = Inl (Error InvalidState ''update run: stopped before confirming''),
                    gave_up_reconnecting = gave_up\<rparr>))
          else if reached deadline (turn_later t) then (r, Inr (timed_out gave_up))
          else (r, Inl gave_up))"

text \<open>The loop, for as many turns as are given.\<close>

fun run_turns :: "updater_env \<Rightarrow> time_point option \<Rightarrow> turn list \<Rightarrow> bool \<Rightarrow> update_run \<Rightarrow> update_run \<times> run_outcome option" where
  "run_turns env deadline [] gave_up r = (r, None)"
| "run_turns env deadline (t # ts) gave_up r =
     (case run_turn env deadline t gave_up r of
        (r1, Inl g) \<Rightarrow> run_turns env deadline ts g r1
      | (r1, Inr outcome) \<Rightarrow> (r1, Some outcome))"

text \<open>\<open>run()\<close>: carries on.\<close>

definition run_on :: "updater_env \<Rightarrow> time_point \<Rightarrow> turn list \<Rightarrow> update_run \<Rightarrow> update_run \<times> run_outcome option" where
  "run_on env began turns r =
     (if \<not> run_running r then
        (r, Some \<lparr>outcome_end = RunEnd_Refused, outcome_result = Inl (Error InvalidState ''update run: no update to carry on''),
           gave_up_reconnecting = False\<rparr>)
      else run_turns env (map_option (\<lambda>d. began + d) (overall_timeout (run_config r))) turns False r)"

definition run_started ::
    "updater_env \<Rightarrow> time_point \<Rightarrow> turn list \<Rightarrow> unit result \<Rightarrow> update_run \<Rightarrow> update_run \<times> run_outcome option" where
  "run_started env began turns start r =
     (case start of
        Inl e \<Rightarrow> (r, Some \<lparr>outcome_end = RunEnd_Refused, outcome_result = Inl e, gave_up_reconnecting = False\<rparr>)
      | Inr _ \<Rightarrow> run_on env began turns (r\<lparr>run_running := True\<rparr>))"

text \<open>\<open>run(targets, plan)\<close> and \<open>run(source, plan)\<close>.\<close>

definition run_update ::
    "updater_env \<Rightarrow> file_target list \<Rightarrow> updater_plan \<Rightarrow> time_point \<Rightarrow> turn list \<Rightarrow> update_run \<Rightarrow> update_run \<times> run_outcome option" where
  "run_update env ts plan began turns r =
     (if run_running r then run_started env began turns (Inl (Error InvalidState ''update run: an update is running'')) r
      else case fw_start ts plan True (run_updater r) of
        (u, start) \<Rightarrow> run_started env began turns start (r\<lparr>run_updater := u\<rparr>))"

definition run_single ::
    "updater_env \<Rightarrow> image_source \<Rightarrow> updater_plan \<Rightarrow> time_point \<Rightarrow> turn list \<Rightarrow> update_run \<Rightarrow> update_run \<times> run_outcome option" where
  "run_single env source plan began turns r =
     (if run_running r then run_started env began turns (Inl (Error InvalidState ''update run: an update is running'')) r
      else case fw_start_single source plan True (run_updater r) of
        (u, start) \<Rightarrow> run_started env began turns start (r\<lparr>run_updater := u\<rparr>))"

end
