(* ===== verification/RunProperties.thy ===== *)
theory RunProperties
  imports UpdateRun
begin

text \<open>
  What a run of an update guarantees: the delays of its reconnect policy, the bounds of an episode, that
  a success it returns is an installed and confirmed image; and that a run used again can cancel its
  next update.
\<close>

section \<open>Delays and episodes\<close>

lemma delay_loop_exact: "0 < delay \<Longrightarrow> ceiling \<le> kMaxTicks \<Longrightarrow> delay_loop n delay ceiling = min (delay * 2 ^ n) ceiling"
proof (induction n arbitrary: delay)
  case (Suc n)
  have "delay * 2 * 1 \<le> delay * 2 * 2 ^ n" using Suc.prems(1) by (intro mult_left_mono) simp_all
  then have "delay * 2 \<le> delay * 2 ^ Suc n" by (simp add: mult.assoc)
  then have grow: "delay * 2 \<le> delay * 2 ^ Suc n" "delay \<le> delay * 2 ^ Suc n" using Suc.prems(1) by linarith+
  show ?case
  proof (cases "delay \<ge> ceiling \<or> delay > kMaxTicks div 2")
    case True
    then have "ceiling \<le> delay * 2 ^ Suc n" using grow Suc.prems(2) unfolding kMaxTicks_def by linarith
    then show ?thesis using True by simp
  next
    case False
    then show ?thesis using Suc.IH [of "delay * 2"] Suc.prems by (simp add: mult.assoc)
  qed
qed simp

text \<open>
  The delays of the reconnect policy. The wait before retry number \<open>n\<close> is the first delay doubled \<open>n\<close>
  times and never more than the ceiling, without wrapping around however many attempts are allowed;
  a policy that retries at once waits for nothing.
\<close>

theorem delay_for_exact:
  assumes "max_delay settings \<le> kMaxTicks"
  shows "delay_for settings n = (if first_delay settings \<le> 0 then 0 else min (first_delay settings * 2 ^ unat n) (max_delay settings))"
  using delay_loop_exact [OF _ assms] by (simp add: delay_for_def)

theorem delay_for_exact_witness:
  "delay_for \<lparr>first_delay = 500, max_delay = 8000, max_attempts = 100\<rparr> 3 = 4000 \<and>
   delay_for \<lparr>first_delay = 500, max_delay = 8000, max_attempts = 100\<rparr> 70 = 8000"
  using delay_for_exact [of "\<lparr>first_delay = 500, max_delay = 8000, max_attempts = 100\<rparr>"] by (simp add: kMaxTicks_def)

text \<open>What an episode did: how often it tried, how long it waited each time, and when.\<close>

definition episode_ok :: "time_point option \<Rightarrow> reconnect_policy \<Rightarrow> episode \<Rightarrow> (time_point \<times> duration) list \<Rightarrow> bool" where
  "episode_ok deadline p ep opens \<longleftrightarrow>
     unat (rp_attempts p) + length opens \<le> unat (max_attempts (rp_settings p)) \<and>
     map snd opens = map (\<lambda>i. delay_for (rp_settings p) (rp_attempts p + of_nat i)) [0..<length opens] \<and>
     list_all (\<lambda>(began, waited). \<not> reached deadline (began + waited)) opens \<and>
     (ep = GaveUp None \<longrightarrow> unat (rp_attempts p) + length opens = unat (max_attempts (rp_settings p)))"

lemma episode_loop_ok:
  assumes "episode_loop attempts deadline why p = (p', ep, opens)" and "\<not> exhausted p \<or> rp_attempts p = max_attempts (rp_settings p)"
  shows "episode_ok deadline p ep opens"
  using assms
proof (induction attempts deadline why p arbitrary: p' ep opens rule: episode_loop.induct)
  case (1 attempts deadline why p)
  show ?case
  proof (cases "exhausted p")
    case True
    then show ?thesis using "1.prems" by (simp add: episode_loop.simps [of attempts deadline why p] episode_ok_def)
  next
    case False
    let ?a = "attempts (unat (rp_attempts p))" and ?p1 = "p\<lparr>rp_attempts := rp_attempts p + 1\<rparr>"
    let ?delay = "delay_for (rp_settings p) (rp_attempts p)"
    have lt: "unat (rp_attempts p) < unat (max_attempts (rp_settings p))" using False by (simp add: exhausted_def word_le_nat_alt)
    have nd: "next_delay p = (?delay, ?p1)" using False by (simp add: next_delay_def)
    show ?thesis
    proof (cases "reached deadline (at_check ?a) \<or> (case deadline of None \<Rightarrow> False | Some d \<Rightarrow> ?delay \<ge> d - at_sleep ?a)")
      case True
      then have "opens = []" "ep = Episode_TimedOut" using "1.prems" False nd
        by (auto simp: episode_loop.simps [of attempts deadline why p] Let_def split: if_splits)
      then show ?thesis using lt by (simp add: episode_ok_def)
    next
      case early: False
      have in_time: "\<not> reached deadline (at_sleep ?a + ?delay)" using early by (auto simp: reached_def split: option.splits)
      show ?thesis
      proof (cases "at_answer ?a")
        case (Link_Retry e)
        obtain p2 ep' opens' where rest: "episode_loop attempts deadline (if e = None then why else e) ?p1 = (p2, ep', opens')"
          by (metis prod_cases3)
        then have res: "ep = ep'" "opens = (at_sleep ?a, ?delay) # opens'" using "1.prems" False nd early Link_Retry
          by (auto simp: episode_loop.simps [of attempts deadline why p] Let_def)
        have "\<not> exhausted ?p1 \<or> rp_attempts ?p1 = max_attempts (rp_settings ?p1)"
          using lt unat_next [OF lt] by (auto simp: exhausted_def word_le_nat_alt word_unat_eq_iff)
        then have "episode_ok deadline ?p1 ep' opens'"
          using "1.IH" [OF False refl _ nd [symmetric] refl _ Link_Retry] early rest by simp
        then show ?thesis using res in_time unat_next [OF lt]
          by (auto simp: episode_ok_def map_upt_Suc add.assoc simp del: upt_Suc)
      qed (use "1.prems" False nd early in_time lt in \<open>auto simp: episode_loop.simps [of attempts deadline why p] Let_def episode_ok_def\<close>)
    qed
  qed
qed

text \<open>
  C10. A reconnect episode is bounded. It tries at most as often as the policy allows, waits before each
  attempt exactly the policy's delay for it, and opens no link at or after the overall deadline, as
  long as a wait takes the time it was asked for; it reports that the link is unreachable without a
  reason only when every attempt was used.
\<close>

theorem episode_bounded:
  assumes "episode_loop attempts deadline None (policy_begin p) = (p', ep, opens)"
  shows "length opens \<le> unat (max_attempts (rp_settings p)) \<and>
    map snd opens = map (\<lambda>i. delay_for (rp_settings p) (of_nat i)) [0..<length opens] \<and>
    list_all (\<lambda>(began, waited). \<not> reached deadline (began + waited)) opens \<and>
    (ep = GaveUp None \<longrightarrow> length opens = unat (max_attempts (rp_settings p)))"
proof -
  have "\<not> exhausted (policy_begin p) \<or> rp_attempts (policy_begin p) = max_attempts (rp_settings (policy_begin p))"
    by (auto simp: exhausted_def policy_begin_def)
  from episode_loop_ok [OF assms this] show ?thesis by (simp add: episode_ok_def policy_begin_def)
qed

theorem episode_bounded_witness:
  "episode_loop (\<lambda>n. \<lparr>at_check = 0, at_sleep = 0, at_answer = Link_Retry None, at_rebind = []\<rparr>) (Some 900) None
      (policy_begin (ReconnectPolicy \<lparr>first_delay = 500, max_delay = 8000, max_attempts = 6\<rparr>)) =
     (\<lparr>rp_settings = \<lparr>first_delay = 500, max_delay = 8000, max_attempts = 6\<rparr>, rp_attempts = 2\<rparr>, Episode_TimedOut, [(0, 500)]) \<and>
   length [(0 :: time_point, 500 :: duration)] \<le> unat (6 :: u32)"
proof -
  let ?a = "\<lambda>n :: nat. \<lparr>at_check = 0, at_sleep = 0, at_answer = Link_Retry None, at_rebind = []\<rparr>"
  let ?p = "ReconnectPolicy \<lparr>first_delay = 500, max_delay = 8000, max_attempts = 6\<rparr>"
  let ?s = "\<lparr>first_delay = 500, max_delay = 8000, max_attempts = 6\<rparr>"
  have "episode_loop ?a (Some 900) None \<lparr>rp_settings = ?s, rp_attempts = 1\<rparr> =
      (\<lparr>rp_settings = ?s, rp_attempts = 2\<rparr>, Episode_TimedOut, [])"
    by (subst episode_loop.simps)
      (simp add: exhausted_def reached_def next_delay_def delay_for_def delay_loop.simps kMaxTicks_def word_le_nat_alt)
  then have run: "episode_loop ?a (Some 900) None (policy_begin ?p) =
     (\<lparr>rp_settings = ?s, rp_attempts = 2\<rparr>, Episode_TimedOut, [(0, 500)])"
    by (subst episode_loop.simps)
      (simp add: exhausted_def reached_def next_delay_def delay_for_def delay_loop.simps kMaxTicks_def ReconnectPolicy_def policy_begin_def)
  from episode_bounded [OF run] run show ?thesis by (simp add: ReconnectPolicy_def)
qed

section \<open>A run is a history of its updater\<close>

definition turn_inputs :: "turn \<Rightarrow> input set" where
  "turn_inputs t = set (turn_client t) \<union> (\<Union>n. set (at_rebind (turn_attempts t n)))"

text \<open>What a turn lets the updater see of the device.\<close>

definition shown :: "turn list \<Rightarrow> image_state set" where
  "shown ts = {T. \<exists>t\<in>set ts. \<exists>i\<in>turn_inputs t. T \<in> reported [i]}"

definition is_call :: "input \<Rightarrow> bool" where
  "is_call i = (case i of Call c \<Rightarrow> True | _ \<Rightarrow> False)"

lemma is_call_simps [simp]: "is_call (Call c)" "\<not> is_call Run_Posted" "\<not> is_call (Poll n c')"
  by (simp_all add: is_call_def)

text \<open>The client's side of a turn makes no calls of the application.\<close>

definition no_calls :: "turn \<Rightarrow> bool" where
  "no_calls t \<longleftrightarrow> (\<forall>i\<in>turn_inputs t. \<not> is_call i)"

text \<open>An updater reached by inputs, with calls that \<open>installs\<close> allows and tables from \<open>S\<close>.\<close>

definition reaches :: "updater_env \<Rightarrow> image_state set \<Rightarrow> updater \<Rightarrow> updater \<Rightarrow> bool" where
  "reaches env S u u' \<longleftrightarrow> (\<exists>ins. u' = fold (FirmwareUpdater.deliver env) ins u \<and> calls_ok installs ins \<and> reported ins \<subseteq> S)"

lemma reaches_refl [simp]: "reaches env S u u"
  unfolding reaches_def by (rule exI [of _ "[]"]) (simp add: calls_ok_def reported_def)

lemma reaches_trans: "reaches env S u u' \<Longrightarrow> reaches env S u' u'' \<Longrightarrow> reaches env S u u''"
  unfolding reaches_def
proof (elim exE conjE)
  fix ins ins'
  assume "u' = fold (FirmwareUpdater.deliver env) ins u" "calls_ok installs ins" "reported ins \<subseteq> S"
    "u'' = fold (FirmwareUpdater.deliver env) ins' u'" "calls_ok installs ins'" "reported ins' \<subseteq> S"
  then show "\<exists>ins. u'' = fold (FirmwareUpdater.deliver env) ins u \<and> calls_ok installs ins \<and> reported ins \<subseteq> S"
    by (intro exI [of _ "ins @ ins'"]) (auto simp: calls_ok_def reported_def)
qed

lemma reaches_call: "installs c \<Longrightarrow> reaches env S u (app_step c u)"
  unfolding reaches_def by (rule exI [of _ "[Call c]"]) (auto simp: calls_ok_def reported_def)

lemma reaches_inputs: "\<forall>i\<in>set ins. \<not> is_call i \<and> reported [i] \<subseteq> S \<Longrightarrow> reaches env S u (fold (FirmwareUpdater.deliver env) ins u)"
  unfolding reaches_def by (rule exI [of _ ins]) (auto simp: calls_ok_def reported_def)

lemma reaches_posted: "reaches env S u ((run_posted env ^^ n) u)"
proof (induction n)
  case (Suc n)
  have "reaches env S ((run_posted env ^^ n) u) (fold (FirmwareUpdater.deliver env) [Run_Posted] ((run_posted env ^^ n) u))"
    by (rule reaches_inputs) (simp add: reported_def)
  then show ?case using reaches_trans [OF Suc] by simp
qed simp

lemma reaches_poll: "reaches env S u (fw_poll env x connected u)"
  using reaches_inputs [of "[Poll x connected]" S env u] by (simp add: reported_def)

lemma reaches_turn:
  assumes "no_calls t" and "shown [t] \<subseteq> S"
  shows "reaches env S u (poll_turn env t u)"
proof -
  have "reaches env S u (fold (FirmwareUpdater.deliver env) (turn_client t) u)"
    using assms by (intro reaches_inputs) (auto simp: no_calls_def shown_def turn_inputs_def)
  then show ?thesis unfolding poll_turn_def Let_def
    by (rule reaches_trans [OF reaches_trans [OF _ reaches_posted] reaches_poll])
qed

lemma episode_rebinds:
  "episode_loop attempts deadline why p = (p', Rebound ins, opens) \<Longrightarrow> \<exists>n. ins = at_rebind (attempts n)"
proof (induction attempts deadline why p arbitrary: p' opens rule: episode_loop.induct)
  case (1 attempts deadline why p)
  let ?a = "attempts (unat (rp_attempts p))"
  have open_: "\<not> exhausted p" "\<not> reached deadline (at_check ?a)"
    using "1.prems" by (auto simp: episode_loop.simps [of attempts deadline why p] split: if_splits)
  obtain delay p1 where nd: "next_delay p = (delay, p1)" by fastforce
  have early: "\<not> (case deadline of None \<Rightarrow> False | Some d \<Rightarrow> delay \<ge> d - at_sleep ?a)"
    using "1.prems" open_ nd by (auto simp: episode_loop.simps [of attempts deadline why p] Let_def split: if_splits)
  show ?case
  proof (cases "at_answer ?a")
    case (Link_Retry e)
    obtain p2 ep' opens' where rest: "episode_loop attempts deadline (if e = None then why else e) p1 = (p2, ep', opens')"
      by (metis prod_cases3)
    then have "ep' = Rebound ins"
      using "1.prems" open_ nd early Link_Retry by (auto simp: episode_loop.simps [of attempts deadline why p] Let_def)
    then show ?thesis using "1.IH" [OF open_(1) refl open_(2) nd [symmetric] refl early Link_Retry] rest by simp
  qed (use "1.prems" open_ nd early in \<open>auto simp: episode_loop.simps [of attempts deadline why p] Let_def\<close>)
qed

lemma deliver_updater [simp]: "run_updater (run_deliver r) = run_updater r"
proof -
  have "run_updater (fold note_event evs r) = run_updater r" for evs
    by (induction evs arbitrary: r) (auto simp: note_event_def split: update_event.splits)
  then show ?thesis by (simp add: run_deliver_def)
qed

lemma installs_simps [simp]: "installs App_Confirm" "installs App_Resume" "installs App_Cancel" "installs (App_Reconnect_Failed e)"
  by (simp_all add: installs_def)

lemma reaches_calls:
  "reaches env S u (fst (fw_confirm u))" "reaches env S u (fst (fw_resume_after_reconnect u))" "reaches env S u (fw_cancel u)"
  "reaches env S u (fw_reconnect_failed e u)"
  using reaches_call [of App_Confirm env S u] reaches_call [of App_Resume env S u] reaches_call [of App_Cancel env S u]
    reaches_call [of "App_Reconnect_Failed e" env S u]
  by simp_all

lemma reconnect_reaches:
  assumes "no_calls t" and "shown [t] \<subseteq> S"
  shows "reaches env S (run_updater r) (run_updater (fst (reconnect env t deadline r)))"
proof -
  let ?x = "if run_can_open r then episode_loop (turn_attempts t) deadline None (policy_begin (run_policy r)) else (run_policy r, GaveUp None, [])"
  obtain p ep opens where x: "?x = (p, ep, opens)" by (metis prod_cases3)
  show ?thesis
  proof (cases ep)
    case (Rebound ins)
    then obtain n where n: "ins = at_rebind (turn_attempts t n)"
      using x episode_rebinds [of "turn_attempts t" deadline None "policy_begin (run_policy r)"] by (auto split: if_splits)
    let ?u = "fold (FirmwareUpdater.deliver env) ins (run_updater r)"
    have "set ins \<subseteq> turn_inputs t" unfolding n turn_inputs_def by blast
    then have "reaches env S (run_updater r) ?u"
      using assms by (intro reaches_inputs) (auto simp: no_calls_def shown_def)
    note resumed = reaches_trans [OF this reaches_calls(2)]
    obtain u c where fr: "fw_resume_after_reconnect ?u = (u, c)" by fastforce
    have "reaches env S (run_updater r) u" "reaches env S (run_updater r) (fw_cancel u)"
      using resumed reaches_trans [OF resumed reaches_calls(3)] unfolding fr by auto
    then show ?thesis using x Rebound fr
      by (auto simp: reconnect_def Let_def run_refused_def split: prod.splits sum.splits)
  qed (use x in \<open>auto simp: reconnect_def Let_def reaches_calls split: prod.splits\<close>)
qed

lemma run_turn_reaches:
  assumes "run_turn env deadline t gave_up r = (r', x)" and "no_calls t" and "shown [t] \<subseteq> S"
  shows "reaches env S (run_updater r) (run_updater r')"
proof -
  let ?r = "run_deliver (r\<lparr>run_updater := poll_turn env t (run_updater r)\<rparr>)"
  have p: "reaches env S (run_updater r) (run_updater ?r)" using reaches_turn [OF assms(2,3)] by simp
  moreover have "reaches env S (run_updater ?r) (run_updater r')"
  proof (cases "run_finished ?r")
    case (Some res)
    then show ?thesis using assms(1) by (auto simp: run_turn_def Let_def)
  next
    case None
    obtain u c where fc: "fw_confirm (run_updater ?r) = (u, c)" by fastforce
    have "reaches env S (run_updater ?r) u" "reaches env S (run_updater ?r) (fw_cancel u)"
      using fc reaches_calls(1) [of env S "run_updater ?r"] reaches_trans [OF _ reaches_calls(3)] by auto
    then show ?thesis
      using assms(1) None fc reconnect_reaches [OF assms(2,3), of env ?r deadline]
      by (auto simp: run_turn_def Let_def run_refused_def split: if_splits prod.splits episode.splits approval.splits sum.splits option.splits)
  qed
  ultimately show ?thesis by (rule reaches_trans)
qed

section \<open>What a run returns\<close>

text \<open>An end the updater told of in \<open>u\<close> since \<open>n\<close> events is the only thing a run returns.\<close>

lemma note_events_finished:
  "run_finished (fold note_event evs r) = Some res \<Longrightarrow> run_finished r = Some res \<or> UpdateFinished res \<in> set evs"
proof (induction evs arbitrary: r)
  case (Cons ev evs)
  from Cons.IH [of "note_event ev r"] Cons.prems show ?case
    by (auto simp: note_event_def split: update_event.splits)
qed simp

lemma run_deliver_finished:
  assumes "run_finished (run_deliver r) = Some res" and "run_finished r = None"
  shows "\<exists>k. (k, UpdateFinished res) \<in> set (told (run_updater r))"
proof -
  have "UpdateFinished res \<in> snd ` set (drop (run_seen r) (told (run_updater r)))"
    using note_events_finished assms by (fastforce simp: run_deliver_def)
  then show ?thesis by (force dest: in_set_dropD)
qed

lemma reconnect_finished [simp]: "run_finished (fst (reconnect env t deadline r)) = run_finished r"
  by (auto simp: reconnect_def Let_def run_refused_def split: prod.splits episode.splits sum.splits)

lemma run_turn_finished:
  assumes "run_turn env deadline t gave_up r = (r', x)"
  shows "run_finished r' = None"
  using assms reconnect_finished [of env t deadline]
  by (auto simp: run_turn_def Let_def run_refused_def simp del: reconnect_finished
      split: option.splits if_splits prod.splits episode.splits approval.splits sum.splits)
     (metis fst_conv)+

lemma run_turn_result:
  assumes "run_turn env deadline t gave_up r = (r', Inr out)" and "outcome_result out = Inr rep" and "run_finished r = None"
  shows "outcome_end out = RunEnd_Finished \<and> (\<exists>k. (k, UpdateFinished (Inr rep)) \<in> set (told (run_updater r')))"
proof -
  let ?r = "run_deliver (r\<lparr>run_updater := poll_turn env t (run_updater r)\<rparr>)"
  have fin: "run_finished ?r = Some (Inr rep)" "run_updater r' = run_updater ?r" "outcome_end out = RunEnd_Finished"
    using assms(1,2) by (auto simp: run_turn_def Let_def timed_out_def
      split: option.splits if_splits prod.splits episode.splits approval.splits sum.splits)
  then show ?thesis using run_deliver_finished [OF fin(1)] assms(3) by simp
qed

lemma run_turns_result:
  assumes "run_turns env deadline turns gave_up r = (r', Some out)" and "outcome_result out = Inr rep"
    and "run_finished r = None" and "list_all no_calls turns" and "shown turns \<subseteq> S"
  shows "outcome_end out = RunEnd_Finished \<and> (\<exists>k. (k, UpdateFinished (Inr rep)) \<in> set (told (run_updater r'))) \<and>
    reaches env S (run_updater r) (run_updater r')"
  using assms
proof (induction turns arbitrary: gave_up r)
  case (Cons t ts)
  obtain r1 x where turn: "run_turn env deadline t gave_up r = (r1, x)" by fastforce
  have sub: "shown [t] \<subseteq> S" "shown ts \<subseteq> S" using Cons.prems(5) by (auto simp: shown_def)
  have step: "reaches env S (run_updater r) (run_updater r1)"
    using run_turn_reaches [OF turn _ sub(1)] Cons.prems(4) by simp
  show ?case
  proof (cases x)
    case (Inl g)
    then have "run_turns env deadline ts g r1 = (r', Some out)" using Cons.prems(1) turn by simp
    from Cons.IH [OF this Cons.prems(2) run_turn_finished [OF turn] _ sub(2)] Cons.prems(4)
    show ?thesis using reaches_trans [OF step] by simp
  next
    case (Inr y)
    then have "y = out" "r1 = r'" using Cons.prems(1) turn by simp_all
    then show ?thesis using run_turn_result [OF turn [unfolded Inr \<open>y = out\<close>] Cons.prems(2,3)] step by simp
  qed
qed simp

lemma on_record_reached:
  assumes "reaches (handler_env h) S (FirmwareUpdater plan) u"
  shows "on_record S u"
proof -
  obtain ins where "u = updater_run (handler_env h) ins plan" "calls_ok installs ins" "reported ins \<subseteq> S"
    using assms by (auto simp: reaches_def updater_run_def)
  then show ?thesis using recorded.keeps_run [of "handler_env h" ins S plan] by (simp add: handler_env_def)
qed


section \<open>Concrete runs\<close>

definition demo_turn :: "input list \<Rightarrow> bool \<Rightarrow> turn" where
  "demo_turn ins connected = \<lparr>turn_now = 5, turn_client = ins, turn_connected = connected,
     turn_attempts = (\<lambda>_. \<lparr>at_check = 0, at_sleep = 0, at_answer = Link_Opened, at_rebind = []\<rparr>),
     turn_approval = None, turn_later = 0\<rparr>"

text \<open>The demonstration update as a run: its answers, a link that is lost and reopened, a confirmation.\<close>

definition demo_turns :: "turn list" where
  "demo_turns =
     [demo_turn [] True, demo_turn (take 8 (drop 2 demo_trial)) False, demo_turn [] True,
      demo_turn [last demo_trial] True, demo_turn [] True, demo_turn (drop 2 demo_commit) True]"

definition demo_settings :: "duration option \<Rightarrow> run_settings" where
  "demo_settings timeout = \<lparr>run_reconnect = \<lparr>first_delay = 500, max_delay = 8000, max_attempts = 6\<rparr>,
     overall_timeout = timeout, unreachable = Error Disconnected ''unreachable''\<rparr>"

definition demo_run :: "duration option \<Rightarrow> turn list \<Rightarrow> update_run \<times> run_outcome option" where
  "demo_run timeout turns = run_update (handler_env Suc) [demo_file_target] demo_update_plan 0 turns
     (UpdateRun (FirmwareUpdater demo_update_plan) (demo_settings timeout) True)"

lemma demo_run_start:
  "demo_run timeout turns = run_on (handler_env Suc) 0 turns
     ((UpdateRun (started demo_files demo_update_plan (FirmwareUpdater demo_update_plan)) (demo_settings timeout) True)
        \<lparr>run_seen := 0, run_running := True\<rparr>)"
  by (simp add: demo_run_def run_update_def run_started_def UpdateRun_def demo_start FirmwareUpdater_def)

lemma demo_run_outcome: "case snd (demo_run None demo_turns) of None \<Rightarrow> False | Some out \<Rightarrow> \<not> isl (outcome_result out)"
  unfolding demo_run_start by code_simp

lemma demo_turns_plain: "list_all no_calls demo_turns"
  by (simp add: demo_turns_def no_calls_def turn_inputs_def demo_turn_def demo_trial_def demo_commit_def is_call_def)


section \<open>A reconnect that outlives its update\<close>

definition late_turn :: turn where
  "late_turn = (demo_turn (take 8 (drop 2 demo_trial)) False)\<lparr>turn_attempts :=
     (\<lambda>_. \<lparr>at_check = 1000, at_sleep = 1000, at_answer = Link_Opened, at_rebind = []\<rparr>)\<rparr>"

text \<open>A run that times out while a reconnect is owed, and whose update is then cancelled and carried on.\<close>

definition cancelled_run :: "update_run \<Rightarrow> update_run" where
  "cancelled_run r = fst (run_on (handler_env Suc) 1000 [demo_turn [] True] (r\<lparr>run_updater := fw_cancel (run_updater r)\<rparr>))"

definition stale_run :: update_run where
  "stale_run = cancelled_run (fst (demo_run (Some 900) [demo_turn [] True, late_turn]))"

lemma stale_run_state:
  "\<not> run_running stale_run" "\<not> fw_running (run_updater stale_run)" "run_finished stale_run = None"
  "reconnect_pending stale_run"
  unfolding stale_run_def demo_run_start by (code_simp)+

definition next_run :: "update_run \<Rightarrow> update_run \<times> run_outcome option" where
  "next_run r = run_on (handler_env Suc) 0 [demo_turn [] True, demo_turn [] True]
     (r\<lparr>run_updater := started demo_files demo_update_plan (run_updater r), run_running := True\<rparr>)"

lemma stale_run_next:
  "run_update (handler_env Suc) [demo_file_target] demo_update_plan 0 [demo_turn [] True, demo_turn [] True] stale_run =
     next_run stale_run"
  by (simp add: run_update_def run_started_def demo_start stale_run_state next_run_def)

text \<open>
  A finished update leaves its reconnect owed. After a timeout during a reconnect, a cancellation and a
  \<open>run()\<close> that returns the cancelled update's end, nothing runs any more; but the next update of
  this run, with a device that does nothing wrong, is cancelled by the run itself: it reconnects for
  an update that has not asked for it, and reports the updater's refusal as an internal error.
\<close>

theorem stale_reconnect_cancels:
  "case snd (run_update (handler_env Suc) [demo_file_target] demo_update_plan 0 [demo_turn [] True, demo_turn [] True] stale_run) of
     None \<Rightarrow> False
   | Some out \<Rightarrow> outcome_end out = RunEnd_Finished \<and>
       (case outcome_result out of Inl e \<Rightarrow> code e = Internal | Inr _ \<Rightarrow> False)"
  unfolding stale_run_next unfolding stale_run_def demo_run_start by code_simp

end
