(* ===== verification/BootReader.thy ===== *)
theory BootReader
  imports ImageFormat
begin

text \<open>
  The boot model's own reader of images in flash: \<open>support/boot_model/image_reader.hpp\<close> and
  \<open>.cpp\<close>. It is written independently of smply's parser, as an oracle for it. Offsets are 64-bit
  words, as in the source, and its overflow check is kept: \<open>span_fits\<close> is \<open>fits\<close>.
\<close>

section \<open>The reader\<close>

definition kImageMagic :: u32 where "kImageMagic = 0x96F3B83D"
definition kImageHeaderSize :: nat where "kImageHeaderSize = 32"
definition kBootTlvInfoMagic :: u16 where "kBootTlvInfoMagic = 0x6907"
definition kBootTlvProtInfoMagic :: u16 where "kBootTlvProtInfoMagic = 0x6908"
definition kTlvSha256 :: u16 where "kTlvSha256 = 0x10"
definition kImageNonBootable :: u32 where "kImageNonBootable = 0x00000010"
definition kAreaHeaderSize :: u64 where "kAreaHeaderSize = 4"

definition read16 :: "bytes \<Rightarrow> nat \<Rightarrow> u16" where
  "read16 bs offset = ucast (bs ! offset) OR push_bit 8 (ucast (bs ! (offset + 1)))"

definition read32 :: "bytes \<Rightarrow> nat \<Rightarrow> u32" where
  "read32 bs offset = fold (\<lambda>i value. value OR push_bit (8 * i) (ucast (bs ! (offset + i)))) [0..<4] 0"

definition span_fits :: "u64 \<Rightarrow> u64 \<Rightarrow> u64 \<Rightarrow> bool" where
  "span_fits base add limit = (let end = base + add in end \<ge> base \<and> end \<le> limit)"

record slot_image_info =
  img_version :: string
  img_hash :: bytes
  img_bootable :: bool

lemma unat_u64_less [width_simps]: "unat (x :: u64) < 18446744073709551616"
  using unsigned_less [of x, where 'a = nat] by simp

lemma unat_u64_add:
  "unat (x + y :: u64) =
     (if unat x + unat y < 18446744073709551616 then unat x + unat y
      else unat x + unat y - 18446744073709551616)"
proof -
  have "unat (x + y) = (unat x + unat y) mod 18446744073709551616" by (simp add: unat_word_ariths)
  moreover have "unat x + unat y - 18446744073709551616 < 18446744073709551616"
    using unat_u64_less [of x] unat_u64_less [of y] by linarith
  ultimately show ?thesis by (simp add: le_mod_geq not_less)
qed

lemma span_fits_iff: "span_fits base add limit \<longleftrightarrow> unat base + unat add \<le> unat limit"
  using unat_u64_less [of limit] unat_u64_less [of add]
  by (auto simp: span_fits_def Let_def word_le_nat_alt unat_u64_add)

lemma span_end: "span_fits base add limit \<Longrightarrow> unat (base + add) = unat base + unat add"
  using unat_u64_less [of limit] by (simp add: span_fits_iff unat_u64_add)

text \<open>The walk over the entries of one area; a SHA-256 entry replaces the hash found so far.\<close>

function describe_entries :: "bytes \<Rightarrow> u16 \<Rightarrow> u64 \<Rightarrow> u64 \<Rightarrow> bytes \<Rightarrow> bytes" where
  "describe_entries content magic area_end entry hash =
     (if span_fits entry kAreaHeaderSize area_end then
        let type = read16 content (unat entry);
            len = read16 content (unat entry + 2);
            value = entry + kAreaHeaderSize
        in if \<not> span_fits value (ucast len) area_end then hash
           else describe_entries content magic area_end (value + ucast len)
             (if type = kTlvSha256 \<and> magic = kBootTlvInfoMagic
              then subspan (unat value) (unat len) content else hash)
      else hash)"
  by pat_completeness auto
termination
proof (relation "measure (\<lambda>(_, _, area_end, entry, _). unat area_end - unat entry)", goal_cases)
  case (2 content magic area_end entry hash type len v)
  have "unat (v + ucast len) = unat v + unat (ucast len :: u64)" "unat v = unat entry + 4"
    using 2 span_end [of v "ucast len" area_end] span_end [of entry kAreaHeaderSize area_end]
    by (simp_all add: kAreaHeaderSize_def)
  then show ?case using 2 by (simp add: span_fits_iff kAreaHeaderSize_def)
qed simp

declare describe_entries.simps [simp del]

text \<open>The loop over the two areas; \<open>area\<close> counts the areas still to be walked.\<close>

fun describe_areas :: "bytes \<Rightarrow> nat \<Rightarrow> u64 \<Rightarrow> bytes \<Rightarrow> bytes" where
  "describe_areas content 0 offset hash = hash"
| "describe_areas content (Suc area) offset hash =
     (let size = of_nat (length content) in
      if \<not> span_fits offset kAreaHeaderSize size then hash
      else let magic = read16 content (unat offset); tlv_total = read16 content (unat offset + 2) in
      if magic \<noteq> kBootTlvInfoMagic \<and> magic \<noteq> kBootTlvProtInfoMagic then hash
      else if ucast tlv_total < kAreaHeaderSize \<or> \<not> span_fits offset (ucast tlv_total) size then hash
      else let area_end = offset + ucast tlv_total;
               found = describe_entries content magic area_end (offset + kAreaHeaderSize) hash
           in if magic = kBootTlvInfoMagic then found else describe_areas content area area_end found)"

definition version_text :: "bytes \<Rightarrow> string" where
  "version_text content =
     decimal (unat (content ! 20)) @ ''.'' @ decimal (unat (content ! 21)) @ ''.'' @
     decimal (unat (read16 content 22)) @
     (if read32 content 24 \<noteq> 0 then ''.'' @ decimal (unat (read32 content 24)) else [])"

definition describe :: "bytes \<Rightarrow> slot_image_info option" where
  "describe content =
     (if length content < kImageHeaderSize \<or> read32 content 0 \<noteq> kImageMagic then None
      else let hdr = read16 content 8; body = read32 content 12; flags = read32 content 16;
               out = \<lparr>img_version = version_text content, img_hash = [],
                 img_bootable = (flags AND kImageNonBootable = 0)\<rparr>
           in if \<not> span_fits (ucast hdr) (ucast body) (- 1) then Some out
              else Some (out\<lparr>img_hash := describe_areas content 2 (ucast hdr + ucast body) []\<rparr>))"

type_synonym version_triple = "nat \<times> nat \<times> nat"

definition header_version :: "bytes \<Rightarrow> version_triple option" where
  "header_version content =
     (if length content < kImageHeaderSize then None
      else Some (unat (content ! 20), unat (content ! 21), unat (read16 content 22)))"

text \<open>The defaulted comparison of \<open>HeaderVersion\<close>: member by member.\<close>

definition version_less :: "version_triple \<Rightarrow> version_triple \<Rightarrow> bool" where
  "version_less a b =
     (case (a, b) of ((a1, a2, a3), (b1, b2, b3)) \<Rightarrow>
        a1 < b1 \<or> a1 = b1 \<and> (a2 < b2 \<or> a2 = b2 \<and> a3 < b3))"

section \<open>Reading well-formed files\<close>

lemma read16_load: "read16 bs i = load_le16 bs i"
  by (simp add: read16_def load_le16_def le16_def)

lemma read32_load: "read32 bs i = load_le32 bs i"
  by (simp add: read32_def load_le32_def le32_def upt_conv_Cons or.assoc numeral_eq_Suc)

lemma unat_u64_small: "n < 18446744073709551616 \<Longrightarrow> unat (of_nat n :: u64) = n"
  by (simp add: unat_of_nat)

lemma load_pair:
  "load_le16 (front @ le16_bytes a @ le16_bytes b @ rest) (length front) = a"
  "load_le16 (front @ le16_bytes a @ le16_bytes b @ rest) (length front + 2) = b"
  by (simp_all add: load_le16_def le16_bytes_def nth_append)

text \<open>The hash the reader takes from a run of entries of an area.\<close>

definition sha_in :: "u16 \<Rightarrow> (u16 \<times> bytes) list \<Rightarrow> bytes \<Rightarrow> bytes" where
  "sha_in magic es = fold (\<lambda>e hash. if fst e = kTlvSha256 \<and> magic = kBootTlvInfoMagic then snd e else hash) es"

lemma ucast_length16: "n < 65536 \<Longrightarrow> unat (ucast (of_nat n :: u16) :: u64) = n"
  by (simp add: unsigned_ucast_eq unat_of_nat take_bit_nat_eq_self)

lemma unat_ucast_u16 [simp]: "unat (ucast (v :: u16) :: u64) = unat v"
  unfolding unsigned_ucast_eq using unat_u16_less [of v]
  by (simp add: take_bit_nat_eq_self del: unat_u16_less)

lemma describe_entries_step:
  assumes "i + 4 + unat (read16 c (i + 2)) \<le> n" and "n < 18446744073709551616"
  shows "describe_entries c magic (of_nat n) (of_nat i) hash =
    describe_entries c magic (of_nat n) (of_nat (i + 4 + unat (read16 c (i + 2))))
      (if read16 c i = kTlvSha256 \<and> magic = kBootTlvInfoMagic
       then subspan (i + 4) (unat (read16 c (i + 2))) c else hash)"
proof -
  let ?len = "read16 c (i + 2)"
  have u: "unat (of_nat i :: u64) = i" "unat (of_nat n :: u64) = n"
    "unat (of_nat i + kAreaHeaderSize :: u64) = i + 4"
    using assms by (simp_all add: unat_u64_small unat_u64_add kAreaHeaderSize_def)
  have nxt: "of_nat i + kAreaHeaderSize + ucast ?len = (of_nat (i + 4 + unat ?len) :: u64)"
    using assms u by (simp add: word_unat_eq_iff unat_u64_add unat_u64_small del: of_nat_add)
  have "span_fits (of_nat i) kAreaHeaderSize (of_nat n)"
    "span_fits (of_nat i + kAreaHeaderSize) (ucast ?len) (of_nat n)"
    using assms u by (simp_all add: span_fits_iff kAreaHeaderSize_def)
  then show ?thesis by (subst describe_entries.simps) (simp only: Let_def u nxt if_True not_True_eq_False if_False)
qed

lemma describe_entries_run:
  assumes "bs = front @ concat (map tlv_entry es) @ rest"
    and "list_all (\<lambda>e. length (snd e) < 65536) es"
    and "length front + length (concat (map tlv_entry es)) < 18446744073709551616"
    and "n = length front + length (concat (map tlv_entry es))"
  shows "describe_entries bs magic (of_nat n) (of_nat (length front)) hash = sha_in magic es hash"
  using assms
proof (induction es arbitrary: front hash)
  case Nil
  then show ?case
    by (subst describe_entries.simps) (simp add: span_fits_iff kAreaHeaderSize_def unat_u64_small sha_in_def)
next
  case (Cons e es)
  obtain t p where e: "e = (t, p)" by fastforce
  let ?body = "concat (map tlv_entry es)" and ?front = "front @ tlv_entry (t, p)"
  let ?hd = "front @ le16_bytes t @ le16_bytes (of_nat (length p))"
  have bs: "bs = front @ le16_bytes t @ le16_bytes (of_nat (length p)) @ p @ ?body @ rest"
    using Cons.prems(1) e by (simp add: tlv_entry_def [of "(t, p)"])
  have p: "unat (of_nat (length p) :: u16) = length p" using Cons.prems(2) e by (simp add: unat_of_nat)
  have read: "read16 bs (length front) = t" "read16 bs (length front + 2) = of_nat (length p)"
    unfolding bs read16_load by (rule load_pair)+
  have "length ?hd = length front + 4" by (simp add: le16_bytes_def)
  then have span: "subspan (length front + 4) (length p) bs = p"
    using subspan_exact [OF refl, of ?hd p "?body @ rest"] bs by (metis append.assoc)
  have "describe_entries bs magic (of_nat n) (of_nat (length front)) hash =
      describe_entries bs magic (of_nat n) (of_nat (length ?front))
        (if t = kTlvSha256 \<and> magic = kBootTlvInfoMagic then p else hash)"
    using describe_entries_step [of "length front" bs n magic hash] Cons.prems(3,4) e
    unfolding read p span by (simp add: add.assoc del: of_nat_add)
  also have "\<dots> = sha_in magic es (if t = kTlvSha256 \<and> magic = kBootTlvInfoMagic then p else hash)"
    using Cons.prems e by (intro Cons.IH) simp_all
  finally show ?case using e by (simp add: sha_in_def)
qed

text \<open>One area: the reader takes its hash and, behind a protected area, goes on.\<close>

lemma describe_areas_area:
  assumes bs: "bs = front @ tlv_area magic es @ rest"
    and magic: "magic = kBootTlvInfoMagic \<or> magic = kBootTlvProtInfoMagic"
    and ok: "list_all (\<lambda>e. length (snd e) < 65536) es" and short: "length (tlv_area magic es) < 65536"
    and size: "length bs < 18446744073709551616"
  shows "describe_areas bs (Suc n) (of_nat (length front)) hash =
    (if magic = kBootTlvInfoMagic then sha_in magic es hash
     else describe_areas bs n (of_nat (length (front @ tlv_area magic es))) (sha_in magic es hash))"
proof -
  let ?n = "length (tlv_area magic es)"
  obtain hd where hd: "tlv_area magic es = hd @ concat (map tlv_entry es)" "length hd = 4"
    by (rule tlv_area_split)
  have total: "length front + ?n \<le> length bs" "4 \<le> ?n" using bs hd by simp_all
  have "bs = front @ le16_bytes magic @ le16_bytes (of_nat ?n) @ concat (map tlv_entry es) @ rest"
    unfolding length_tlv_area using bs by (simp add: tlv_area_def)
  then have read: "read16 bs (length front) = magic" "read16 bs (length front + 2) = of_nat ?n"
    unfolding read16_load by (simp_all only: load_pair)
  have u: "unat (of_nat (length front) :: u64) = length front" "unat (of_nat (length bs) :: u64) = length bs"
    "unat (of_nat ?n :: u16) = ?n"
    using size total short by (simp_all add: unat_u64_small unat_of_nat)
  have stop: "of_nat (length front) + ucast (of_nat ?n :: u16) = (of_nat (length front + ?n) :: u64)"
    using size total u by (simp add: word_unat_eq_iff unat_u64_add unat_u64_small del: of_nat_add)
  have entry: "of_nat (length front) + kAreaHeaderSize = (of_nat (length (front @ hd)) :: u64)"
    using hd(2) by (simp add: kAreaHeaderSize_def)
  have run: "describe_entries bs magic (of_nat (length front + ?n)) (of_nat (length (front @ hd))) hash =
      sha_in magic es hash"
    using bs hd size total ok by (intro describe_entries_run) simp_all
  have fits: "span_fits (of_nat (length front)) kAreaHeaderSize (of_nat (length bs))"
    "span_fits (of_nat (length front)) (ucast (of_nat ?n :: u16)) (of_nat (length bs))"
    "\<not> ucast (of_nat ?n :: u16) < kAreaHeaderSize"
    using total u by (simp_all add: span_fits_iff kAreaHeaderSize_def word_less_nat_alt)
  show ?thesis
    unfolding describe_areas.simps Let_def u(1) read stop entry run using fits magic
    by (auto simp del: of_nat_add)
qed

lemma magics [simp]: "kTlvInfoMagic = kBootTlvInfoMagic" "kTlvProtInfoMagic = kBootTlvProtInfoMagic"
  "kBootTlvProtInfoMagic \<noteq> kBootTlvInfoMagic"
  by (simp_all add: kTlvInfoMagic_def kBootTlvInfoMagic_def kTlvProtInfoMagic_def kBootTlvProtInfoMagic_def)

lemma describe_areas_file:
  assumes "list_all (\<lambda>e. length (snd e) < 65536) (case prot of None \<Rightarrow> [] | Some es \<Rightarrow> es)"
    and "list_all (\<lambda>e. length (snd e) < 65536) unprot"
    and "length (tlv_area kTlvProtInfoMagic (case prot of None \<Rightarrow> [] | Some es \<Rightarrow> es)) < 65536"
    and "length (tlv_area kTlvInfoMagic unprot) < 65536"
    and "length (tlv_file pre prot unprot trail) < 18446744073709551616"
  shows "describe_areas (tlv_file pre prot unprot trail) 2 (of_nat (length pre)) [] =
    sha_in kBootTlvInfoMagic unprot []"
proof (cases prot)
  case None
  then show ?thesis
    using assms describe_areas_area [of _ pre kBootTlvInfoMagic unprot trail 1 "[]"]
    by (simp add: tlv_file_def numeral_2_eq_2)
next
  case (Some es)
  have none: "sha_in kBootTlvProtInfoMagic es [] = []" by (induction es) (simp_all add: sha_in_def)
  show ?thesis
    using Some assms none describe_areas_area [of _ pre kBootTlvProtInfoMagic es "tlv_area kBootTlvInfoMagic unprot @ trail" 1 "[]"]
      describe_areas_area [of _ "pre @ tlv_area kBootTlvProtInfoMagic es" kBootTlvInfoMagic unprot trail 0 "[]"]
    by (simp add: tlv_file_def numeral_2_eq_2)
qed

lemma unat_ucast_u16_u32: "unat (ucast (v :: u16) :: u32) = unat v"
  unfolding unsigned_ucast_eq using unat_u16_less [of v]
  by (simp add: take_bit_nat_eq_self del: unat_u16_less)

lemma unat_u64_of_u32: "unat (ucast (v :: u32) :: u64) = unat v"
  unfolding unsigned_ucast_eq using unat_u32_less [of v]
  by (simp add: take_bit_nat_eq_self del: unat_u32_less)

lemma describe_parsed:
  assumes "parse_mcuboot_header bs = Inr info"
  shows "describe bs = Some \<lparr>img_version = ImageVersion_to_string (info_version info),
    img_hash = describe_areas bs 2 (of_nat (through_body info)) [],
    img_bootable = (info_flags info AND kImageNonBootable = 0)\<rparr>"
proof -
  have info: "info = header_fields bs" "length bs \<ge> 32" "load_le32 bs 0 = kMcubootImageMagic"
    "through_body info \<le> kMaxImageSize"
    using assms by (auto simp: parse_mcuboot_header_def Let_def kMcubootHeaderSize_def split: if_splits)
  have small: "unat (ucast (load_le16 bs 8) :: u64) + unat (ucast (load_le32 bs 12) :: u64) = through_body info"
    using info(1) by (simp add: through_body_def header_fields_def unat_u64_of_u32 unat_ucast_u16_u32)
  have "(ucast (load_le16 bs 8) + ucast (load_le32 bs 12) :: u64) = of_nat (through_body info)"
    using small info(4) by (simp add: word_unat_eq_iff unat_u64_add unat_u64_small kMaxImageSize_def)
  moreover have "span_fits (ucast (load_le16 bs 8)) (ucast (load_le32 bs 12)) (- 1)"
    using small info(4) by (simp add: span_fits_iff kMaxImageSize_def unsigned_minus_1_eq_mask mask_eq_exp_minus_1)
  ultimately show ?thesis
    using info(2,3) unfolding info(1)
    by (simp add: describe_def read16_load read32_load kImageHeaderSize_def kImageMagic_def
        kMcubootImageMagic_def version_text_def ImageVersion_to_string_def header_fields_def Let_def)
qed

lemma hash_payloads_append: "hash_payloads (xs @ ys) = hash_payloads xs @ hash_payloads ys"
  by (simp add: hash_payloads_def)

lemma hash_payloads_sha: "hash_payloads ((kTlvSha256, h) # es) = h # hash_payloads es"
  by (simp add: hash_payloads_def hash_tlv_for_def kHashTlvs_def kTlvSha256_def)

lemma sha_in_no_hash: "hash_payloads es = [] \<Longrightarrow> sha_in magic es hash = hash"
  by (induction es) (auto simp: hash_payloads_def sha_in_def hash_tlv_for_def kHashTlvs_def kTlvSha256_def
      split: if_splits)

lemma sha_in_single:
  assumes "hash_payloads unprot = [h]" and "(kTlvSha256, h) \<in> set unprot"
  shows "sha_in kBootTlvInfoMagic unprot hash = h"
proof -
  obtain xs ys where es: "unprot = xs @ (kTlvSha256, h) # ys" using assms(2) by (meson split_list)
  have "hash_payloads xs @ h # hash_payloads ys = [h]"
    using assms(1) unfolding es hash_payloads_append hash_payloads_sha .
  then have "hash_payloads xs = []" "hash_payloads ys = []" by (auto simp: append_eq_Cons_conv)
  then show ?thesis using sha_in_no_hash [of ys kBootTlvInfoMagic h] unfolding es
    by (simp add: sha_in_def)
qed

section \<open>Property\<close>

text \<open>
  C11. Two readers, one answer. The boot model reads images with code of its own, so that it can
  judge the parser under test. On every file whose header smply's parser accepts, made of a body,
  an optional protected area, an unprotected area and anything after them, with one hash TLV, a
  SHA-256 in the unprotected area, both find that hash, and the version a device reports for the
  file is the one smply prints for it.
\<close>

theorem readers_agree:
  assumes "parse_mcuboot_header (tlv_file pre prot unprot trail) = Inr info"
    and "\<not> encrypted info" and "through_body info = length pre"
    and "protected_tlv_size info =
      (case prot of None \<Rightarrow> 0 | Some es \<Rightarrow> of_nat (length (tlv_area kTlvProtInfoMagic es)))"
    and "list_all entry_ok (case prot of None \<Rightarrow> [] | Some es \<Rightarrow> es)" and "list_all entry_ok unprot"
    and "length (tlv_area kTlvProtInfoMagic (case prot of None \<Rightarrow> [] | Some es \<Rightarrow> es)) < 65536"
    and "length (tlv_area kTlvInfoMagic unprot) < 65536"
    and "length (case prot of None \<Rightarrow> [] | Some es \<Rightarrow> es) + 1 + length unprot \<le> kMaxImageTlvs"
    and "length (tlv_file pre prot unprot trail) < 2 ^ 64"
    and "hash_payloads ((case prot of None \<Rightarrow> [] | Some es \<Rightarrow> es) @ unprot) = [h]"
    and "(kTlvSha256, h) \<in> set unprot"
  shows "find_image_tlv_hash (MemoryImageSource (tlv_file pre prot unprot trail)) info = Inr (Some h) \<and>
    describe (tlv_file pre prot unprot trail) =
      Some \<lparr>img_version = ImageVersion_to_string (info_version info), img_hash = h,
        img_bootable = (info_flags info AND kImageNonBootable = 0)\<rparr>"
proof
  have "find_image_tlv_hash (MemoryImageSource (tlv_file pre prot unprot trail)) info =
      single_hash (hash_payloads ((case prot of None \<Rightarrow> [] | Some es \<Rightarrow> es) @ unprot))"
    using assms find_hash_unprotected [of info pre unprot trail]
      find_hash_protected [of info pre "the prot" unprot trail]
    by (cases prot) (simp_all add: list_all_iff)
  then show "find_image_tlv_hash (MemoryImageSource (tlv_file pre prot unprot trail)) info = Inr (Some h)"
    using assms(11) by simp
  have "hash_payloads unprot \<noteq> []"
    using assms(12) split_list [of "(kTlvSha256, h)" unprot]
    by (auto simp: hash_payloads_append hash_payloads_sha)
  then have "hash_payloads unprot = [h]"
    using assms(11) unfolding hash_payloads_append by (auto simp: append_eq_Cons_conv)
  moreover have "list_all (\<lambda>e. length (snd e) < 65536) es" if "list_all entry_ok es" for es
    using that by (auto simp: list_all_iff entry_ok_def)
  then have "describe_areas (tlv_file pre prot unprot trail) 2 (of_nat (length pre)) [] =
      sha_in kBootTlvInfoMagic unprot []"
    using assms by (intro describe_areas_file) auto
  ultimately show "describe (tlv_file pre prot unprot trail) =
      Some \<lparr>img_version = ImageVersion_to_string (info_version info), img_hash = h,
        img_bootable = (info_flags info AND kImageNonBootable = 0)\<rparr>"
    using describe_parsed [OF assms(1)] assms(3,12) by (simp add: sha_in_single)
qed

definition signed_file :: bytes where
  "signed_file = tlv_file (header_bytes demo_info 0 @ [1, 2, 3, 4, 5]) (Some [(0x50, [])])
     [(0x10, replicate 32 7), (0x20, [1])] [9]"

theorem readers_agree_witness:
  "find_image_tlv_hash (MemoryImageSource signed_file) demo_info = Inr (Some (replicate 32 7)) \<and>
   map_option img_hash (describe signed_file) = Some (replicate 32 7)"
proof -
  let ?pre = "header_bytes demo_info 0 @ [1, 2, 3, 4, 5]"
  have "info_ok demo_info"
    by (simp add: info_ok_def demo_info_def kMcubootHeaderSize_def through_body_def kMaxImageSize_def)
  then have "parse_mcuboot_header (tlv_file ?pre (Some [(0x50, [])])
      [(0x10, replicate 32 7), (0x20, [1])] [9]) = Inr demo_info"
    by (simp add: tlv_file_def parse_header_bytes)
  moreover have "length ?pre = 37" by (simp add: header_bytes_def le16_bytes_def le32_bytes_def)
  moreover have "length (tlv_area m [(0x50, [])]) = 8" "length (tlv_area m [(0x10, replicate 32 7), (0x20, [1])]) = 45"
    for m by (simp_all add: length_tlv_area)
  ultimately show ?thesis
    using readers_agree [of ?pre "Some [(0x50, [])]" "[(0x10, replicate 32 7), (0x20, [1])]" "[9]"
        demo_info "replicate 32 7"] unfolding signed_file_def
    by (simp add: demo_info_def through_body_def length_tlv_area entry_ok_def hash_tlv_for_def
        kHashTlvs_def hash_payloads_def kMaxImageTlvs_def kTlvSha256_def tlv_file_def)
qed

end
