(* ===== verification/BootModel.thy ===== *)
theory BootModel
  imports BootReader
begin

text \<open>
  The boot model of \<open>support/boot_model/boot_model.hpp\<close> and \<open>.cpp\<close>: a device's slot table, and
  what MCUboot and Zephyr's image group do to it. An operation on a slot or image the device does
  not have throws in the code and is \<open>None\<close> here. Slots are numbered globally: image \<open>n\<close> owns
  slots \<open>2n\<close> and \<open>2n + 1\<close>. A loop of the code over all image pairs that touches one pair at a
  time is a \<open>map\<close> of the function for one pair. Counts of reads are natural numbers: the code
  decrements them only above zero.
\<close>

section \<open>Data\<close>

datatype swap_type = Swap_None | Swap_Test | Swap_Perm | Swap_Revert

datatype apply_outcome = Apply_Succeeds | Apply_Fails

datatype commit_outcome = Commit_Happens | Commit_Never

record device_commit =
  dc_outcome :: apply_outcome
  apply_reads :: nat
  dc_commit :: commit_outcome
  commit_reads :: nat

datatype boot_behaviour = SwapWithRevert | Overwrite | DirectXip | DirectXipWithRevert

definition behaviour_for_mode :: "int option \<Rightarrow> boot_behaviour" where
  "behaviour_for_mode reported =
     (if reported = Some 2 then Overwrite
      else if reported = Some 4 then DirectXip
      else if reported = Some 5 then DirectXipWithRevert
      else SwapWithRevert)"

record boot_config =
  behaviour :: boot_behaviour
  config_image_count :: nat
  config_no_downgrade :: bool
  allow_confirm_non_active_image_secondary :: bool
  allow_confirm_non_active_image_any :: bool
  allow_confirm_non_active_slot :: bool
  device_commits :: "device_commit option list"

text \<open>The image group's error codes that the model answers.\<close>

datatype boot_error =
    Image_Ok
  | Image_Unknown
  | Image_HashNotFound
  | Image_NoFreeSlot
  | Image_InvalidSlot
  | Image_InvalidHash
  | Image_AlreadyPending
  | Image_ConfirmationDenied
  | Image_SettingTestToActiveDenied

record slot_entry =
  ent_image :: nat
  ent_slot :: nat
  ent_content :: slot_image_info
  ent_pending :: bool
  ent_confirmed :: bool
  ent_active :: bool
  ent_permanent :: bool

record image_pair =
  pair_slots :: "bytes list"
  swap :: swap_type
  pair_device :: "device_commit option"
  applying :: "nat option"
  committing :: "nat option"

datatype xip_state = Xip_Unset | Xip_Once | Xip_Forever

datatype xip_choice = Stay | OtherOnTrial | OtherForGood

record boot_model =
  boot_config_of :: boot_config
  image_pairs :: "image_pair list"
  xip_active :: nat
  xip_states :: "xip_state list"
  xip_trial :: bool

definition blank_pair :: "device_commit option \<Rightarrow> image_pair" where
  "blank_pair d = \<lparr>pair_slots = [[], []], swap = Swap_None, pair_device = d, applying = None,
     committing = None\<rparr>"

definition BootModel :: "boot_config \<Rightarrow> boot_model" where
  "BootModel cfg =
     \<lparr>boot_config_of = cfg,
      image_pairs = map (\<lambda>i. blank_pair
          (if i < length (device_commits cfg) then device_commits cfg ! i else None))
        [0..<(if config_image_count cfg = 0 then 1 else config_image_count cfg)],
      xip_active = 0, xip_states = [Xip_Forever, Xip_Unset], xip_trial = False\<rparr>"

definition image_count :: "boot_model \<Rightarrow> nat" where
  "image_count m = length (image_pairs m)"

definition supports_set_state :: "boot_model \<Rightarrow> bool" where
  "supports_set_state m \<longleftrightarrow> behaviour (boot_config_of m) \<noteq> DirectXip"

definition direct_xip :: "boot_model \<Rightarrow> bool" where
  "direct_xip m \<longleftrightarrow> behaviour (boot_config_of m) = DirectXip \<or>
     behaviour (boot_config_of m) = DirectXipWithRevert"

section \<open>Flash\<close>

definition slot_content :: "boot_model \<Rightarrow> nat \<Rightarrow> bytes option" where
  "slot_content m slot =
     (if slot div 2 < length (image_pairs m) then Some (pair_slots (image_pairs m ! (slot div 2)) ! (slot mod 2))
      else None)"

definition put_slot :: "nat \<Rightarrow> bytes \<Rightarrow> boot_model \<Rightarrow> boot_model" where
  "put_slot slot bs m = m\<lparr>image_pairs := (image_pairs m)[slot div 2 := (image_pairs m ! (slot div 2))
     \<lparr>pair_slots := (pair_slots (image_pairs m ! (slot div 2)))[slot mod 2 := bs]\<rparr>]\<rparr>"

definition load_slot :: "nat \<Rightarrow> bytes \<Rightarrow> boot_model \<Rightarrow> boot_model option" where
  "load_slot slot bs m = (case slot_content m slot of None \<Rightarrow> None | Some _ \<Rightarrow> Some (put_slot slot bs m))"

definition upload_target :: "boot_model \<Rightarrow> nat \<Rightarrow> nat option" where
  "upload_target m img =
     (if img \<ge> length (image_pairs m) then None
      else if direct_xip m \<and> img = 0 then Some (1 - xip_active m)
      else Some (img * 2 + 1))"

definition begin_upload :: "nat \<Rightarrow> nat \<Rightarrow> boot_model \<Rightarrow> boot_model option" where
  "begin_upload slot n m =
     (case load_slot slot (replicate n 0xFF) m of
        None \<Rightarrow> None
      | Some m1 \<Rightarrow>
          Some (if direct_xip m1 \<and> slot < length (xip_states m1)
                then m1\<lparr>xip_states := (xip_states m1)[slot := Xip_Unset]\<rparr> else m1))"

definition write_slot :: "nat \<Rightarrow> nat \<Rightarrow> bytes \<Rightarrow> boot_model \<Rightarrow> (boot_model \<times> bool) option" where
  "write_slot slot offset data m =
     (case slot_content m slot of
        None \<Rightarrow> None
      | Some target \<Rightarrow>
          if offset > length target \<or> length data > length target - offset then Some (m, False)
          else Some (put_slot slot (take offset target @ data @ drop (offset + length data) target) m, True))"

definition next_boot_slot :: "image_pair \<Rightarrow> nat" where
  "next_boot_slot p = (if swap p = Swap_None then 0 else 1)"

definition erase_slot :: "nat \<Rightarrow> boot_model \<Rightarrow> boot_model \<times> boot_error" where
  "erase_slot slot m =
     (if slot \<ge> length (image_pairs m) * 2 then (m, Image_InvalidSlot)
      else let within = (if slot mod 2 = 0 then 0 else 1) in
        if within = next_boot_slot (image_pairs m ! (slot div 2)) \<and> within \<noteq> 0 then (m, Image_NoFreeSlot)
        else (put_slot slot [] m, Image_Ok))"

section \<open>Commits of the device\<close>

definition start_commit :: "image_pair \<Rightarrow> image_pair" where
  "start_commit p =
     (case pair_device p of
        None \<Rightarrow> p
      | Some d \<Rightarrow>
          if swap p = Swap_Revert \<and> applying p = None \<and> dc_commit d = Commit_Happens \<and>
             committing p = None
          then p\<lparr>committing := Some (commit_reads d)\<rparr> else p)"

definition start_device_commits :: "boot_model \<Rightarrow> boot_model" where
  "start_device_commits m = m\<lparr>image_pairs := map start_commit (image_pairs m)\<rparr>"

definition swap_slots :: "image_pair \<Rightarrow> image_pair" where
  "swap_slots p = p\<lparr>pair_slots := (pair_slots p)[0 := pair_slots p ! 1, 1 := pair_slots p ! 0]\<rparr>"

definition advance_pair :: "image_pair \<Rightarrow> image_pair" where
  "advance_pair p =
     (case committing p of
        Some n \<Rightarrow>
          if n > 0 then p\<lparr>committing := Some (n - 1)\<rparr>
          else p\<lparr>committing := None, swap := Swap_None\<rparr>
      | None \<Rightarrow>
          (case applying p of
             None \<Rightarrow> p
           | Some n \<Rightarrow>
               if n > 0 then p\<lparr>applying := Some (n - 1)\<rparr>
               else let p1 = p\<lparr>applying := None\<rparr> in
                 (case pair_device p1 of
                    Some d \<Rightarrow>
                      if dc_outcome d = Apply_Succeeds then (swap_slots p1)\<lparr>swap := Swap_Revert\<rparr>
                      else p1\<lparr>swap := Swap_None\<rparr>
                  | None \<Rightarrow> p1\<lparr>swap := Swap_None\<rparr>)))"

definition advance_applies :: "boot_model \<Rightarrow> boot_model" where
  "advance_applies m =
     (let m1 = m\<lparr>image_pairs := map advance_pair (image_pairs m)\<rparr>
      in if swap (image_pairs m1 ! 0) \<noteq> Swap_Revert then start_device_commits m1 else m1)"

section \<open>Set-state\<close>

fun find_hash :: "bytes \<Rightarrow> nat \<Rightarrow> bytes list \<Rightarrow> nat option" where
  "find_hash h i [] = None"
| "find_hash h i (c # cs) =
     (case describe c of
        Some d \<Rightarrow> if img_hash d = h then Some i else find_hash h (i + 1) cs
      | None \<Rightarrow> find_hash h (i + 1) cs)"

definition boot_find_by_hash :: "bytes \<Rightarrow> boot_model \<Rightarrow> nat option" where
  "boot_find_by_hash h m = find_hash h 0 (concat (map pair_slots (image_pairs m)))"

text \<open>
  \<open>img_mgmt_set_next_boot_slot\<close>: first what is denied, by the order of the tests; then the swap
  that is scheduled, and the confirm hook.
\<close>

definition next_slot_denied :: "boot_config \<Rightarrow> nat \<Rightarrow> image_pair \<Rightarrow> bool \<Rightarrow> boot_error option" where
  "next_slot_denied cfg global_slot p confirm =
     (let image = global_slot div 2; slot = global_slot mod 2; active = 0; next = next_boot_slot p in
      if confirm \<and> image \<noteq> 0 \<and> \<not> allow_confirm_non_active_image_any cfg \<and>
         (\<not> allow_confirm_non_active_image_secondary cfg \<or> slot = active)
      then Some Image_ConfirmationDenied
      else if confirm \<and> slot \<noteq> active \<and> \<not> allow_confirm_non_active_slot cfg
      then Some Image_ConfirmationDenied
      else if \<not> confirm \<and> slot = active then Some Image_SettingTestToActiveDenied
      else case swap p of
        Swap_Test \<Rightarrow> if \<not> confirm \<and> slot = next then Some Image_Ok else Some Image_AlreadyPending
      | Swap_Revert \<Rightarrow> if \<not> confirm then Some Image_AlreadyPending else None
      | _ \<Rightarrow>
          if confirm \<and> slot = next then Some Image_Ok
          else if (slot = active \<and> active \<noteq> next) \<or> (\<not> confirm \<and> slot \<noteq> active \<and> slot = next)
          then Some Image_AlreadyPending else None)"

definition set_next_boot_slot :: "nat \<Rightarrow> bool \<Rightarrow> boot_model \<Rightarrow> boot_model \<times> boot_error" where
  "set_next_boot_slot global_slot confirm m =
     (let image = global_slot div 2; p = image_pairs m ! image in
      case next_slot_denied (boot_config_of m) global_slot p confirm of
        Some answer \<Rightarrow> (m, answer)
      | None \<Rightarrow>
          if global_slot mod 2 = 0 then
            if swap p = Swap_Revert then
              let m1 = m\<lparr>image_pairs := (image_pairs m)[image := p\<lparr>swap := Swap_None, applying := None,
                    committing := None\<rparr>]\<rparr>
              in (if image = 0 then start_device_commits m1 else m1, Image_Ok)
            else (m, Image_Ok)
          else if swap p = Swap_None then
            (m\<lparr>image_pairs := (image_pairs m)[image := p\<lparr>swap := if confirm then Swap_Perm else Swap_Test\<rparr>]\<rparr>, Image_Ok)
          else (m, Image_Ok))"

definition xip_set_next :: "nat \<Rightarrow> bool \<Rightarrow> boot_model \<Rightarrow> boot_model \<times> boot_error" where
  "xip_set_next global_slot confirm m =
     (if global_slot \<ge> length (xip_states m) then (m, Image_HashNotFound)
      else let active = (global_slot = xip_active m) in
      if confirm \<and> \<not> active \<and> \<not> allow_confirm_non_active_slot (boot_config_of m)
      then (m, Image_ConfirmationDenied)
      else if \<not> confirm \<and> active then (m, Image_SettingTestToActiveDenied)
      else if confirm then
        let m1 = m\<lparr>xip_states := (xip_states m)[global_slot := Xip_Forever]\<rparr>
        in (if active then m1\<lparr>xip_trial := False\<rparr> else m1, Image_Ok)
      else if xip_trial m \<or> xip_states m ! global_slot = Xip_Forever then (m, Image_AlreadyPending)
      else (m\<lparr>xip_states := (xip_states m)[global_slot := Xip_Once]\<rparr>, Image_Ok))"

definition set_state :: "bytes option \<Rightarrow> bool \<Rightarrow> boot_model \<Rightarrow> boot_model \<times> boot_error" where
  "set_state h confirm m =
     (if \<not> supports_set_state m then (m, Image_Unknown)
      else let set_next = (if direct_xip m then xip_set_next else set_next_boot_slot) in
      case h of
        None \<Rightarrow>
          if \<not> confirm then (m, Image_InvalidHash)
          else set_next (if direct_xip m then xip_active m else 0) confirm m
      | Some hash \<Rightarrow>
          (case boot_find_by_hash hash m of
             None \<Rightarrow> (m, Image_HashNotFound)
           | Some slot \<Rightarrow> set_next slot confirm m))"

section \<open>Booting\<close>

definition refuses_downgrade :: "boot_config \<Rightarrow> image_pair \<Rightarrow> bool" where
  "refuses_downgrade cfg p =
     (if \<not> config_no_downgrade cfg then False
      else case (header_version (pair_slots p ! 0), header_version (pair_slots p ! 1)) of
        (Some running, Some scheduled) \<Rightarrow> version_less scheduled running
      | _ \<Rightarrow> False)"

definition end_swap_without_trial :: "bool \<Rightarrow> image_pair \<Rightarrow> image_pair" where
  "end_swap_without_trial install p =
     (let p1 = (if install then p\<lparr>pair_slots := (pair_slots p)[0 := pair_slots p ! 1]\<rparr> else p)
      in p1\<lparr>pair_slots := (pair_slots p1)[1 := []], swap := Swap_None\<rparr>)"

definition settle_pair :: "boot_config \<Rightarrow> image_pair \<Rightarrow> image_pair" where
  "settle_pair cfg p =
     (if swap p \<noteq> Swap_Test \<and> swap p \<noteq> Swap_Perm \<or> pair_device p \<noteq> None then p
      else if refuses_downgrade cfg p then end_swap_without_trial False p
      else if behaviour cfg = Overwrite then end_swap_without_trial True p
      else p)"

definition boot_pair :: "image_pair \<Rightarrow> image_pair" where
  "boot_pair p =
     (case swap p of
        Swap_None \<Rightarrow> p
      | Swap_Test \<Rightarrow>
          (case pair_device p of
             Some d \<Rightarrow> p\<lparr>applying := Some (apply_reads d)\<rparr>
           | None \<Rightarrow> (swap_slots p)\<lparr>swap := Swap_Revert\<rparr>)
      | _ \<Rightarrow> (swap_slots p)\<lparr>swap := Swap_None, applying := None, committing := None\<rparr>)"

definition xip_prefers_other :: "boot_model \<Rightarrow> bool" where
  "xip_prefers_other m =
     (let other = 1 - xip_active m;
          theirs = pair_slots (image_pairs m ! 0) ! other;
          ours = pair_slots (image_pairs m ! 0) ! xip_active m
      in case describe theirs of
           None \<Rightarrow> False
         | Some candidate \<Rightarrow>
             if \<not> img_bootable candidate then False
             else if describe ours = None then True
             else let mine = (case header_version ours of None \<Rightarrow> (0, 0, 0) | Some v \<Rightarrow> v);
                      other_version = (case header_version theirs of None \<Rightarrow> (0, 0, 0) | Some v \<Rightarrow> v)
                  in version_less mine other_version \<or> mine = other_version \<and> other < xip_active m)"

definition xip_next :: "boot_model \<Rightarrow> xip_choice" where
  "xip_next m =
     (if \<not> xip_prefers_other m then Stay
      else if behaviour (boot_config_of m) = DirectXip then OtherForGood
      else case xip_states m ! (1 - xip_active m) of
        Xip_Once \<Rightarrow> OtherOnTrial
      | Xip_Forever \<Rightarrow> OtherForGood
      | Xip_Unset \<Rightarrow> Stay)"

definition xip_reboot :: "boot_model \<Rightarrow> boot_model" where
  "xip_reboot m =
     (let other = 1 - xip_active m in
      if behaviour (boot_config_of m) = DirectXipWithRevert \<and> xip_trial m then
        (put_slot (xip_active m) [] m)\<lparr>xip_states := (xip_states m)[xip_active m := Xip_Unset],
          xip_active := other, xip_trial := False\<rparr>
      else if xip_next m = Stay then m
      else m\<lparr>xip_active := other, xip_trial := (xip_next m = OtherOnTrial)\<rparr>)"

definition reboot :: "boot_model \<Rightarrow> boot_model" where
  "reboot m =
     (if direct_xip m then xip_reboot m
      else m\<lparr>image_pairs := map boot_pair (map (settle_pair (boot_config_of m)) (image_pairs m))\<rparr>)"

definition set_device_commit :: "nat \<Rightarrow> device_commit \<Rightarrow> boot_model \<Rightarrow> boot_model option" where
  "set_device_commit img how m =
     (if img < length (image_pairs m)
      then Some (m\<lparr>image_pairs := (image_pairs m)[img := (image_pairs m ! img)\<lparr>pair_device := Some how\<rparr>]\<rparr>)
      else None)"

definition swap_type_of :: "boot_model \<Rightarrow> nat \<Rightarrow> swap_type option" where
  "swap_type_of m img = (if img < length (image_pairs m) then Some (swap (image_pairs m ! img)) else None)"

definition device_committed :: "boot_model \<Rightarrow> nat \<Rightarrow> bool option" where
  "device_committed m img =
     (if img < length (image_pairs m) then Some (pair_device (image_pairs m ! img) \<noteq> None) else None)"

definition boot_from_slot :: "nat \<Rightarrow> boot_model \<Rightarrow> boot_model option" where
  "boot_from_slot slot m =
     (if slot \<ge> length (xip_states m) then None
      else Some (m\<lparr>xip_active := slot, xip_states := [Xip_Unset, Xip_Unset][slot := Xip_Forever],
        xip_trial := False\<rparr>))"

section \<open>The listing\<close>

definition xip_flags :: "boot_model \<Rightarrow> slot_entry \<Rightarrow> slot_entry" where
  "xip_flags m e =
     (let active = (ent_slot e = xip_active m); next = xip_next m; other_boots = (next \<noteq> Stay);
          e1 = e\<lparr>ent_active := active\<rparr>
      in if behaviour (boot_config_of m) = DirectXip then
           e1\<lparr>ent_pending := \<not> active \<and> other_boots, ent_confirmed := False,
             ent_permanent := \<not> active \<and> other_boots\<rparr>
         else if xip_trial m then
           e1\<lparr>ent_pending := False, ent_confirmed := \<not> active, ent_permanent := False\<rparr>
         else if active then
           e1\<lparr>ent_pending := False, ent_confirmed := True, ent_permanent := False\<rparr>
         else e1\<lparr>ent_pending := other_boots, ent_confirmed := False,
           ent_permanent := (next = OtherForGood)\<rparr>)"

definition pair_entry :: "nat \<Rightarrow> image_pair \<Rightarrow> nat \<Rightarrow> slot_image_info \<Rightarrow> slot_entry" where
  "pair_entry img p slot d =
     (let is_active = (slot = 0);
          other_pending = (swap p = Swap_Perm \<or> swap p = Swap_Test);
          other_permanent = (swap p = Swap_Perm);
          other_confirmed = (swap p = Swap_Revert)
      in \<lparr>ent_image = img, ent_slot = slot, ent_content = d,
          ent_pending = (\<not> is_active \<and> other_pending),
          ent_confirmed = (if is_active then swap p \<noteq> Swap_Revert else other_confirmed),
          ent_active = is_active, ent_permanent = (\<not> is_active \<and> other_permanent)\<rparr>)"

definition list_slot :: "boot_model \<Rightarrow> nat \<Rightarrow> nat \<Rightarrow> slot_entry list" where
  "list_slot m img slot =
     (case describe (pair_slots (image_pairs m ! img) ! slot) of
        None \<Rightarrow> []
      | Some d \<Rightarrow>
          let e = pair_entry img (image_pairs m ! img) slot d
          in [if direct_xip m \<and> img = 0 then xip_flags m e else e])"

definition listing :: "boot_model \<Rightarrow> slot_entry list" where
  "listing m = concat (map (\<lambda>img. list_slot m img 0 @ list_slot m img 1) [0..<length (image_pairs m)])"

definition read_state :: "boot_model \<Rightarrow> boot_model \<times> slot_entry list" where
  "read_state m = (let m1 = advance_applies m in (m1, listing m1))"

section \<open>Operations\<close>

text \<open>One call on a model; \<open>None\<close> when the code throws.\<close>

datatype boot_op =
    Op_Load nat bytes
  | Op_Begin_Upload nat nat
  | Op_Write nat nat bytes
  | Op_Erase nat
  | Op_Set_State "bytes option" bool
  | Op_Reboot
  | Op_Device_Commit nat device_commit
  | Op_Read_State
  | Op_Boot_From nat

fun boot_step :: "boot_op \<Rightarrow> boot_model \<Rightarrow> boot_model option" where
  "boot_step (Op_Load slot bs) m = load_slot slot bs m"
| "boot_step (Op_Begin_Upload slot n) m = begin_upload slot n m"
| "boot_step (Op_Write slot offset data) m = map_option fst (write_slot slot offset data m)"
| "boot_step (Op_Erase slot) m = Some (fst (erase_slot slot m))"
| "boot_step (Op_Set_State h confirm) m = Some (fst (set_state h confirm m))"
| "boot_step Op_Reboot m = Some (reboot m)"
| "boot_step (Op_Device_Commit img how) m = set_device_commit img how m"
| "boot_step Op_Read_State m = Some (fst (read_state m))"
| "boot_step (Op_Boot_From slot) m = boot_from_slot slot m"

text \<open>A history of calls; a call that throws changes nothing.\<close>

fun boot_run :: "boot_op list \<Rightarrow> boot_model \<Rightarrow> boot_model" where
  "boot_run [] m = m"
| "boot_run (op # ops) m = boot_run ops (case boot_step op m of None \<Rightarrow> m | Some m' \<Rightarrow> m')"

section \<open>Well-formed devices\<close>

text \<open>
  Every pair has two slots; an apply is in progress only for an image the device commits that is
  marked for test, a commit only for one on trial; the XIP state covers the two slots of image 0.
\<close>

definition pair_ok :: "image_pair \<Rightarrow> bool" where
  "pair_ok p \<longleftrightarrow> length (pair_slots p) = 2 \<and>
     (applying p \<noteq> None \<longrightarrow> swap p = Swap_Test \<and> pair_device p \<noteq> None) \<and>
     (committing p \<noteq> None \<longrightarrow> swap p = Swap_Revert \<and> pair_device p \<noteq> None)"

definition boot_ok :: "boot_model \<Rightarrow> bool" where
  "boot_ok m \<longleftrightarrow> image_pairs m \<noteq> [] \<and> list_all pair_ok (image_pairs m) \<and> xip_active m < 2 \<and>
     length (xip_states m) = 2"

lemma pair_ok_start [simp]: "pair_ok p \<Longrightarrow> pair_ok (start_commit p)"
  by (auto simp: pair_ok_def start_commit_def split: option.splits)

lemma pair_ok_swap [simp]: "length (pair_slots (swap_slots p)) = length (pair_slots p)"
  by (simp add: swap_slots_def)

lemma swap_slots_simps [simp]:
  "applying (swap_slots p) = applying p" "committing (swap_slots p) = committing p"
  "pair_device (swap_slots p) = pair_device p" "swap (swap_slots p) = swap p"
  by (simp_all add: swap_slots_def)

lemma swap_slots_nth [simp]:
  "length (pair_slots p) = 2 \<Longrightarrow> pair_slots (swap_slots p) ! 0 = pair_slots p ! 1"
  "length (pair_slots p) = 2 \<Longrightarrow> pair_slots (swap_slots p) ! Suc 0 = pair_slots p ! 0"
  by (simp_all add: swap_slots_def)

lemma pair_ok_advance: "pair_ok p \<Longrightarrow> pair_ok (advance_pair p)"
  by (auto simp: pair_ok_def advance_pair_def Let_def split: option.splits)

lemma pair_ok_boot: "pair_ok p \<Longrightarrow> pair_ok (boot_pair p)"
  by (auto simp: pair_ok_def boot_pair_def split: option.splits swap_type.splits)

lemma pair_ok_settle: "pair_ok p \<Longrightarrow> pair_ok (settle_pair cfg p)"
  by (auto simp: pair_ok_def settle_pair_def end_swap_without_trial_def Let_def)

lemma list_all_update: "list_all P xs \<Longrightarrow> (i < length xs \<Longrightarrow> P v) \<Longrightarrow> list_all P (xs[i := v])"
  unfolding list_all_iff by (metis length_list_update list_update_beyond not_less set_update_subsetI in_set_conv_nth nth_list_update)

lemma pair_ok_nth: "boot_ok m \<Longrightarrow> i < length (image_pairs m) \<Longrightarrow> pair_ok (image_pairs m ! i)"
  by (simp add: boot_ok_def list_all_length)

lemma boot_ok_put [simp]: "boot_ok m \<Longrightarrow> boot_ok (put_slot slot bs m)"
  using pair_ok_nth [of m "slot div 2"]
  by (auto simp: boot_ok_def put_slot_def pair_ok_def intro!: list_all_update)

lemma boot_ok_commits [simp]: "boot_ok m \<Longrightarrow> boot_ok (start_device_commits m)"
  by (auto simp: boot_ok_def start_device_commits_def list_all_iff)

lemma boot_ok_advance: "boot_ok m \<Longrightarrow> boot_ok (advance_applies m)"
  using boot_ok_commits [of "m\<lparr>image_pairs := map advance_pair (image_pairs m)\<rparr>"] pair_ok_advance
  by (auto simp: boot_ok_def advance_applies_def Let_def list_all_iff)

lemma boot_ok_set_next:
  assumes "boot_ok m"
  shows "boot_ok (fst (set_next_boot_slot g confirm m))" "boot_ok (fst (xip_set_next g confirm m))"
proof -
  let ?i = "g div 2" and ?p = "image_pairs m ! (g div 2)"
  have upd: "boot_ok (m\<lparr>image_pairs := (image_pairs m)[?i := q]\<rparr>)" if "?i < length (image_pairs m) \<Longrightarrow> pair_ok q" for q
    using assms that by (auto simp: boot_ok_def intro!: list_all_update)
  have p: "?i < length (image_pairs m) \<Longrightarrow> pair_ok ?p" using assms by (rule pair_ok_nth)
  have "pair_ok (?p\<lparr>swap := Swap_None, applying := None, committing := None\<rparr>)"
    "swap ?p = Swap_None \<Longrightarrow> pair_ok (?p\<lparr>swap := s\<rparr>)" if "?i < length (image_pairs m)" for s
    using p [OF that] by (auto simp: pair_ok_def)
  then show "boot_ok (fst (set_next_boot_slot g confirm m))"
    using assms upd by (auto simp: set_next_boot_slot_def Let_def split: option.split)
  show "boot_ok (fst (xip_set_next g confirm m))"
    using assms by (auto simp: xip_set_next_def boot_ok_def Let_def)
qed

lemma boot_ok_set_state: "boot_ok m \<Longrightarrow> boot_ok (fst (set_state h confirm m))"
  by (auto simp: set_state_def Let_def boot_ok_set_next split: option.split)

lemma boot_ok_reboot: "boot_ok m \<Longrightarrow> boot_ok (reboot m)"
proof -
  assume ok: "boot_ok m"
  then have "boot_ok (put_slot (xip_active m) [] m)" by simp
  then have "boot_ok (xip_reboot m)"
    using ok by (auto simp: xip_reboot_def boot_ok_def Let_def put_slot_def)
  then show ?thesis
    using ok pair_ok_boot pair_ok_settle by (auto simp: reboot_def boot_ok_def list_all_iff)
qed

lemma boot_ok_step: "boot_ok m \<Longrightarrow> boot_step op m = Some m' \<Longrightarrow> boot_ok m'"
proof (cases op)
  case (Op_Device_Commit img how)
  assume "boot_ok m" "boot_step op m = Some m'"
  then show ?thesis
    using Op_Device_Commit pair_ok_nth [of m img]
    by (auto simp: set_device_commit_def boot_ok_def pair_ok_def intro!: list_all_update split: if_splits)
next
  case (Op_Begin_Upload slot n)
  assume ok: "boot_ok m" and s: "boot_step op m = Some m'"
  have "boot_ok (put_slot slot (replicate n 0xFF) m)" using ok by simp
  then show ?thesis
    using Op_Begin_Upload s
    by (auto simp: begin_upload_def load_slot_def boot_ok_def split: option.splits if_splits)
qed (auto simp: load_slot_def write_slot_def erase_slot_def Let_def read_state_def boot_ok_advance
    boot_ok_set_state boot_ok_reboot boot_from_slot_def split: option.splits if_splits,
    auto simp: boot_ok_def split: nat.split)

lemma boot_ok_start: "boot_ok (BootModel cfg)"
  by (auto simp: boot_ok_def BootModel_def blank_pair_def pair_ok_def list_all_iff)

lemma boot_ok_run: "boot_ok m \<Longrightarrow> boot_ok (boot_run ops m)"
  by (induction ops arbitrary: m) (auto split: option.split dest: boot_ok_step)

end
