(* ===== verification/BootProperties.thy ===== *)
theory BootProperties
  imports BootModel
begin

text \<open>
  What a device of the boot model promises: the flags it lists foretell the next boot, an
  unconfirmed trial is undone, a confirmed one stays.
\<close>

section \<open>One pair across the operations\<close>

text \<open>The content image \<open>img\<close> runs from.\<close>

definition runs :: "boot_model \<Rightarrow> nat \<Rightarrow> bytes" where
  "runs m img = pair_slots (image_pairs m ! img) ! (if direct_xip m \<and> img = 0 then xip_active m else 0)"

text \<open>No operation changes the configuration or the number of images.\<close>

definition same_shape :: "boot_model \<Rightarrow> boot_model \<Rightarrow> bool" where
  "same_shape m m' \<longleftrightarrow> boot_config_of m' = boot_config_of m \<and> length (image_pairs m') = length (image_pairs m)"

lemma same_shape_trans: "same_shape a b \<Longrightarrow> same_shape b c \<Longrightarrow> same_shape a c"
  by (simp add: same_shape_def)

lemma same_shape_simps [simp]:
  "same_shape m m" "same_shape m (put_slot slot bs m)" "same_shape m (start_device_commits m)"
  "same_shape m (advance_applies m)" "same_shape m (fst (xip_set_next g confirm m))"
  "same_shape m (xip_reboot m)"
  by (simp_all add: same_shape_def put_slot_def start_device_commits_def advance_applies_def Let_def
      xip_set_next_def xip_reboot_def)

lemma same_shape_set_next [simp]: "same_shape m (fst (set_next_boot_slot g confirm m))"
  by (simp add: set_next_boot_slot_def Let_def same_shape_def start_device_commits_def split: option.split)

lemma same_shape_step: "boot_step op m = Some m' \<Longrightarrow> same_shape m m'"
proof (cases op)
  case (Op_Begin_Upload slot n)
  assume "boot_step op m = Some m'"
  then show ?thesis using same_shape_simps(2) [of m slot "replicate n 0xFF"] Op_Begin_Upload
    by (auto simp: begin_upload_def load_slot_def same_shape_def split: option.splits if_splits)
next
  case (Op_Set_State h confirm)
  assume "boot_step op m = Some m'"
  then show ?thesis using Op_Set_State by (auto simp: set_state_def Let_def split: option.splits if_splits)
next
  case Op_Reboot
  assume "boot_step op m = Some m'"
  then show ?thesis using Op_Reboot same_shape_simps(6) [of m]
    by (auto simp: reboot_def same_shape_def split: if_splits)
next
  case (Op_Device_Commit img how)
  assume "boot_step op m = Some m'"
  then show ?thesis using Op_Device_Commit
    by (auto simp: set_device_commit_def same_shape_def split: if_splits)
next
  case (Op_Boot_From slot)
  assume "boot_step op m = Some m'"
  then show ?thesis using Op_Boot_From
    by (auto simp: boot_from_slot_def same_shape_def split: if_splits)
qed (auto simp: load_slot_def write_slot_def erase_slot_def Let_def read_state_def split: option.splits if_splits)

lemma same_shape_run: "same_shape m (boot_run ops m)"
proof (induction ops arbitrary: m)
  case (Cons op ops)
  show ?case
  proof (cases "boot_step op m")
    case (Some m')
    then show ?thesis using Cons [of m'] same_shape_step [OF Some] same_shape_trans by auto
  qed (simp add: Cons)
qed simp

lemma config_start [simp]: "boot_config_of (BootModel cfg) = cfg"
  by (simp add: BootModel_def)

lemma reboot_pair:
  "\<not> direct_xip m \<Longrightarrow> i < length (image_pairs m) \<Longrightarrow>
     image_pairs (reboot m) ! i = boot_pair (settle_pair (boot_config_of m) (image_pairs m ! i))"
  by (simp add: reboot_def)

lemma direct_xip_reboot [simp]: "direct_xip (reboot m) = direct_xip m"
  by (simp add: direct_xip_def reboot_def xip_reboot_def Let_def put_slot_def)

lemma listing_iff:
  "e \<in> set (listing m) \<longleftrightarrow> (\<exists>img slot. img < length (image_pairs m) \<and> slot < 2 \<and> e \<in> set (list_slot m img slot))"
  by (auto simp: listing_def less_2_cases_iff)

lemma entry_cases:
  assumes "e \<in> set (listing m)"
  obtains d slot where "ent_image e < length (image_pairs m)" "slot < 2" "ent_slot e = slot"
    "describe (pair_slots (image_pairs m ! ent_image e) ! slot) = Some d"
    "e = (if direct_xip m \<and> ent_image e = 0
      then xip_flags m (pair_entry (ent_image e) (image_pairs m ! ent_image e) slot d)
      else pair_entry (ent_image e) (image_pairs m ! ent_image e) slot d)"
proof -
  have names [simp]: "ent_image (xip_flags m x) = ent_image x" "ent_slot (xip_flags m x) = ent_slot x"
    "ent_image (pair_entry i p s d) = i" "ent_slot (pair_entry i p s d) = s" for x i p s d
    by (simp_all add: xip_flags_def pair_entry_def Let_def)
  from assms obtain img slot where e: "img < length (image_pairs m)" "slot < 2" "e \<in> set (list_slot m img slot)"
    by (auto simp: listing_iff)
  then obtain d where "describe (pair_slots (image_pairs m ! img) ! slot) = Some d"
    and "e = (if direct_xip m \<and> img = 0 then xip_flags m (pair_entry img (image_pairs m ! img) slot d)
      else pair_entry img (image_pairs m ! img) slot d)"
    by (cases "describe (pair_slots (image_pairs m ! img) ! slot)") (auto simp: list_slot_def Let_def)
  moreover from this(2) have "ent_image e = img" "ent_slot e = slot" by simp_all
  ultimately show ?thesis using that e by simp
qed

section \<open>Flags and the next boot\<close>

text \<open>The flags of an entry, read off the swap type or the XIP state.\<close>

lemma swap_flags:
  assumes "length (pair_slots p) = 2" and "pair_device p = None" and "\<not> config_no_downgrade cfg" and "slot < 2"
  shows "ent_pending (pair_entry i p slot d) \<Longrightarrow> pair_slots (boot_pair (settle_pair cfg p)) ! 0 = pair_slots p ! slot"
    and "ent_active (pair_entry i p slot d) \<Longrightarrow> \<not> ent_confirmed (pair_entry i p slot d) \<Longrightarrow>
      pair_slots (boot_pair (settle_pair cfg p)) ! 0 = pair_slots p ! (1 - slot)"
    and "ent_active (pair_entry i p slot d) \<Longrightarrow> ent_confirmed (pair_entry i p slot d) \<Longrightarrow>
      \<not> ent_pending (pair_entry i p 1 d') \<Longrightarrow> boot_pair (settle_pair cfg p) = p"
  using assms
  by (auto simp: pair_entry_def Let_def boot_pair_def settle_pair_def refuses_downgrade_def
      end_swap_without_trial_def less_2_cases_iff split: swap_type.splits)

lemma xip_runs:
  assumes "boot_ok m" and "direct_xip m"
  shows "runs (reboot m) 0 = pair_slots (image_pairs m ! 0) !
    (if behaviour (boot_config_of m) = DirectXipWithRevert \<and> xip_trial m \<or> xip_next m \<noteq> Stay
     then 1 - xip_active m else xip_active m)"
proof -
  have "pair_ok (image_pairs m ! 0)" "image_pairs m \<noteq> []" "xip_active m < 2"
    using assms(1) pair_ok_nth [of m 0] by (simp_all add: boot_ok_def)
  moreover have "xip_active m div 2 = 0" "xip_active m mod 2 = xip_active m" "xip_active m \<noteq> 1 - xip_active m"
    using calculation(3) by (auto simp: less_2_cases_iff)
  ultimately show ?thesis
    using assms(2) direct_xip_reboot [of m]
    by (auto simp: runs_def reboot_def xip_reboot_def Let_def put_slot_def pair_ok_def)
qed


section \<open>Trials\<close>

text \<open>
  What leaves a trial of image \<open>i\<close> alone: reads, requests to test, erases and uploads elsewhere.
  What leaves an image for good alone: also boots, and uploads to its secondary slot.
\<close>

fun spares :: "nat \<Rightarrow> boot_op \<Rightarrow> bool" where
  "spares i (Op_Load s _) \<longleftrightarrow> s div 2 \<noteq> i"
| "spares i (Op_Begin_Upload s _) \<longleftrightarrow> s div 2 \<noteq> i"
| "spares i (Op_Write s _ _) \<longleftrightarrow> s div 2 \<noteq> i"
| "spares i (Op_Erase s) \<longleftrightarrow> s \<noteq> 2 * i"
| "spares i (Op_Set_State _ confirm) \<longleftrightarrow> \<not> confirm"
| "spares i (Op_Device_Commit j _) \<longleftrightarrow> j \<noteq> i"
| "spares i Op_Reboot \<longleftrightarrow> False"
| "spares i _ \<longleftrightarrow> True"

fun keeps :: "nat \<Rightarrow> boot_op \<Rightarrow> bool" where
  "keeps i (Op_Load s _) \<longleftrightarrow> s \<noteq> 2 * i"
| "keeps i (Op_Begin_Upload s _) \<longleftrightarrow> s \<noteq> 2 * i"
| "keeps i (Op_Write s _ _) \<longleftrightarrow> s \<noteq> 2 * i"
| "keeps i (Op_Erase s) \<longleftrightarrow> s \<noteq> 2 * i"
| "keeps i (Op_Set_State _ _) \<longleftrightarrow> False"
| "keeps i (Op_Device_Commit j _) \<longleftrightarrow> j \<noteq> i"
| "keeps i _ \<longleftrightarrow> True"

definition on_trial :: "image_pair \<Rightarrow> bool" where
  "on_trial p \<longleftrightarrow> pair_device p = None \<and> swap p = Swap_Revert \<and> pair_ok p"

definition settled :: "bytes \<Rightarrow> image_pair \<Rightarrow> bool" where
  "settled bs p \<longleftrightarrow> pair_device p = None \<and> swap p = Swap_None \<and> pair_ok p \<and> pair_slots p ! 0 = bs"

lemma put_slot_other: "s div 2 \<noteq> i \<Longrightarrow> image_pairs (put_slot s bs m) ! i = image_pairs m ! i"
  by (simp add: put_slot_def)

lemma client_pair_quiet:
  assumes "pair_device p = None" and "pair_ok p"
  shows "start_commit p = p" "advance_pair p = p"
  using assms by (auto simp: start_commit_def advance_pair_def pair_ok_def split: option.splits)

lemma client_read:
  assumes "i < length (image_pairs m)" and "pair_device (image_pairs m ! i) = None" and "pair_ok (image_pairs m ! i)"
  shows "image_pairs (start_device_commits m) ! i = image_pairs m ! i"
    and "image_pairs (advance_applies m) ! i = image_pairs m ! i"
  using assms client_pair_quiet [OF assms(2,3)]
  by (simp_all add: start_device_commits_def advance_applies_def Let_def)

lemma swap_slots_twice:
  "length (pair_slots p) = 2 \<Longrightarrow> (swap_slots ((swap_slots p)\<lparr>swap := x\<rparr>)) = p\<lparr>swap := x\<rparr>"
  by (cases "pair_slots p" rule: remdups_adj.cases) (auto simp: swap_slots_def)

lemma test_spares:
  assumes "on_trial (image_pairs m ! i)"
  shows "image_pairs (fst (set_next_boot_slot g False m)) ! i = image_pairs m ! i"
  using assms
  by (cases "g div 2 = i")
    (auto simp: on_trial_def set_next_boot_slot_def next_slot_denied_def Let_def split: swap_type.splits if_splits)

lemma spares_step:
  assumes "boot_step op m = Some m'" and "spares i op" and "\<not> direct_xip m"
    and "i < length (image_pairs m)" and "on_trial (image_pairs m ! i)"
  shows "image_pairs m' ! i = image_pairs m ! i"
proof (cases op)
  case (Op_Begin_Upload s n)
  then show ?thesis using assms put_slot_other [of s i "replicate n 0xFF" m]
    by (auto simp: begin_upload_def load_slot_def split: option.splits if_splits)
next
  case (Op_Erase s)
  have "s div 2 \<noteq> i \<or> s = 2 * i + 1" using assms(2) Op_Erase by auto
  then show ?thesis using assms Op_Erase
    by (auto simp: erase_slot_def Let_def put_slot_other next_boot_slot_def on_trial_def split: if_splits)
next
  case (Op_Set_State h confirm)
  then show ?thesis using assms test_spares by (auto simp: set_state_def Let_def split: option.splits if_splits)
next
  case Op_Read_State
  then show ?thesis using assms client_read(2) [of i m] by (auto simp: read_state_def Let_def on_trial_def)
qed (use assms in \<open>auto simp: load_slot_def write_slot_def put_slot_other set_device_commit_def boot_from_slot_def
    split: option.splits if_splits\<close>)

lemma spares_run:
  assumes "list_all (spares i) ops" and "\<not> direct_xip m"
    and "i < length (image_pairs m)" and "on_trial (image_pairs m ! i)"
  shows "image_pairs (boot_run ops m) ! i = image_pairs m ! i"
  using assms
proof (induction ops arbitrary: m)
  case (Cons op ops)
  show ?case
  proof (cases "boot_step op m")
    case (Some m')
    then have "image_pairs m' ! i = image_pairs m ! i" "same_shape m m'"
      using spares_step [OF Some] same_shape_step [OF Some] Cons.prems by simp_all
    then show ?thesis using Cons Some by (simp add: same_shape_def direct_xip_def)
  qed (use Cons in simp)
qed simp

lemma put_slot_settled:
  assumes "settled bs (image_pairs m ! i)" and "s \<noteq> 2 * i"
  shows "settled bs (image_pairs (put_slot s x m) ! i)"
proof (cases "s div 2 = i")
  case True
  then have "s mod 2 = 1" using assms(2) by presburger
  then show ?thesis using assms True by (cases "i < length (image_pairs m)") (auto simp: settled_def put_slot_def pair_ok_def list_update_beyond)
qed (use assms put_slot_other in simp)

lemma keeps_step:
  assumes "boot_step op m = Some m'" and "keeps i op" and "\<not> direct_xip m"
    and "i < length (image_pairs m)" and "settled bs (image_pairs m ! i)"
  shows "settled bs (image_pairs m' ! i)"
proof (cases op)
  case (Op_Begin_Upload s n)
  then show ?thesis using assms put_slot_settled [OF assms(5), of s "replicate n 0xFF"]
    by (auto simp: begin_upload_def load_slot_def split: option.splits if_splits)
next
  case Op_Reboot
  then show ?thesis using assms reboot_pair [of m i] by (auto simp: settled_def settle_pair_def boot_pair_def)
next
  case Op_Read_State
  then show ?thesis using assms client_read(2) [of i m] by (auto simp: read_state_def Let_def settled_def)
qed (use assms put_slot_settled in \<open>auto simp: load_slot_def write_slot_def erase_slot_def Let_def
    set_device_commit_def boot_from_slot_def split: option.splits if_splits\<close>)

lemma service_keeps_run:
  assumes "list_all (keeps i) ops" and "\<not> direct_xip m"
    and "i < length (image_pairs m)" and "settled bs (image_pairs m ! i)"
  shows "settled bs (image_pairs (boot_run ops m) ! i)"
  using assms
proof (induction ops arbitrary: m)
  case (Cons op ops)
  show ?case
  proof (cases "boot_step op m")
    case (Some m')
    then have "settled bs (image_pairs m' ! i)" "same_shape m m'"
      using keeps_step [OF Some] same_shape_step [OF Some] Cons.prems by simp_all
    then show ?thesis using Cons Some by (simp add: same_shape_def direct_xip_def)
  qed (use Cons in simp)
qed simp


text \<open>A device with two small images, for the witnesses.\<close>

definition boot_demo_file :: "byte \<Rightarrow> bytes" where
  "boot_demo_file k = tlv_file (header_bytes \<lparr>header_size = 32, image_size = 0, protected_tlv_size = 0,
     info_flags = 0, info_version = \<lparr>major = k, minor = 0, revision = 0, build = 0\<rparr>, encrypted = False\<rparr> 0)
     None [(0x10, replicate 32 k)] []"

definition boot_demo_config :: boot_config where
  "boot_demo_config = \<lparr>behaviour = SwapWithRevert, config_image_count = 1, config_no_downgrade = False,
     allow_confirm_non_active_image_secondary = False, allow_confirm_non_active_image_any = False,
     allow_confirm_non_active_slot = False, device_commits = []\<rparr>"

definition boot_demo_device :: "boot_op list \<Rightarrow> boot_model" where
  "boot_demo_device ops = boot_run ([Op_Load 0 (boot_demo_file 1), Op_Load 1 (boot_demo_file 2)] @ ops)
     (BootModel boot_demo_config)"

lemma boot_demo_start:
  "slot_content (boot_demo_device []) 1 = Some (boot_demo_file 2)"
  "image_pairs (boot_demo_device []) = [\<lparr>pair_slots = [boot_demo_file 1, boot_demo_file 2],
     swap = Swap_None, pair_device = None, applying = None, committing = None\<rparr>]"
  "boot_find_by_hash (replicate 32 2) (boot_demo_device []) = Some 1"
  subgoal by (simp add: boot_demo_device_def load_slot_def slot_content_def BootModel_def boot_demo_config_def
      put_slot_def blank_pair_def)
  subgoal by (simp add: boot_demo_device_def load_slot_def slot_content_def BootModel_def boot_demo_config_def
      put_slot_def blank_pair_def)
  subgoal by code_simp
  done



end
