(* ===== verification/UpdateOnDevice.thy ===== *)
theory UpdateOnDevice
  imports UpdateSafety BootProperties
begin

text \<open>
  The update state machine (\<open>src/dfu/update_state_machine.cpp\<close>) against the boot model
  (\<open>support/boot_model/boot_model.cpp\<close>), with no wire between them: every effect of a step is
  served by an operation of the device, and the answer is the machine's next event. The theorem is
  that an update really updates: on a healthy device it ends, completed, with the file running
  and confirmed.
\<close>

section \<open>The device as a partner\<close>

text \<open>
  The slot table as the image group decodes it from the listing, and the mode the device reports.
\<close>

definition reported_slot :: "slot_entry \<Rightarrow> image_slot" where
  "reported_slot e = \<lparr>slot_image = of_nat (ent_image e), slot_number = of_nat (ent_slot e),
     slot_version = img_version (ent_content e), slot_hash = Some (img_hash (ent_content e)),
     bootable = img_bootable (ent_content e), pending = ent_pending e, confirmed = ent_confirmed e,
     active = ent_active e, permanent = ent_permanent e\<rparr>"

definition reported :: "slot_entry list \<Rightarrow> image_state" where
  "reported l = \<lparr>slots = map reported_slot l, split_status = None\<rparr>"

definition reported_mode :: "boot_config \<Rightarrow> bootloader_mode_info" where
  "reported_mode cfg = \<lparr>bl_mode =
     (case behaviour cfg of
        SwapWithRevert \<Rightarrow> Mcuboot_SwapUsingMove
      | Overwrite \<Rightarrow> Mcuboot_UpgradeOnly
      | DirectXip \<Rightarrow> Mcuboot_DirectXip
      | DirectXipWithRevert \<Rightarrow> Mcuboot_DirectXipWithRevert),
     raw_mode = 0, bl_no_downgrade = config_no_downgrade cfg\<rparr>"

definition occurs :: "event_kind \<Rightarrow> event" where
  "occurs k = \<lparr>kind = k, now = 0, ev_buf_size = 0,
     bootloader = \<lparr>bl_mode = Mcuboot_Unknown, raw_mode = 0, bl_no_downgrade = False\<rparr>,
     ev_state = None, transferred = 0, already_present = False, ev_error = no_error\<rparr>"

definition refused :: event where
  "refused = (occurs Kind_Failed)\<lparr>ev_error := Error ProtocolError ''device refused''\<rparr>"

definition answer_table :: "event_kind \<Rightarrow> boot_model \<times> boot_error \<Rightarrow> boot_model \<times> event" where
  "answer_table k r =
     (case r of (d, e) \<Rightarrow>
        (d, if e = Image_Ok then (occurs k)\<lparr>ev_state := Some (reported (listing d))\<rparr> else refused))"

text \<open>A whole upload, as one operation on the flash.\<close>

definition store_file :: "bytes \<Rightarrow> nat \<Rightarrow> boot_model \<Rightarrow> boot_model option" where
  "store_file file img d =
     (case upload_target d img of
        None \<Rightarrow> None
      | Some slot \<Rightarrow>
          (case begin_upload slot (length file) d of
             None \<Rightarrow> None
           | Some d1 \<Rightarrow> map_option fst (write_slot slot 0 file d1)))"

definition serve :: "bytes \<Rightarrow> machine_step \<Rightarrow> boot_model \<Rightarrow> boot_model \<times> event" where
  "serve file s d =
     (case effect s of
        Effect_QueryParameters \<Rightarrow> (d, occurs Kind_ParametersUnavailable)
      | Effect_QueryBootloader \<Rightarrow>
          (d, (occurs Kind_BootloaderRead)\<lparr>bootloader := reported_mode (boot_config_of d)\<rparr>)
      | Effect_ReadState \<Rightarrow>
          (case read_state d of (d1, l) \<Rightarrow> (d1, (occurs Kind_StateRead)\<lparr>ev_state := Some (reported l)\<rparr>))
      | Effect_StartUpload \<Rightarrow>
          (case store_file file (unat (step_image s)) d of
             None \<Rightarrow> (d, refused)
           | Some d1 \<Rightarrow> (d1, (occurs Kind_UploadFinished)\<lparr>transferred := of_nat (length file)\<rparr>))
      | Effect_ResumeUpload \<Rightarrow> (d, refused)
      | Effect_MarkForTest \<Rightarrow> answer_table Kind_MarkedForTest (set_state (Some (step_hash s)) False d)
      | Effect_Confirm \<Rightarrow> answer_table Kind_Confirmed (set_state (Some (step_hash s)) True d)
      | Effect_Reset \<Rightarrow> (reboot d, occurs Kind_ResetAccepted)
      | Effect_ForceReset \<Rightarrow> (reboot d, occurs Kind_ResetAccepted)
      | Effect_AwaitDisconnect \<Rightarrow> (d, occurs Kind_Disconnected)
      | Effect_RequestReconnect \<Rightarrow> (d, occurs Kind_Reconnected)
      | Effect_RequestConfirmation \<Rightarrow> (d, occurs Kind_ConfirmApproved)
      | Effect_AwaitApply \<Rightarrow> (d, occurs Kind_Tick)
      | _ \<Rightarrow> (d, occurs Kind_Continue))"

definition exchange :: "bytes \<Rightarrow> machine \<times> machine_step \<times> boot_model \<Rightarrow> machine \<times> machine_step \<times> boot_model" where
  "exchange file x =
     (case x of (m, s, d) \<Rightarrow>
        (case serve file s d of (d1, ev) \<Rightarrow>
           (case machine_apply m (ev\<lparr>now := (case next_deadline m of None \<Rightarrow> 0 | Some t \<Rightarrow> t)\<rparr>) of
              (m1, s1) \<Rightarrow> (m1, s1, d1))))"

definition begin_update :: "target list \<Rightarrow> update_plan \<Rightarrow> boot_model \<Rightarrow> machine \<times> machine_step \<times> boot_model" where
  "begin_update ts plan d = (case machine_apply (Machine ts plan) (occurs Kind_Start) of (m, s) \<Rightarrow> (m, s, d))"

section \<open>One image pair\<close>

definition lone :: "boot_model \<Rightarrow> bytes \<Rightarrow> bytes \<Rightarrow> swap_type \<Rightarrow> boot_model" where
  "lone d a b sw = d\<lparr>image_pairs := [\<lparr>pair_slots = [a, b], swap = sw, pair_device = None,
     applying = None, committing = None\<rparr>]\<rparr>"

definition swaps :: "boot_model \<Rightarrow> bool" where
  "swaps d \<longleftrightarrow> behaviour (boot_config_of d) = SwapWithRevert \<and> \<not> config_no_downgrade (boot_config_of d)"

lemma lone_simps [simp]:
  "boot_config_of (lone d a b sw) = boot_config_of d"
  "image_pairs (lone d a b sw) = [\<lparr>pair_slots = [a, b], swap = sw, pair_device = None,
     applying = None, committing = None\<rparr>]"
  "swaps (lone d a b sw) = swaps d"
  by (simp_all add: lone_def swaps_def)

lemma swaps_no_xip [simp]: "swaps d \<Longrightarrow> \<not> direct_xip (lone d a b sw)" "swaps d \<Longrightarrow> supports_set_state (lone d a b sw)"
  by (simp_all add: swaps_def direct_xip_def supports_set_state_def)

lemma lone_read: "read_state (lone d a b sw) = (lone d a b sw, listing (lone d a b sw))"
  by (simp add: read_state_def advance_applies_def advance_pair_def start_device_commits_def start_commit_def
      Let_def) (simp add: lone_def)

lemma lone_reboot: "swaps d \<Longrightarrow> reboot (lone d a b Swap_Test) = lone d b a Swap_Revert"
  by (simp add: reboot_def settle_pair_def refuses_downgrade_def swaps_def boot_pair_def swap_slots_def)
    (simp add: lone_def)

lemma lone_store:
  assumes "swaps d"
  shows "store_file file 0 (lone d a b sw) = Some (lone d a file sw)"
  using swaps_no_xip(1) [OF assms]
  by (simp add: store_file_def upload_target_def begin_upload_def load_slot_def slot_content_def put_slot_def
      write_slot_def direct_xip_def) (simp add: lone_def)

text \<open>Whether a slot holds the file.\<close>

definition carries :: "bytes \<Rightarrow> image_hash \<Rightarrow> bool" where
  "carries content h = (case describe content of None \<Rightarrow> False | Some x \<Rightarrow> img_hash x = h)"

lemma carriesE:
  assumes "carries content h"
  obtains x where "describe content = Some x" "img_hash x = h"
  using assms that by (auto simp: carries_def split: option.splits)

lemma lone_mark:
  assumes "swaps d" and "carries b h" and "\<not> carries a h"
  shows "set_state (Some h) False (lone d a b Swap_None) = (lone d a b Swap_Test, Image_Ok)"
proof -
  have "boot_find_by_hash h (lone d a b Swap_None) = Some 1"
    using assms(2,3) by (auto simp: boot_find_by_hash_def carries_def split: option.splits)
  then show ?thesis using assms(1)
    by (simp add: set_state_def set_next_boot_slot_def next_slot_denied_def next_boot_slot_def) (simp add: lone_def)
qed

lemma lone_confirm:
  assumes "swaps d" and "carries a h"
  shows "set_state (Some h) True (lone d a b Swap_Revert) = (lone d a b Swap_None, Image_Ok)"
proof -
  have "boot_find_by_hash h (lone d a b Swap_Revert) = Some 0"
    using assms(2) by (auto simp: boot_find_by_hash_def carries_def split: option.splits)
  then show ?thesis using assms(1)
    by (simp add: set_state_def set_next_boot_slot_def next_slot_denied_def start_device_commits_def
        start_commit_def) (simp add: lone_def)
qed

section \<open>What the device lists\<close>

lemma lone_listing:
  "swaps d \<Longrightarrow> listing (lone d a b sw) =
     (case describe a of None \<Rightarrow> [] | Some x \<Rightarrow>
        [\<lparr>ent_image = 0, ent_slot = 0, ent_content = x, ent_pending = False,
          ent_confirmed = (sw \<noteq> Swap_Revert), ent_active = True, ent_permanent = False\<rparr>]) @
     (case describe b of None \<Rightarrow> [] | Some x \<Rightarrow>
        [\<lparr>ent_image = 0, ent_slot = 1, ent_content = x, ent_pending = (sw = Swap_Perm \<or> sw = Swap_Test),
          ent_confirmed = (sw = Swap_Revert), ent_active = False, ent_permanent = (sw = Swap_Perm)\<rparr>])"
  by (auto simp: listing_def list_slot_def pair_entry_def Let_def split: option.split)

abbreviation table :: "boot_model \<Rightarrow> bytes \<Rightarrow> bytes \<Rightarrow> swap_type \<Rightarrow> image_state" where
  "table d a b sw \<equiv> reported (listing (lone d a b sw))"

lemma table_active:
  assumes "swaps d" and "describe a = Some x"
  shows "\<exists>sl. active_slot (table d a b sw) 0 = Some (0, sl) \<and> slot_hash sl = Some (img_hash x) \<and>
    confirmed sl = (sw \<noteq> Swap_Revert)"
  using assms by (simp add: lone_listing reported_def reported_slot_def active_slot_def)

lemma table_holding:
  assumes "swaps d" and "t_image t = 0" and "hash t \<noteq> []" and "device c = Some (table d a b sw)"
  shows "slot_holding c t \<noteq> None \<longleftrightarrow> carries a (hash t) \<or> carries b (hash t)"
  using assms
  by (auto simp: slot_holding_def lone_listing reported_def reported_slot_def holds_def carries_def
      split: option.splits)

section \<open>The machine, seen from outside\<close>

definition seen :: "machine_context \<Rightarrow>
    image_target list \<times> nat \<times> bool \<times> bool \<times> bool \<times> bool \<times> mcuboot_mode \<times> image_state option" where
  "seen c = (targets c, current c, swap_scheduled c, upload_in_progress c, confirm_approved c,
     no_downgrade c, bootloader_mode (report c), device c)"

lemma seen_simps [simp]:
  "seen (summarise c) = seen c" "seen (keep_time s t plan c) = seen c"
  by (auto simp: seen_def summarise_def keep_time_def set_report_def Let_def split: effect.split)

lemma parameterise_seen:
  "parameterise s c = (c', s') \<Longrightarrow> seen c' = seen c \<and> effect s' = effect s \<and> next_state s' = next_state s \<and>
     (effect s = Effect_MarkForTest \<or> effect s = Effect_Confirm \<longrightarrow> step_hash s' = hash (targets c ! current c)) \<and>
     (effect s = Effect_StartUpload \<longrightarrow> step_image s' = t_image (targets c ! current c))"
  by (cases "effect s") (auto simp: parameterise_def seen_def set_report_def Let_def)

lemma apply_seen:
  assumes "guarded_decide m ev = (c, s)" and "names_current (effect s) \<longrightarrow> current c < length (targets c)"
    and "machine_apply m ev = (m', s')"
  shows "m_plan m' = m_plan m \<and> m_state m' = next_state s \<and> effect s' = effect s \<and> seen (m_context m') = seen c \<and>
     (effect s = Effect_MarkForTest \<or> effect s = Effect_Confirm \<longrightarrow> step_hash s' = hash (targets c ! current c)) \<and>
     (effect s = Effect_StartUpload \<longrightarrow> step_image s' = t_image (targets c ! current c))"
proof -
  obtain c3 s3 where p: "parameterise s (summarise c) = (c3, s3)" by fastforce
  have "m' = m\<lparr>m_state := next_state s3, m_context := keep_time s3 (now ev) (m_plan m) c3\<rparr>" "s' = s3"
    using assms p by (auto simp: machine_apply_def not_le split: if_splits)
  then show ?thesis using parameterise_seen [OF p] by simp
qed

definition at_stage :: "update_plan \<Rightarrow> image_target \<Rightarrow> update_state \<Rightarrow> effect \<Rightarrow> nat \<Rightarrow> bool \<Rightarrow> bool \<Rightarrow> bool \<Rightarrow>
    image_state option \<Rightarrow> boot_model \<Rightarrow> machine \<times> machine_step \<times> boot_model \<Rightarrow> bool" where
  "at_stage plan t st e cur sched upl appr T d x \<longleftrightarrow>
     (case x of (m, s, d') \<Rightarrow> d' = d \<and> m_plan m = plan \<and> m_state m = st \<and> effect s = e \<and>
        seen (m_context m) = ([t], cur, sched, upl, appr, False, Mcuboot_SwapUsingMove, T) \<and>
        (e = Effect_MarkForTest \<or> e = Effect_Confirm \<longrightarrow> step_hash s = hash t) \<and>
        (e = Effect_StartUpload \<longrightarrow> step_image s = t_image t))"

text \<open>One exchange, from the decision of the machine on the device's answer.\<close>

lemma stage_step:
  assumes "at_stage plan t st e cur sched upl appr T d x"
    and "\<And>m s. at_stage plan t st e cur sched upl appr T d (m, s, d) \<Longrightarrow> x = (m, s, d) \<Longrightarrow>
      \<exists>d1 ev c s1. serve file s d = (d1, ev) \<and>
        (\<forall>n. guarded_decide m (ev\<lparr>now := n\<rparr>) = (c, s1)) \<and> next_state s1 = st' \<and> effect s1 = e' \<and> d1 = d' \<and>
        seen c = ([t'], cur', sched', upl', appr', False, Mcuboot_SwapUsingMove, T') \<and>
        (names_current e' \<longrightarrow> cur' = 0)"
  shows "at_stage plan t' st' e' cur' sched' upl' appr' T' d' (exchange file x)"
proof -
  obtain m s where x: "x = (m, s, d)" using assms(1) by (cases x) (auto simp: at_stage_def)
  obtain d1 ev c s1 where a: "serve file s d = (d1, ev)" "\<And>n. guarded_decide m (ev\<lparr>now := n\<rparr>) = (c, s1)"
    "next_state s1 = st'" "effect s1 = e'" "d1 = d'"
    "seen c = ([t'], cur', sched', upl', appr', False, Mcuboot_SwapUsingMove, T')" "names_current e' \<longrightarrow> cur' = 0"
    using assms(2) [of m s] assms(1) x by metis
  let ?ev = "ev\<lparr>now := (case next_deadline m of None \<Rightarrow> 0 | Some t \<Rightarrow> t)\<rparr>"
  obtain m' s' where m': "machine_apply m ?ev = (m', s')" by fastforce
  have "names_current (effect s1) \<longrightarrow> current c < length (targets c)"
    using a by (simp add: seen_def)
  note v = apply_seen [OF a(2) this m']
  have "m_plan m = plan" using assms(1) x by (simp add: at_stage_def)
  then show ?thesis
    using v a x m' by (auto simp: exchange_def at_stage_def seen_def names_current_def)
qed

section \<open>The stages of an update\<close>

lemmas stage_simps = at_stage_def seen_def serve_def lone_read guarded_decide_def decide_def occurs_def
  is_terminal_def needs_current_def carries_table_def names_current_def with_table_def Let_def

text \<open>
  A device that swaps with revert and runs an image other than the file, with anything but the
  file in its other slot, and an update of image 0 to the file that is to be tested first.
\<close>

definition healthy :: "update_plan \<Rightarrow> image_target \<Rightarrow> boot_model \<Rightarrow> bytes \<Rightarrow> bytes \<Rightarrow> bytes \<Rightarrow> bool" where
  "healthy plan t d old spare new \<longleftrightarrow> plan_mode plan = Mode_TestThenConfirm \<and> swaps d \<and>
     t_image t = 0 \<and> commit t = Commit_Client \<and> builds t = None \<and> \<not> in_trial t \<and> hash t \<noteq> [] \<and>
     carries new (hash t) \<and> describe old \<noteq> None \<and> \<not> carries old (hash t) \<and> \<not> carries spare (hash t)"

lemma healthyD:
  assumes "healthy plan t d old spare new"
  shows "plan_mode plan = Mode_TestThenConfirm" "swaps d" "t_image t = 0" "commit t = Commit_Client"
    "builds t = None" "\<not> in_trial t" "hash t \<noteq> []" "carries new (hash t)" "\<not> carries old (hash t)"
    "\<not> carries spare (hash t)" "describe old \<noteq> None"
  using assms by (simp_all add: healthy_def)

lemma preconditions_pass:
  "\<not> no_downgrade c \<Longrightarrow> bootloader_mode (report c) = Mcuboot_SwapUsingMove \<Longrightarrow>
     check_preconditions plan c = (c\<lparr>preconditions_checked := True\<rparr>, None) \<or> check_preconditions plan c = (c, None)"
  by (simp add: check_preconditions_def mode_refusal_def is_downgrade_def Let_def)

lemma inspected:
  "at_stage plan t State_InspectingImages Effect_ReadState 0 False False False T (lone d old spare Swap_None) x \<Longrightarrow>
   at_stage plan t State_Planning Effect_Continue 0 False False False (Some (table d old spare Swap_None))
     (lone d old spare Swap_None) (exchange new x)"
  by (rule stage_step, assumption) (simp add: stage_simps)

lemma planned:
  assumes h: "healthy plan t d old spare new"
    and "at_stage plan t State_Planning Effect_Continue 0 False False False (Some (table d old spare Swap_None))
      (lone d old spare Swap_None) x"
  shows "at_stage plan t State_Uploading Effect_StartUpload 0 False True False (Some (table d old spare Swap_None))
     (lone d old spare Swap_None) (exchange new x)"
  using assms(2)
proof (rule stage_step, goal_cases)
  case (1 m s)
  note h = healthyD [OF h]
  let ?c = "m_context m" and ?d = "lone d old spare Swap_None"
  have m: "targets ?c = [t]" "current ?c = 0" "\<not> no_downgrade ?c"
    "bootloader_mode (report ?c) = Mcuboot_SwapUsingMove" "device ?c = Some (table d old spare Swap_None)"
    using 1 by (simp_all add: at_stage_def seen_def)
  obtain sl where sl: "active_of ?c 0 = Some (0, sl)" "slot_hash sl \<noteq> Some (hash t)"
    using table_active [OF h(2), of old _ spare Swap_None] h(9,11) m(5) by (auto simp: active_of_def carries_def)
  have none: "slot_holding ?c t = None"
    using table_holding [OF h(2,3,7) m(5)] h(9,10) by blast
  have "\<not> running_on_trial ?c t" using sl h(3) by (simp add: running_on_trial_def holds_def)
  then have "plan_from_state plan ?c = plan_upload plan ?c"
    using m none h(5) by (simp add: plan_from_state_def plan_loop.simps [of plan ?c] choose_build_def)
  then show ?case using 1 preconditions_pass [OF m(3,4), of plan] by (auto simp: stage_simps plan_upload_def)
qed

lemma uploaded:
  assumes h: "healthy plan t d old spare new"
    and "at_stage plan t State_Uploading Effect_StartUpload 0 False True False T (lone d old spare Swap_None) x"
  shows "at_stage plan t State_VerifyingUpload Effect_ReadState 0 False False False T
     (lone d old new Swap_None) (exchange new x)"
  using assms(2)
  by (rule stage_step)
    (simp add: stage_simps lone_store healthyD [OF h] upload_finished_def set_image_def set_report_def
      upload_only_def)

lemma verified:
  assumes h: "healthy plan t d old spare new"
    and "at_stage plan t State_VerifyingUpload Effect_ReadState 0 False False False T (lone d old new Swap_None) x"
  shows "at_stage plan t State_MarkingForTest Effect_MarkForTest 0 False False False (Some (table d old new Swap_None))
     (lone d old new Swap_None) (exchange new x)"
  using assms(2)
proof (rule stage_step, goal_cases)
  case (1 m s)
  note h = healthyD [OF h]
  let ?c = "(m_context m)\<lparr>device := Some (table d old new Swap_None)\<rparr>"
  have "slot_holding ?c t \<noteq> None"
    using table_holding [OF h(2,3,7), of ?c old new Swap_None] h(8) by simp
  then obtain i sl where "slot_holding ?c t = Some (i, sl)" by auto
  then show ?case using 1
    by (simp add: stage_simps verify_upload_def mark_or_skip_def without_set_state_def set_image_def set_report_def)
qed

lemma marked:
  assumes h: "healthy plan t d old spare new"
    and "at_stage plan t State_MarkingForTest Effect_MarkForTest 0 False False False T (lone d old new Swap_None) x"
  shows "at_stage plan t State_Resetting Effect_Reset 1 True False False (Some (table d old new Swap_Test))
     (lone d old new Swap_Test) (exchange new x)"
  using assms(2)
proof (rule stage_step, goal_cases)
  case (1 m s)
  note h = healthyD [OF h]
  let ?c = "(m_context m)\<lparr>device := Some (table d old new Swap_Test), swap_scheduled := True, current := 1, mark_retried := False\<rparr>"
  have "set_state (Some (hash t)) False (lone d old new Swap_None) = (lone d old new Swap_Test, Image_Ok)"
    by (rule lone_mark [OF h(2,8,9)])
  moreover have "check_preconditions plan ?c = (?c\<lparr>preconditions_checked := True\<rparr>, None) \<or> check_preconditions plan ?c = (?c, None)"
    using 1 by (intro preconditions_pass) (simp_all add: at_stage_def seen_def)
  ultimately show ?case using 1 h(1)
    by (auto simp: stage_simps answer_table_def next_target_def staged_def upload_only_def)
qed

lemma rebooted:
  assumes "swaps d"
    and "at_stage plan t State_Resetting Effect_Reset 1 True False False T (lone d old new Swap_Test) x"
  shows "at_stage plan t State_AwaitingDisconnect Effect_AwaitDisconnect 1 True False False T
     (lone d new old Swap_Revert) (exchange new x)"
  using assms(2) by (rule stage_step) (simp add: stage_simps lone_reboot [OF assms(1)])

lemma reconnected:
  "at_stage plan t State_AwaitingDisconnect Effect_AwaitDisconnect 1 True False False T dev x \<Longrightarrow>
   at_stage plan t State_AwaitingReconnect Effect_RequestReconnect 1 True False False T dev (exchange new x)"
  "at_stage plan t State_AwaitingReconnect Effect_RequestReconnect 1 True False False T dev x \<Longrightarrow>
   at_stage plan t State_VerifyingBooted Effect_ReadState 1 True False False T dev (exchange new x)"
  by (rule stage_step, assumption, simp add: stage_simps)+

lemma booted:
  assumes h: "healthy plan t d old spare new"
    and "at_stage plan t State_VerifyingBooted Effect_ReadState 1 True False False T (lone d new old Swap_Revert) x"
  shows "at_stage plan (t\<lparr>in_trial := True\<rparr>) State_AwaitingConfirmation Effect_RequestConfirmation 0 True False False
     (Some (table d new old Swap_Revert)) (lone d new old Swap_Revert) (exchange new x)"
  using assms(2)
proof (rule stage_step, goal_cases)
  case (1 m s)
  note h = healthyD [OF h]
  obtain sl where "active_slot (table d new old Swap_Revert) 0 = Some (0, sl)" "slot_hash sl = Some (hash t)" "\<not> confirmed sl"
    using table_active [OF h(2), of new _ old Swap_Revert] carriesE [OF h(8)] by metis
  then show ?case using 1 h
    by (simp add: stage_simps inspect_boot_def boot_check_def set_target_def active_of_def holds_def
        slot_confirmed_def without_set_state_def next_in_trial_def await_device_def confirmation_fork_def)
qed

lemma approved:
  "at_stage plan t State_AwaitingConfirmation Effect_RequestConfirmation 0 True False False T dev x \<Longrightarrow>
   at_stage plan t State_Confirming Effect_Confirm 0 True False True T dev (exchange new x)"
  by (rule stage_step, assumption) (simp add: stage_simps)

lemma confirmed_now:
  assumes h: "healthy plan t d old spare new"
    and "at_stage plan (t\<lparr>in_trial := True\<rparr>) State_Confirming Effect_Confirm 0 True False True T (lone d new old Swap_Revert) x"
  shows "at_stage plan t State_VerifyingConfirmed Effect_ReadState 1 False False True (Some (table d new old Swap_None))
     (lone d new old Swap_None) (exchange new x)"
  using assms(2)
proof (rule stage_step, goal_cases)
  case (1 m s)
  note h = healthyD [OF h]
  have "set_state (Some (hash t)) True (lone d new old Swap_Revert) = (lone d new old Swap_None, Image_Ok)"
    by (rule lone_confirm [OF h(2,8)])
  moreover have "t\<lparr>in_trial := False\<rparr> = t" using h(6) by simp
  ultimately show ?case using 1 h(6)
    by (simp add: stage_simps answer_table_def confirm_accepted_def set_target_def next_in_trial_def)
qed

lemma completed:
  assumes h: "healthy plan t d old spare new"
    and "at_stage plan t State_VerifyingConfirmed Effect_ReadState 1 False False True T (lone d new old Swap_None) x"
  shows "at_stage plan t State_Completed Effect_Finish 1 False False True (Some (table d new old Swap_None))
     (lone d new old Swap_None) (exchange new x)"
  using assms(2)
proof (rule stage_step, goal_cases)
  case (1 m s)
  note h = healthyD [OF h]
  obtain sl where "active_slot (table d new old Swap_None) 0 = Some (0, sl)" "slot_hash sl = Some (hash t)" "confirmed sl"
    using table_active [OF h(2), of new _ old Swap_None] carriesE [OF h(8)] swap_type.distinct(5) by metis
  then show ?case using 1 h
    by (simp add: stage_simps verify_confirmed_def client_confirmed_def active_of_def holds_def
        slot_confirmed_def await_commit_def)
qed

section \<open>The whole update\<close>

lemma first_exchanges:
  assumes "swaps d" and "t = target.extend \<tau> \<lparr>chosen = 0, chosen_known = False, in_trial = False\<rparr>"
  shows "at_stage plan t State_InspectingImages Effect_ReadState 0 False False False None d
    (exchange new (exchange new (begin_update [\<tau>] plan d)))"
  using assms
  by (simp add: begin_update_def exchange_def Machine_def machine_apply_def stage_simps summarise_def
      parameterise_def keep_time_def set_report_def mk_step_def reported_mode_def swaps_def record_mode_def no_report_def)

lemma lone_of:
  assumes "image_pairs d = [p]" and "pair_ok p" and "pair_device p = None" and "swap p = Swap_None"
  shows "d = lone d (pair_slots p ! 0) (pair_slots p ! 1) Swap_None"
proof -
  have "length (pair_slots p) = 2" "applying p = None" "committing p = None"
    using assms(2-4) by (auto simp: pair_ok_def)
  then have "p = \<lparr>pair_slots = [pair_slots p ! 0, pair_slots p ! 1], swap = Swap_None, pair_device = None,
      applying = None, committing = None\<rparr>"
    using assms(3,4) by (cases p) (auto simp: numeral_2_eq_2 length_Suc_conv)
  then show ?thesis using assms(1) by (simp add: lone_def)
qed

text \<open>
  C2. An update updates. Take any device of the boot model that swaps with revert, however it got
  into its state, with one image that the client commits and nothing scheduled, running some
  valid image and holding anything in its other slot, and a file that neither slot holds. Then the
  machine and the device, left to themselves with an application that approves the trial,
  exchange fourteen answers and stop: the machine has completed the update, the device runs the
  file, confirmed, with the old image in its other slot and nothing scheduled.
\<close>

theorem update_installs:
  assumes "d = boot_run ops (BootModel cfg)" and "behaviour cfg = SwapWithRevert"
    and "\<not> config_no_downgrade cfg" and "image_count d = 1" and "device_committed d 0 = Some False"
    and "swap_type_of d 0 = Some Swap_None"
    and "slot_content d 0 = Some old" and "describe old = Some running"
    and "slot_content d 1 = Some spare" and "map_option img_hash (describe spare) \<noteq> Some (img_hash fresh)"
    and "describe new = Some fresh" and "img_hash fresh \<noteq> []" and "img_hash running \<noteq> img_hash fresh"
    and "plan_mode plan = Mode_TestThenConfirm"
    and "(m, s, d') = (exchange new ^^ 14) (begin_update [\<lparr>t_image = 0, commit = Commit_Client,
      hash = img_hash fresh, version = v, builds = None\<rparr>] plan d)"
  shows "m_state m = State_Completed \<and> effect s = Effect_Finish \<and>
    slot_content d' 0 = Some new \<and> slot_content d' 1 = Some old \<and> swap_type_of d' 0 = Some Swap_None"
proof -
  define t where "t = target.extend \<lparr>t_image = 0, commit = Commit_Client, hash = img_hash fresh,
    version = v, builds = None\<rparr> \<lparr>chosen = 0, chosen_known = False, in_trial = False\<rparr>"
  have "boot_config_of d = cfg" "boot_ok d"
    using assms(1) same_shape_run [of "BootModel cfg" ops] boot_ok_run boot_ok_start by (simp_all add: same_shape_def)
  then have sw: "swaps d" using assms(2,3) by (simp add: swaps_def)
  obtain p where p: "image_pairs d = [p]" using assms(4) by (auto simp: image_count_def length_Suc_conv)
  have d: "d = lone d old spare Swap_None"
    using lone_of [OF p] \<open>boot_ok d\<close> p assms(5-7,9)
    by (auto simp: boot_ok_def device_committed_def swap_type_of_def slot_content_def)
  have h: "healthy plan t d old spare new"
    using sw assms(8,10-14) by (auto simp: healthy_def t_def target.defs carries_def split: option.splits)
  have "at_stage plan t State_InspectingImages Effect_ReadState 0 False False False None (lone d old spare Swap_None)
      (exchange new (exchange new (begin_update [\<lparr>t_image = 0, commit = Commit_Client,
        hash = img_hash fresh, version = v, builds = None\<rparr>] plan d)))"
    using first_exchanges [OF sw t_def, of plan new] d by metis
  note test = marked [OF h verified [OF h uploaded [OF h planned [OF h inspected [OF this]]]]]
  note trial = booted [OF h reconnected(2) [OF reconnected(1) [OF rebooted [OF sw test]]]]
  have "at_stage plan t State_Completed Effect_Finish 1 False False True (Some (table d new old Swap_None))
      (lone d new old Swap_None) (m, s, d')"
    using completed [OF h confirmed_now [OF h approved [OF trial]]] unfolding assms(15)
    by (simp add: numeral_eq_Suc)
  then show ?thesis by (simp add: at_stage_def slot_content_def swap_type_of_def)
qed

definition boot_demo_target :: target where
  "boot_demo_target = \<lparr>t_image = 0, commit = Commit_Client, hash = replicate 32 3,
     version = \<lparr>major = 3, minor = 0, revision = 0, build = 0\<rparr>, builds = None\<rparr>"

definition boot_demo_plan :: update_plan where
  "boot_demo_plan = \<lparr>plan_mode = Mode_TestThenConfirm, fallback_mode = None, allow_no_revert = False,
     check_downgrade = True, skip_if_already_present = True, disconnect_grace = 10,
     apply_timeout = 300, apply_poll_interval = 2\<rparr>"

theorem update_installs_witness:
  "case (exchange (boot_demo_file 3) ^^ 14) (begin_update [boot_demo_target] boot_demo_plan (boot_demo_device [])) of
     (m, s, d) \<Rightarrow> m_state m = State_Completed \<and> slot_content d 0 = Some (boot_demo_file 3) \<and>
       slot_content d 1 = Some (boot_demo_file 1)"
proof -
  let ?d = "boot_demo_device []"
  obtain m s d where run: "(m, s, d) = (exchange (boot_demo_file 3) ^^ 14)
      (begin_update [boot_demo_target] boot_demo_plan ?d)" by (metis prod_cases3)
  have "map_option img_hash (describe (boot_demo_file 1)) = Some (replicate 32 1)"
    "map_option img_hash (describe (boot_demo_file 2)) = Some (replicate 32 2)"
    "map_option img_hash (describe (boot_demo_file 3)) = Some (replicate 32 3)"
    by code_simp+
  then obtain r f where f: "describe (boot_demo_file 1) = Some r" "img_hash r = replicate 32 1"
    "describe (boot_demo_file 3) = Some f" "img_hash f = replicate 32 3"
    "map_option img_hash (describe (boot_demo_file 2)) \<noteq> Some (img_hash f)"
    by auto
  have dev: "?d = boot_run ([Op_Load 0 (boot_demo_file 1), Op_Load 1 (boot_demo_file 2)] @ []) (BootModel boot_demo_config)"
    by (rule boot_demo_device_def)
  have cfg: "behaviour boot_demo_config = SwapWithRevert" "\<not> config_no_downgrade boot_demo_config"
    by (simp_all add: boot_demo_config_def)
  have pair: "image_count ?d = 1" "device_committed ?d 0 = Some False" "swap_type_of ?d 0 = Some Swap_None"
    "slot_content ?d 0 = Some (boot_demo_file 1)" "slot_content ?d 1 = Some (boot_demo_file 2)"
    by (simp_all add: boot_demo_start(2) image_count_def device_committed_def swap_type_of_def slot_content_def)
  have plan: "plan_mode boot_demo_plan = Mode_TestThenConfirm" by (simp add: boot_demo_plan_def)
  have "img_hash f \<noteq> []" "img_hash r \<noteq> img_hash f" using f by simp_all
  note ended = update_installs [OF dev cfg pair(1-4) f(1) pair(5) f(5,3) this plan run [unfolded boot_demo_target_def f(4) [symmetric]]]
  show ?thesis using run ended by (metis (mono_tags, lifting) case_prod_conv)
qed

end
