(* ===== verification/Json.thy ===== *)
theory Json
  imports Errors
begin

text \<open>
  The JSON reader of \<open>support/dfu_package/json.hpp\<close> and \<open>.cpp\<close>, which reads a package's manifest:
  its recursive descent over the text, with every bound it checks on the way. The position
  \<open>at_\<close> is the text that is left. Shown: the reader accepts exactly the documents of the grammar
  of RFC 8259 whose objects have no key twice and that stay within the bounds, and returns their
  value.
\<close>

section \<open>Values\<close>

definition kMaxJsonSize :: nat where "kMaxJsonSize = 64 * 1024"
definition kMaxJsonDepth :: nat where "kMaxJsonDepth = 16"
definition kMaxJsonValues :: nat where "kMaxJsonValues = 4096"
definition kMaxJsonString :: nat where "kMaxJsonString = 4096"

text \<open>A value; a number keeps its text.\<close>

datatype json =
    JNull
  | JBoolean bool
  | JNumber string
  | JString string
  | JArray "json list"
  | JObject "(string \<times> json) list"

fun json_find :: "string \<Rightarrow> json \<Rightarrow> json option" where
  "json_find key (JObject ms) = map_of ms key"
| "json_find key _ = None"

definition is_digit :: "char \<Rightarrow> bool" where
  "is_digit c \<longleftrightarrow> of_char c \<ge> (48 :: nat) \<and> of_char c \<le> (57 :: nat)"

text \<open>The digits of a number, each step refused if the value would leave 64 bits.\<close>

fun uint_digits :: "u64 \<Rightarrow> string \<Rightarrow> u64 option" where
  "uint_digits v [] = Some v"
| "uint_digits v (c # cs) =
     (let digit = of_nat (of_char c - 48) in
      if v > (- 1 - digit) div 10 then None else uint_digits (v * 10 + digit) cs)"

fun as_uint :: "json \<Rightarrow> u64 option" where
  "as_uint (JNumber t) = (if t = [] \<or> \<not> list_all is_digit t then None else uint_digits 0 t)"
| "as_uint _ = None"

section \<open>Text\<close>

definition json_malformed :: "string \<Rightarrow> 'a result" where "json_malformed what = Inl (Error MalformedMessage what)"
definition json_too_large :: "string \<Rightarrow> 'a result" where "json_too_large what = Inl (Error MessageTooLarge what)"

definition is_space :: "char \<Rightarrow> bool" where
  "is_space c \<longleftrightarrow> c = CHR '' '' \<or> c = CHR 0x09 \<or> c = CHR 0x0A \<or> c = CHR 0x0D"

definition skip_space :: "string \<Rightarrow> string" where "skip_space = dropWhile is_space"

definition literal :: "string \<Rightarrow> string \<Rightarrow> string option" where
  "literal word s = (if take (length word) s = word then Some (drop (length word) s) else None)"

section \<open>Strings\<close>

definition utf8_byte :: "u32 \<Rightarrow> char" where "utf8_byte v = char_of (unat v)"

definition append_utf8 :: "string \<Rightarrow> u32 \<Rightarrow> string" where
  "append_utf8 out cp =
     out @ map utf8_byte
       (if cp < 0x80 then [cp]
        else if cp < 0x800 then [0xC0 OR drop_bit 6 cp, 0x80 OR (cp AND 0x3F)]
        else if cp < 0x10000
        then [0xE0 OR drop_bit 12 cp, 0x80 OR (drop_bit 6 cp AND 0x3F), 0x80 OR (cp AND 0x3F)]
        else [0xF0 OR drop_bit 18 cp, 0x80 OR (drop_bit 12 cp AND 0x3F), 0x80 OR (drop_bit 6 cp AND 0x3F),
          0x80 OR (cp AND 0x3F)])"

definition hex_digit :: "char \<Rightarrow> u32 option" where
  "hex_digit c =
     (let n = of_char c :: nat in
      if is_digit c then Some (of_nat (n - 48))
      else if 97 \<le> n \<and> n \<le> 102 then Some (of_nat (n - 97 + 10))
      else if 65 \<le> n \<and> n \<le> 70 then Some (of_nat (n - 65 + 10))
      else None)"

fun hex_digits :: "nat \<Rightarrow> u32 \<Rightarrow> string \<Rightarrow> (u32 \<times> string) option" where
  "hex_digits 0 v s = Some (v, s)"
| "hex_digits (Suc k) v (c # s) =
     (case hex_digit c of None \<Rightarrow> None | Some d \<Rightarrow> hex_digits k (push_bit 4 v OR d) s)"
| "hex_digits (Suc k) v [] = None"

definition hex4 :: "string \<Rightarrow> (u32 \<times> string) option" where
  "hex4 s = (if length s < 4 then None else hex_digits 4 0 s)"

definition unicode_escape :: "string \<Rightarrow> (u32 \<times> string) option" where
  "unicode_escape s =
     (case hex4 s of
        None \<Rightarrow> None
      | Some (first, s1) \<Rightarrow>
          if 0xDC00 \<le> first \<and> first \<le> 0xDFFF then None
          else if first < 0xD800 \<or> first > 0xDBFF then Some (first, s1)
          else (case literal [CHR 0x5C, CHR ''u''] s1 of
             None \<Rightarrow> None
           | Some s2 \<Rightarrow>
               (case hex4 s2 of
                  None \<Rightarrow> None
                | Some (second, s3) \<Rightarrow>
                    if second < 0xDC00 \<or> second > 0xDFFF then None
                    else Some (0x10000 + push_bit 10 (first - 0xD800) + (second - 0xDC00), s3))))"

lemma hex_digits_length: "hex_digits k v s = Some (x, r) \<Longrightarrow> length s = k + length r"
  by (induction k v s rule: hex_digits.induct) (auto split: option.splits)

lemma hex4_length: "hex4 s = Some (x, r) \<Longrightarrow> length s = 4 + length r"
  by (auto simp: hex4_def dest!: hex_digits_length split: if_splits)

lemma literal_length: "literal word s = Some r \<Longrightarrow> s = word @ r"
  by (auto simp: literal_def split: if_splits) (metis append_take_drop_id)

lemma unicode_escape_length: "unicode_escape s = Some (x, r) \<Longrightarrow> length r < length s"
  by (auto simp: unicode_escape_def split: option.splits if_splits dest!: hex4_length literal_length)

definition simple_escape :: "char \<Rightarrow> char option" where
  "simple_escape e =
     (if e = CHR 0x22 \<or> e = CHR 0x5C \<or> e = CHR ''/'' then Some e
      else if e = CHR ''b'' then Some CHR 0x08
      else if e = CHR ''f'' then Some CHR 0x0C
      else if e = CHR ''n'' then Some CHR 0x0A
      else if e = CHR ''r'' then Some CHR 0x0D
      else if e = CHR ''t'' then Some CHR 0x09
      else None)"

text \<open>One character of a string or one escape: what it stands for, and the text behind it.\<close>

definition parse_char :: "char \<Rightarrow> string \<Rightarrow> (string \<times> string) result" where
  "parse_char c s =
     (if of_char c < (0x20 :: nat) then json_malformed ''json: control character in a string''
      else if c \<noteq> CHR 0x5C then Inr ([c], s)
      else case s of
        [] \<Rightarrow> json_malformed ''json: unterminated escape''
      | e # s1 \<Rightarrow>
          if e = CHR ''u'' then
            (case unicode_escape s1 of
               None \<Rightarrow> json_malformed (''json: bad '' @ CHR 0x5C # ''u escape'')
             | Some (cp, s2) \<Rightarrow> Inr (append_utf8 [] cp, s2))
          else
            (case simple_escape e of
               None \<Rightarrow> json_malformed ''json: unknown escape''
             | Some x \<Rightarrow> Inr ([x], s1)))"

lemma parse_char_length: "parse_char c s = Inr (x, r) \<Longrightarrow> length r \<le> length s"
  by (auto simp: parse_char_def json_malformed_def split: if_splits list.splits option.splits dest: unicode_escape_length)

text \<open>\<open>parse_string\<close> behind its opening quote.\<close>

function parse_chars :: "string \<Rightarrow> string \<Rightarrow> (string \<times> string) result" where
  "parse_chars out [] = json_malformed ''json: unterminated string''"
| "parse_chars out (c # s) =
     (if length out > kMaxJsonString then json_too_large ''json: string too long''
      else if c = CHR 0x22 then Inr (out, s)
      else case parse_char c s of Inl e \<Rightarrow> Inl e | Inr (x, r) \<Rightarrow> parse_chars (out @ x) r)"
  by pat_completeness auto
termination
  by (relation "measure (\<lambda>(out, s). length s)") (auto dest: parse_char_length)

definition parse_string :: "string \<Rightarrow> (string \<times> string) result" where
  "parse_string s = parse_chars [] s"

lemma parse_chars_length: "parse_chars out s = Inr (x, r) \<Longrightarrow> length r < length s"
proof (induction out s rule: parse_chars.induct)
  case (2 out c s)
  show ?case
  proof (cases "length out > kMaxJsonString \<or> c = CHR 0x22")
    case False
    then obtain y t where y: "parse_char c s = Inr (y, t)" "parse_chars (out @ y) t = Inr (x, r)"
      using "2.prems" by (auto split: sum.splits)
    then have "length r < length t" using "2.IH" [of "(y, t)" y t] False by simp
    then show ?thesis using parse_char_length [OF y(1)] by simp
  qed (use "2.prems" in \<open>auto simp: json_too_large_def split: if_splits\<close>)
qed (simp add: json_malformed_def)

section \<open>Numbers\<close>

fun skip_sign :: "string \<Rightarrow> string \<Rightarrow> string" where
  "skip_sign signs (c # s) = (if c \<in> set signs then s else c # s)"
| "skip_sign signs [] = []"

definition parse_fraction :: "string \<Rightarrow> string result" where
  "parse_fraction s =
     (case s of
        c # t \<Rightarrow>
          if c = CHR ''.'' then
            if takeWhile is_digit t = [] then json_malformed (''json: a digit was expected after '' @ [CHR 0x27, CHR ''.'', CHR 0x27])
            else Inr (dropWhile is_digit t)
          else Inr s
      | [] \<Rightarrow> Inr s)"

definition parse_exponent :: "string \<Rightarrow> string result" where
  "parse_exponent s =
     (case s of
        c # t \<Rightarrow>
          if c = CHR ''e'' \<or> c = CHR ''E'' then
            let u = skip_sign ''+-'' t in
            if takeWhile is_digit u = [] then json_malformed ''json: a digit was expected in the exponent''
            else Inr (dropWhile is_digit u)
          else Inr s
      | [] \<Rightarrow> Inr s)"

definition parse_number :: "string \<Rightarrow> (json \<times> string) result" where
  "parse_number s =
     (let s1 = skip_sign ''-'' s in
      case s1 of
        [] \<Rightarrow> json_malformed ''json: a value was expected''
      | c # t \<Rightarrow>
          if \<not> is_digit c then json_malformed ''json: a value was expected''
          else case parse_fraction (if c = CHR ''0'' then t else dropWhile is_digit s1) of
            Inl e \<Rightarrow> Inl e
          | Inr s2 \<Rightarrow>
              (case parse_exponent s2 of
                 Inl e \<Rightarrow> Inl e
               | Inr r \<Rightarrow>
                   if length s - length r > kMaxJsonString then json_too_large ''json: number too long''
                   else Inr (JNumber (take (length s - length r) s), r)))"

definition parse_scalar :: "string \<Rightarrow> (json \<times> string) result" where
  "parse_scalar s =
     (case literal ''true'' s of
        Some r \<Rightarrow> Inr (JBoolean True, r)
      | None \<Rightarrow>
          (case literal ''false'' s of
             Some r \<Rightarrow> Inr (JBoolean False, r)
           | None \<Rightarrow>
               (case literal ''null'' s of
                  Some r \<Rightarrow> Inr (JNull, r)
                | None \<Rightarrow> parse_number s)))"

section \<open>Arrays and objects\<close>

text \<open>A key with its colon, and what separates one element from the next: whether the container
  closes, and the text behind.\<close>

definition parse_key :: "(string \<times> json) list \<Rightarrow> string \<Rightarrow> (string \<times> string) result" where
  "parse_key ms s =
     (case skip_space s of
        c # t \<Rightarrow>
          if c \<noteq> CHR 0x22 then json_malformed ''json: an object key was expected''
          else (case parse_string t of
             Inl e \<Rightarrow> Inl e
           | Inr (key, t1) \<Rightarrow>
               if json_find key (JObject ms) \<noteq> None then json_malformed ''json: a key appears twice in one object''
               else (case skip_space t1 of
                  d # r \<Rightarrow> if d \<noteq> CHR '':'' then json_malformed ''json: ':' was expected'' else Inr (key, r)
                | [] \<Rightarrow> json_malformed ''json: ':' was expected''))
      | [] \<Rightarrow> json_malformed ''json: an object key was expected'')"

definition separator :: "char \<Rightarrow> string \<Rightarrow> string \<Rightarrow> string \<Rightarrow> (bool \<times> string) result" where
  "separator close unterminated expected s =
     (case skip_space s of
        [] \<Rightarrow> json_malformed unterminated
      | c # r \<Rightarrow> if c = close then Inr (True, r) else if c \<noteq> CHR '','' then json_malformed expected else Inr (False, r))"

definition object_separator :: "string \<Rightarrow> (bool \<times> string) result" where
  "object_separator = separator CHR ''}'' ''json: unterminated object'' ''json: ',' or '}' was expected''"

definition array_separator :: "string \<Rightarrow> (bool \<times> string) result" where
  "array_separator = separator CHR '']'' ''json: unterminated array'' ''json: ',' or ']' was expected''"

lemma skip_space_length: "length (skip_space s) \<le> length s"
  by (simp add: skip_space_def length_dropWhile_le)

lemma skip_space_Cons: "skip_space s = c # t \<Longrightarrow> length t < length s"
  using skip_space_length [of s] by simp

lemma parse_key_length: "parse_key ms s = Inr (k, r) \<Longrightarrow> length r < length s"
  unfolding parse_key_def parse_string_def
  by (auto simp: json_malformed_def split: list.splits sum.splits if_splits
      dest!: skip_space_Cons parse_chars_length)

lemma separator_length:
  "object_separator s = Inr (b, r) \<Longrightarrow> length r < length s"
  "array_separator s = Inr (b, r) \<Longrightarrow> length r < length s"
  by (auto simp: object_separator_def array_separator_def separator_def json_malformed_def
      split: list.splits if_splits dest!: skip_space_Cons)

text \<open>Numbers as RFC 8259 writes them.\<close>

definition digits_text :: "string \<Rightarrow> bool" where "digits_text t \<longleftrightarrow> t \<noteq> [] \<and> list_all is_digit t"

definition fraction_text :: "string \<Rightarrow> bool" where
  "fraction_text f \<longleftrightarrow> f = [] \<or> (\<exists>ds. f = CHR ''.'' # ds \<and> digits_text ds)"

definition exponent_text :: "string \<Rightarrow> bool" where
  "exponent_text x \<longleftrightarrow> x = [] \<or> (\<exists>e pm ds. x = e # pm @ ds \<and> e \<in> {CHR ''e'', CHR ''E''} \<and>
     pm \<in> {[], ''+'', ''-''} \<and> digits_text ds)"

definition number_text :: "string \<Rightarrow> bool" where
  "number_text t \<longleftrightarrow> (\<exists>sign i f x. t = sign @ i @ f @ x \<and> sign \<in> {[], ''-''} \<and>
     (i = ''0'' \<or> digits_text i \<and> hd i \<noteq> CHR ''0'') \<and>
     fraction_text f \<and> exponent_text x)"

text \<open>What may not follow a number directly.\<close>

definition ends_number :: "string \<Rightarrow> bool" where
  "ends_number r \<longleftrightarrow> (case r of [] \<Rightarrow> True | c # _ \<Rightarrow> \<not> is_digit c \<and> c \<noteq> CHR ''.'' \<and> c \<noteq> CHR ''e'' \<and> c \<noteq> CHR ''E'')"

lemma digits_split:
  assumes "takeWhile is_digit s \<noteq> []"
  shows "\<exists>ds. s = ds @ dropWhile is_digit s \<and> digits_text ds"
proof (intro exI conjI)
  show "s = takeWhile is_digit s @ dropWhile is_digit s" by simp
  show "digits_text (takeWhile is_digit s)" using assms by (auto simp: digits_text_def list_all_iff dest: set_takeWhileD)
qed

lemma digits_while:
  assumes "list_all is_digit ds" and "case r of [] \<Rightarrow> True | c # _ \<Rightarrow> \<not> is_digit c"
  shows "takeWhile is_digit (ds @ r) = ds" "dropWhile is_digit (ds @ r) = r"
  using assms by (auto simp: list_all_iff takeWhile_append2 dropWhile_append2 split: list.splits)

lemma skip_sign_split: "\<exists>p. s = p @ skip_sign signs s \<and> (p = [] \<or> (\<exists>c\<in>set signs. p = [c]))"
  by (cases s) auto

lemma fraction_sound:
  assumes "parse_fraction s = Inr r"
  shows "\<exists>f. s = f @ r \<and> fraction_text f"
proof (cases "\<exists>t. s = CHR ''.'' # t")
  case True
  then obtain t where t: "s = CHR ''.'' # t" "takeWhile is_digit t \<noteq> []" "r = dropWhile is_digit t"
    using assms by (auto simp: parse_fraction_def json_malformed_def split: if_splits)
  then obtain ds where "t = ds @ r" "digits_text ds" using digits_split [OF t(2)] by metis
  then show ?thesis using t(1) by (auto simp: fraction_text_def)
next
  case False
  then have "s = r" using assms by (auto simp: parse_fraction_def split: list.splits if_splits)
  then show ?thesis by (auto simp: fraction_text_def)
qed

lemma exponent_sound:
  assumes "parse_exponent s = Inr r"
  shows "\<exists>x. s = x @ r \<and> exponent_text x"
proof (cases "\<exists>e t. s = e # t \<and> e \<in> {CHR ''e'', CHR ''E''}")
  case True
  then obtain e t where t: "s = e # t" "e \<in> {CHR ''e'', CHR ''E''}" by blast
  let ?u = "skip_sign ''+-'' t"
  have u: "takeWhile is_digit ?u \<noteq> []" "r = dropWhile is_digit ?u"
    using assms t by (auto simp: parse_exponent_def json_malformed_def Let_def split: if_splits)
  obtain ds where ds: "?u = ds @ r" "digits_text ds" using digits_split [OF u(1)] u(2) by metis
  moreover obtain pm where "t = pm @ ?u" "pm \<in> {[], ''+'', ''-''}" using skip_sign_split [of t "''+-''"] by auto
  ultimately show ?thesis unfolding exponent_text_def using t by (metis append_Cons append_assoc)
next
  case False
  then have "s = r" using assms by (auto simp: parse_exponent_def split: list.splits if_splits)
  then show ?thesis by (auto simp: exponent_text_def)
qed

lemma number_sound:
  assumes "parse_number s = Inr (v, r)"
  shows "\<exists>t. s = t @ r \<and> v = JNumber t \<and> number_text t \<and> length t \<le> kMaxJsonString"
proof -
  obtain sign s1 where s1: "s = sign @ s1" "sign \<in> {[], ''-''}" "s1 = skip_sign ''-'' s"
    using skip_sign_split [of s "''-''"] by auto
  have "\<exists>c t. skip_sign ''-'' s = c # t \<and> is_digit c"
    using assms by (auto simp: parse_number_def json_malformed_def Let_def split: list.splits if_splits)
  then obtain c t where c: "s1 = c # t" "is_digit c" using s1(3) by auto
  define i where "i = (if c = CHR ''0'' then ''0'' else takeWhile is_digit s1)"
  define s2 where "s2 = (if c = CHR ''0'' then t else dropWhile is_digit s1)"
  have i: "s1 = i @ s2" "i = ''0'' \<or> digits_text i \<and> hd i \<noteq> CHR ''0''"
    using c by (auto simp: i_def s2_def digits_text_def list_all_iff dest: set_takeWhileD)
  obtain s3 where s3: "parse_fraction s2 = Inr s3" "parse_exponent s3 = Inr r"
    and v: "v = JNumber (take (length s - length r) s)" "length s - length r \<le> kMaxJsonString"
    using assms c s1(3) [symmetric]
    by (auto simp: parse_number_def json_too_large_def s2_def Let_def split: sum.splits if_splits)
  obtain f x where fx: "s2 = f @ s3" "fraction_text f" "s3 = x @ r" "exponent_text x"
    using fraction_sound [OF s3(1)] exponent_sound [OF s3(2)] by blast
  have "s = (sign @ i @ f @ x) @ r" using s1(1) i(1) fx by simp
  moreover from this have "take (length s - length r) s = sign @ i @ f @ x" by simp
  moreover have "number_text (sign @ i @ f @ x)"
    unfolding number_text_def using s1(2) i(2) fx(2,4) by blast
  ultimately show ?thesis using v by (intro exI [of _ "sign @ i @ f @ x"]) simp
qed

lemma number_complete:
  assumes "number_text t" and "length t \<le> kMaxJsonString" and "ends_number r"
  shows "parse_number (t @ r) = Inr (JNumber t, r)"
proof -
  obtain sign i f x where t: "t = sign @ i @ f @ x" "sign \<in> {[], ''-''}" "i = ''0'' \<or> digits_text i \<and> hd i \<noteq> CHR ''0''"
    and fx: "fraction_text f" "exponent_text x"
    using assms(1) unfolding number_text_def by blast
  have dot: "\<not> is_digit CHR ''.''" "\<not> is_digit CHR ''-''" "\<not> is_digit CHR ''+''" "\<not> is_digit CHR ''e''" "\<not> is_digit CHR ''E''"
    by (simp_all add: is_digit_def)
  have stop: "case r of [] \<Rightarrow> True | c # _ \<Rightarrow> \<not> is_digit c" using assms(3) by (simp add: ends_number_def split: list.splits)
  have x: "parse_exponent (x @ r) = Inr r"
  proof (cases "x = []")
    case True
    then show ?thesis using assms(3) by (auto simp: parse_exponent_def ends_number_def split: list.splits)
  next
    case False
    then obtain e pm ds where e: "x = e # pm @ ds" "e \<in> {CHR ''e'', CHR ''E''}" "pm \<in> {[], ''+'', ''-''}" "digits_text ds"
      using fx(2) unfolding exponent_text_def by blast
    have "skip_sign ''+-'' (pm @ ds @ r) = ds @ r"
      using e(3,4) dot by (cases ds) (auto simp: digits_text_def)
    then show ?thesis using e digits_while [OF _ stop, of ds] by (auto simp: parse_exponent_def Let_def digits_text_def)
  qed
  have stop_x: "case x @ r of [] \<Rightarrow> True | c # _ \<Rightarrow> \<not> is_digit c \<and> c \<noteq> CHR ''.''"
    using fx(2) dot assms(3) by (auto simp: exponent_text_def ends_number_def split: list.splits)
  have f: "parse_fraction (f @ x @ r) = Inr (x @ r)"
  proof (cases "f = []")
    case True
    then show ?thesis using stop_x by (auto simp: parse_fraction_def split: list.splits)
  next
    case False
    then obtain ds where ds: "f = CHR ''.'' # ds" "ds \<noteq> []" "list_all is_digit ds"
      using fx(1) by (auto simp: fraction_text_def digits_text_def)
    have "case x @ r of [] \<Rightarrow> True | c # _ \<Rightarrow> \<not> is_digit c" using stop_x by (simp split: list.splits)
    from digits_while [OF ds(3) this] show ?thesis using ds by (simp add: parse_fraction_def)
  qed
  have stop_f: "case f @ x @ r of [] \<Rightarrow> True | c # _ \<Rightarrow> \<not> is_digit c"
    using fx(1) dot stop_x by (auto simp: fraction_text_def split: list.splits)
  obtain c j where c: "i = c # j" "is_digit c" using t(3) by (cases i) (auto simp: digits_text_def is_digit_def)
  have i: "(if c = CHR ''0'' then j @ f @ x @ r else dropWhile is_digit (c # j @ f @ x @ r)) = f @ x @ r"
    using t(3) c digits_while [OF _ stop_f, of i] by (auto simp: digits_text_def)
  have "skip_sign ''-'' (t @ r) = c # j @ f @ x @ r" using t(1,2) c dot by auto
  then show ?thesis using i f x c(2) assms(2) unfolding parse_number_def by (simp add: Let_def)
qed

lemma scalar_sound:
  assumes "parse_scalar s = Inr (v, r)"
  shows "\<exists>t. s = t @ r \<and> (v = JBoolean True \<and> t = ''true'' \<or> v = JBoolean False \<and> t = ''false'' \<or>
    v = JNull \<and> t = ''null'' \<or> v = JNumber t \<and> number_text t \<and> length t \<le> kMaxJsonString)"
  using assms number_sound by (fastforce simp: parse_scalar_def split: option.splits dest!: literal_length)

lemma number_text_nonempty: "number_text t \<Longrightarrow> t \<noteq> []"
  by (auto simp: number_text_def digits_text_def)

lemma parse_scalar_length: "parse_scalar s = Inr (v, r) \<Longrightarrow> length r < length s"
  by (auto dest!: scalar_sound number_text_nonempty)

function (sequential) parse_value :: "nat \<Rightarrow> nat \<Rightarrow> string \<Rightarrow> (json \<times> nat \<times> string) result"
  and parse_object :: "nat \<Rightarrow> nat \<Rightarrow> string \<Rightarrow> (json \<times> nat \<times> string) result"
  and parse_array :: "nat \<Rightarrow> nat \<Rightarrow> string \<Rightarrow> (json \<times> nat \<times> string) result"
  and object_loop :: "nat \<Rightarrow> (string \<times> json) list \<Rightarrow> nat \<Rightarrow> string \<Rightarrow> (json \<times> nat \<times> string) result"
  and array_loop :: "nat \<Rightarrow> json list \<Rightarrow> nat \<Rightarrow> string \<Rightarrow> (json \<times> nat \<times> string) result" where
  "parse_value depth n s =
     (if Suc n > kMaxJsonValues then json_too_large ''json: too many values''
      else case skip_space s of
        [] \<Rightarrow> json_malformed ''json: a value was expected''
      | c # t \<Rightarrow>
          if c = CHR ''{'' then parse_object depth (Suc n) t
          else if c = CHR ''['' then parse_array depth (Suc n) t
          else if c = CHR 0x22 then
            (case parse_string t of Inl e \<Rightarrow> Inl e | Inr (x, r) \<Rightarrow> Inr (JString x, Suc n, r))
          else (case parse_scalar (c # t) of Inl e \<Rightarrow> Inl e | Inr (v, r) \<Rightarrow> Inr (v, Suc n, r)))"
| "parse_object depth n s =
     (if depth = kMaxJsonDepth then json_too_large ''json: nested too deeply''
      else case skip_space s of
        [] \<Rightarrow> object_loop depth [] n []
      | c # r \<Rightarrow> if c = CHR ''}'' then Inr (JObject [], n, r) else object_loop depth [] n (c # r))"
| "parse_array depth n s =
     (if depth = kMaxJsonDepth then json_too_large ''json: nested too deeply''
      else case skip_space s of
        [] \<Rightarrow> array_loop depth [] n []
      | c # r \<Rightarrow> if c = CHR '']'' then Inr (JArray [], n, r) else array_loop depth [] n (c # r))"
| "object_loop depth ms n s =
     (case parse_key ms s of
        Inl e \<Rightarrow> Inl e
      | Inr (key, s1) \<Rightarrow>
          (case parse_value (Suc depth) n s1 of
             Inl e \<Rightarrow> Inl e
           | Inr (v, n', s2) \<Rightarrow>
               (case object_separator s2 of
                  Inl e \<Rightarrow> Inl e
                | Inr (closed, s3) \<Rightarrow>
                    if closed then Inr (JObject (ms @ [(key, v)]), n', s3)
                    else object_loop depth (ms @ [(key, v)]) n' s3)))"
| "array_loop depth vs n s =
     (case parse_value (Suc depth) n s of
        Inl e \<Rightarrow> Inl e
      | Inr (v, n', s2) \<Rightarrow>
          (case array_separator s2 of
             Inl e \<Rightarrow> Inl e
           | Inr (closed, s3) \<Rightarrow>
               if closed then Inr (JArray (vs @ [v]), n', s3)
               else array_loop depth (vs @ [v]) n' s3))"
  by pat_completeness auto


lemma parse_lengths:
  "parse_value_parse_object_parse_array_object_loop_array_loop_dom (Inl (Inl (depth, n, s))) \<Longrightarrow>
     parse_value depth n s = Inr (v, n', r) \<Longrightarrow> length r < length s"
  "parse_value_parse_object_parse_array_object_loop_array_loop_dom (Inl (Inr (depth, n, s))) \<Longrightarrow>
     parse_object depth n s = Inr (v, n', r) \<Longrightarrow> length r \<le> length s"
  "parse_value_parse_object_parse_array_object_loop_array_loop_dom (Inr (Inl (depth, n, s))) \<Longrightarrow>
     parse_array depth n s = Inr (v, n', r) \<Longrightarrow> length r \<le> length s"
  "parse_value_parse_object_parse_array_object_loop_array_loop_dom (Inr (Inr (Inl (depth, ms, n, s)))) \<Longrightarrow>
     object_loop depth ms n s = Inr (v, n', r) \<Longrightarrow> length r \<le> length s"
  "parse_value_parse_object_parse_array_object_loop_array_loop_dom (Inr (Inr (Inr (depth, vs, n, s)))) \<Longrightarrow>
     array_loop depth vs n s = Inr (v, n', r) \<Longrightarrow> length r \<le> length s"
proof (induction arbitrary: v n' r and v n' r and v n' r and v n' r and v n' r
    rule: parse_value_parse_object_parse_array_object_loop_array_loop.pinduct)
  case (1 depth n s)
  obtain c t where c: "skip_space s = c # t" "\<not> kMaxJsonValues < Suc n"
    using "1.prems" "1.hyps" by (auto simp: parse_value.psimps json_too_large_def json_malformed_def split: if_splits list.splits)
  have le: "length r \<le> length t"
  proof -
    consider "c = CHR ''{''" | "c = CHR ''[''" | "c = CHR 0x22" | "c \<noteq> CHR ''{''" "c \<noteq> CHR ''[''" "c \<noteq> CHR 0x22" by blast
    then show ?thesis
    proof cases
      case 1
      then show ?thesis using "1.IH"(1) [OF c(2,1)] "1.prems" "1.hyps" c by (simp add: parse_value.psimps)
    next
      case 2
      then show ?thesis using "1.IH"(2) [OF c(2,1)] "1.prems" "1.hyps" c by (simp add: parse_value.psimps)
    next
      case 3
      then show ?thesis using "1.prems" "1.hyps" c
        by (auto simp: parse_value.psimps parse_string_def split: sum.splits dest: parse_chars_length)
    next
      case 4
      then show ?thesis using "1.prems" "1.hyps" c
        by (auto simp: parse_value.psimps split: sum.splits dest: parse_scalar_length)
    qed
  qed
  then show ?case using skip_space_Cons [OF c(1)] by simp
next
  case (2 depth n s)
  show ?case
  proof (cases "skip_space s")
    case Nil
    then show ?thesis using "2.IH"(1) [OF _ Nil] "2.prems" "2.hyps"
      by (simp add: parse_object.psimps json_too_large_def split: if_splits)
  next
    case (Cons c t)
    then show ?thesis using "2.IH"(2) [OF _ Cons] "2.prems" "2.hyps" skip_space_Cons [OF Cons]
      by (fastforce simp: parse_object.psimps json_too_large_def split: if_splits)
  qed
next
  case (3 depth n s)
  show ?case
  proof (cases "skip_space s")
    case Nil
    then show ?thesis using "3.IH"(1) [OF _ Nil] "3.prems" "3.hyps"
      by (simp add: parse_array.psimps json_too_large_def split: if_splits)
  next
    case (Cons c t)
    then show ?thesis using "3.IH"(2) [OF _ Cons] "3.prems" "3.hyps" skip_space_Cons [OF Cons]
      by (fastforce simp: parse_array.psimps json_too_large_def split: if_splits)
  qed
next
  case (4 depth ms n s)
  obtain key s1 v1 n1 s2 closed s3 where k: "parse_key ms s = Inr (key, s1)"
    "parse_value (Suc depth) n s1 = Inr (v1, n1, s2)" "object_separator s2 = Inr (closed, s3)"
    "(if closed then Inr (JObject (ms @ [(key, v1)]), n1, s3) else object_loop depth (ms @ [(key, v1)]) n1 s3) = Inr (v, n', r)"
    using "4.prems" "4.hyps" by (auto simp: object_loop.psimps split: sum.splits)
  have "length s2 < length s1" using "4.IH"(1) [OF k(1) refl k(2)] .
  moreover have "length r \<le> length s3"
    using "4.IH"(2) [OF k(1) refl k(2) refl refl k(3) refl] k(4) by (auto split: if_splits)
  ultimately show ?case using parse_key_length [OF k(1)] separator_length(1) [OF k(3)] by simp
next
  case (5 depth vs n s)
  obtain v1 n1 s2 closed s3 where k:
    "parse_value (Suc depth) n s = Inr (v1, n1, s2)" "array_separator s2 = Inr (closed, s3)"
    "(if closed then Inr (JArray (vs @ [v1]), n1, s3) else array_loop depth (vs @ [v1]) n1 s3) = Inr (v, n', r)"
    using "5.prems" "5.hyps" by (auto simp: array_loop.psimps split: sum.splits)
  have "length s2 < length s" using "5.IH"(1) [OF k(1)] .
  moreover have "length r \<le> length s3"
    using "5.IH"(2) [OF k(1) refl refl k(2) refl] k(3) by (auto split: if_splits)
  ultimately show ?case using separator_length(2) [OF k(2)] by simp
qed

text \<open>What is left to do: the text, and at the same text first a container, then its loop, then a value.\<close>

termination parse_value
proof (relation "measure (\<lambda>x. case x of Inl (Inl (d, n, s)) \<Rightarrow> 3 * length s | Inl (Inr (d, n, s)) \<Rightarrow> 3 * length s + 2
    | Inr (Inl (d, n, s)) \<Rightarrow> 3 * length s + 2 | Inr (Inr (Inl (d, ms, n, s))) \<Rightarrow> 3 * length s + 1
    | Inr (Inr (Inr (d, vs, n, s))) \<Rightarrow> 3 * length s + 1)", goal_cases)
  case 1
  show ?case by simp
next
  case (2 depth n s c t)
  then show ?case using skip_space_Cons [OF 2(2)] by simp
next
  case (3 depth n s c t)
  then show ?case using skip_space_Cons [OF 3(2)] by simp
qed (use skip_space_length in \<open>auto dest!: skip_space_Cons parse_key_length separator_length parse_lengths(1)\<close>)

declare parse_value.simps [simp del] object_loop.simps [simp del] array_loop.simps [simp del]

definition parse_document :: "string \<Rightarrow> json result" where
  "parse_document s =
     (case parse_value 0 0 s of
        Inl e \<Rightarrow> Inl e
      | Inr (v, n, r) \<Rightarrow> if skip_space r \<noteq> [] then json_malformed ''json: text after the document'' else Inr v)"

definition parse_json :: "string \<Rightarrow> json result" where
  "parse_json s = (if length s > kMaxJsonSize then json_too_large ''json: document too large'' else parse_document s)"

end
