(* ===== verification/JsonGrammar.thy ===== *)
theory JsonGrammar
  imports Json
begin

text \<open>
  The grammar of RFC 8259 as a relation between values and texts, on natural numbers where the
  reader computes with words, and the proof that the reader accepts exactly the texts of the
  grammar within its bounds.
\<close>

section \<open>Strings\<close>

definition hex_nat :: "string \<Rightarrow> nat" where
  "hex_nat u = foldl (\<lambda>n c. 16 * n + unat (the (hex_digit c))) 0 u"

definition hex_text :: "string \<Rightarrow> nat \<Rightarrow> bool" where
  "hex_text u n \<longleftrightarrow> length u = 4 \<and> list_all (\<lambda>c. hex_digit c \<noteq> None) u \<and> hex_nat u = n"

text \<open>A code point escaped: outside the surrogates as itself, above 16 bits as a pair.\<close>

inductive code_text :: "string \<Rightarrow> nat \<Rightarrow> bool" where
  single: "hex_text u n \<Longrightarrow> n < 0xD800 \<or> 0xDFFF < n \<Longrightarrow> code_text u n"
| pair: "hex_text u hi \<Longrightarrow> hex_text w lo \<Longrightarrow> 0xD800 \<le> hi \<Longrightarrow> hi \<le> 0xDBFF \<Longrightarrow> 0xDC00 \<le> lo \<Longrightarrow> lo \<le> 0xDFFF \<Longrightarrow>
    code_text (u @ CHR 0x5C # CHR ''u'' # w) (0x10000 + (hi - 0xD800) * 0x400 + (lo - 0xDC00))"

text \<open>UTF-8, RFC 3629.\<close>

definition utf8 :: "nat \<Rightarrow> string" where
  "utf8 n = map char_of
     (if n < 0x80 then [n]
      else if n < 0x800 then [192 + n div 64, 128 + n mod 64]
      else if n < 0x10000 then [224 + n div 4096, 128 + n div 64 mod 64, 128 + n mod 64]
      else [240 + n div 262144, 128 + n div 4096 mod 64, 128 + n div 64 mod 64, 128 + n mod 64])"

inductive string_text :: "string \<Rightarrow> string \<Rightarrow> bool" where
  empty: "string_text [] []"
| plain: "of_char c \<ge> (0x20 :: nat) \<Longrightarrow> c \<noteq> CHR 0x22 \<Longrightarrow> c \<noteq> CHR 0x5C \<Longrightarrow> string_text t x \<Longrightarrow> string_text (c # t) (c # x)"
| escape: "simple_escape e = Some c \<Longrightarrow> string_text t x \<Longrightarrow> string_text (CHR 0x5C # e # t) (c # x)"
| unicode: "code_text u n \<Longrightarrow> string_text t x \<Longrightarrow> string_text (CHR 0x5C # CHR ''u'' # u @ t) (utf8 n @ x)"

lemma or_low:
  fixes x y :: u32
  assumes "take_bit k x = x" and "take_bit k y = 0"
  shows "y OR x = y + x"
proof -
  have "y AND x = 0"
  proof (rule bit_word_eqI)
    fix n
    have "bit x n \<Longrightarrow> n < k" using assms(1) by (metis bit_take_bit_iff)
    moreover have "n < k \<Longrightarrow> \<not> bit y n" using assms(2) by (metis bit_take_bit_iff bit_0_eq bot_apply bot_bool_def)
    ultimately show "bit (y AND x) n = bit 0 n" by (auto simp: bit_and_iff)
  qed
  then show ?thesis using word_plus_and_or [of y x] by simp
qed

lemma unat_or_low:
  fixes x y :: u32
  assumes "unat x < 2 ^ k" and "take_bit k y = 0" and "unat y + 2 ^ k \<le> 2 ^ 32"
  shows "unat (y OR x) = unat y + unat x"
proof -
  have "take_bit k x = x" using assms(1) by (simp add: word_unat_eq_iff unsigned_take_bit_eq take_bit_nat_eq_self)
  then show ?thesis using or_low [OF _ assms(2)] assms(1,3) by (simp add: unat_word_ariths)
qed

lemma unat_six: "unat (cp AND 0x3F :: u32) = unat cp mod 64"
proof -
  have "cp AND 0x3F = take_bit 6 cp" by (simp add: take_bit_eq_mask mask_eq_exp_minus_1)
  then show ?thesis by (simp only: unsigned_take_bit_eq) (simp add: take_bit_eq_mod)
qed

lemma append_utf8_spec:
  assumes "unat cp < 0x110000"
  shows "append_utf8 out cp = out @ utf8 (unat cp)"
proof -
  have d: "unat (drop_bit k cp) = unat cp div 2 ^ k" for k
    by (simp only: unsigned_drop_bit_eq) (simp add: drop_bit_eq_div take_bit_nat_eq_self)
  have low: "unat (0x80 OR x) = 128 + unat x" if "unat x < 64" for x :: u32
    using unat_or_low [of x 7 "0x80"] that by simp
  have c: "unat (0xC0 OR drop_bit 6 cp) = 192 + unat cp div 64" if "unat cp < 0x800"
    using unat_or_low [of "drop_bit 6 cp" 6 "0xC0"] that by (simp add: d)
  have e: "unat (0xE0 OR drop_bit 12 cp) = 224 + unat cp div 4096" if "unat cp < 0x10000"
    using unat_or_low [of "drop_bit 12 cp" 5 "0xE0"] that by (simp add: d)
  have f: "unat (0xF0 OR drop_bit 18 cp) = 240 + unat cp div 262144"
    using unat_or_low [of "drop_bit 18 cp" 4 "0xF0"] assms by (simp add: d)
  show ?thesis
    using c e f by (simp add: append_utf8_def utf8_def utf8_byte_def low unat_six d word_less_nat_alt)
qed

lemma unat_hex_digit: "hex_digit c = Some d \<Longrightarrow> unat d < 16"
  by (auto simp: hex_digit_def is_digit_def Let_def unat_of_nat split: if_splits simp del: of_nat_diff)

lemma unat_hex_step:
  fixes v d :: u32
  assumes "unat v < 2 ^ 28" and "unat d < 16"
  shows "unat (push_bit 4 v OR d) = 16 * unat v + unat d"
proof -
  have "unat (push_bit 4 v) = 16 * unat v"
    using assms(1) by (simp add: push_bit_eq_mult unat_word_ariths)
  then show ?thesis using unat_or_low [of d 4 "push_bit 4 v"] assms by (simp add: take_bit_push_bit)
qed

abbreviation hex_fold :: "nat \<Rightarrow> string \<Rightarrow> nat" where
  "hex_fold \<equiv> foldl (\<lambda>n c. 16 * n + unat (the (hex_digit c)))"

lemma hex_step_bound:
  fixes v d :: u32
  assumes "(unat v + 1) * 16 ^ Suc k \<le> 2 ^ 32" and "hex_digit c = Some d"
  shows "unat (push_bit 4 v OR d) = 16 * unat v + unat d" "(unat (push_bit 4 v OR d) + 1) * 16 ^ k \<le> 2 ^ 32"
proof -
  note d = unat_hex_digit [OF assms(2)]
  have "(unat v + 1) * 16 \<le> (unat v + 1) * 16 ^ Suc k" by (intro mult_le_mono2) simp
  then have "(unat v + 1) * 16 \<le> 2 ^ 32" using assms(1) by (rule le_trans)
  then show *: "unat (push_bit 4 v OR d) = 16 * unat v + unat d" using d by (intro unat_hex_step) simp_all
  have "(16 * unat v + unat d + 1) * 16 ^ k \<le> (unat v + 1) * 16 * 16 ^ k" using d by (intro mult_right_mono) simp_all
  also have "\<dots> = (unat v + 1) * 16 ^ Suc k" by (simp add: algebra_simps)
  also note assms(1)
  finally show "(unat (push_bit 4 v OR d) + 1) * 16 ^ k \<le> 2 ^ 32" unfolding * .
qed

lemma hex_digits_sound:
  "hex_digits k v s = Some (x, r) \<Longrightarrow> (unat v + 1) * 16 ^ k \<le> 2 ^ 32 \<Longrightarrow>
     \<exists>u. s = u @ r \<and> length u = k \<and> list_all (\<lambda>c. hex_digit c \<noteq> None) u \<and> unat x = hex_fold (unat v) u"
proof (induction k v s rule: hex_digits.induct)
  case (2 k v c s)
  then obtain d where d: "hex_digit c = Some d" "hex_digits k (push_bit 4 v OR d) s = Some (x, r)"
    by (auto split: option.splits)
  note b = hex_step_bound [OF "2.prems"(2) d(1)]
  obtain u where "s = u @ r" "length u = k" "list_all (\<lambda>c. hex_digit c \<noteq> None) u" "unat x = hex_fold (unat (push_bit 4 v OR d)) u"
    using "2.IH" [OF d b(2)] by blast
  then show ?case using d(1) b(1) by (intro exI [of _ "c # u"]) simp
qed simp_all

lemma hex_digits_complete:
  "list_all (\<lambda>c. hex_digit c \<noteq> None) u \<Longrightarrow> (unat v + 1) * 16 ^ length u \<le> 2 ^ 32 \<Longrightarrow>
     \<exists>x. hex_digits (length u) v (u @ r) = Some (x, r) \<and> unat x = hex_fold (unat v) u"
proof (induction u arbitrary: v)
  case (Cons c u)
  then obtain d where d: "hex_digit c = Some d" by auto
  note b = hex_step_bound [OF Cons.prems(2) [unfolded length_Cons] d]
  show ?case using Cons.IH [OF _ b(2)] Cons.prems(1) d b(1) by simp
qed simp

lemma hex4_iff: "hex4 s = Some (x, r) \<longleftrightarrow> (\<exists>u. s = u @ r \<and> hex_text u (unat x))"
proof
  assume "hex4 s = Some (x, r)"
  then show "\<exists>u. s = u @ r \<and> hex_text u (unat x)"
    using hex_digits_sound [of 4 0 s x r] by (auto simp: hex4_def hex_text_def hex_nat_def split: if_splits)
next
  assume "\<exists>u. s = u @ r \<and> hex_text u (unat x)"
  then obtain u where u: "s = u @ r" "length u = 4" "list_all (\<lambda>c. hex_digit c \<noteq> None) u" "hex_nat u = unat x"
    by (auto simp: hex_text_def)
  then show "hex4 s = Some (x, r)"
    using hex_digits_complete [of u 0 r] by (auto simp: hex4_def hex_nat_def word_unat_eq_iff)
qed

lemma hex_text_bound: "hex_text u n \<Longrightarrow> n < 0x10000"
proof -
  have fold: "list_all (\<lambda>c. hex_digit c \<noteq> None) u \<Longrightarrow> hex_fold v u < (v + 1) * 16 ^ length u" for v u
  proof (induction u arbitrary: v)
    case (Cons c u)
    then obtain d where d: "hex_digit c = Some d" by auto
    have "hex_fold (16 * v + unat d) u < (16 * v + unat d + 1) * 16 ^ length u" using Cons by simp
    also have "\<dots> \<le> (v + 1) * 16 * 16 ^ length u" using unat_hex_digit [OF d] by (intro mult_right_mono) simp_all
    finally show ?case using d by (simp add: algebra_simps)
  qed simp
  show "hex_text u n \<Longrightarrow> n < 0x10000" using fold [of u 0] by (auto simp: hex_text_def hex_nat_def)
qed

lemma unat_add_small: "unat x + unat y < 2 ^ 32 \<Longrightarrow> unat (x + y :: u32) = unat x + unat y"
  by (simp add: unat_word_ariths)

lemma pair_value:
  fixes hi lo :: u32
  assumes "0xD800 \<le> unat hi" "unat hi \<le> 0xDBFF" "0xDC00 \<le> unat lo" "unat lo \<le> 0xDFFF"
  shows "unat (0x10000 + push_bit 10 (hi - 0xD800) + (lo - 0xDC00)) = 0x10000 + (unat hi - 0xD800) * 0x400 + (unat lo - 0xDC00)"
proof -
  define a b where "a = hi - 0xD800" and "b = lo - 0xDC00"
  have ab: "unat a = unat hi - 0xD800" "unat b = unat lo - 0xDC00"
    using assms by (simp_all add: a_def b_def unat_sub word_le_nat_alt)
  have p: "unat (push_bit 10 a) = unat a * 0x400"
    using ab assms by (simp add: push_bit_eq_mult unat_word_ariths)
  have q: "unat (0x10000 + push_bit 10 a) = 0x10000 + unat a * 0x400"
    using ab assms p by (subst unat_add_small) simp_all
  show ?thesis unfolding a_def [symmetric] b_def [symmetric] using ab assms q by (subst unat_add_small) simp_all
qed

lemma unicode_escape_sound:
  assumes "unicode_escape s = Some (x, r)"
  shows "\<exists>u. s = u @ r \<and> code_text u (unat x)"
proof -
  obtain first s1 where f: "hex4 s = Some (first, s1)" using assms by (auto simp: unicode_escape_def split: option.splits)
  then obtain u where u: "s = u @ s1" "hex_text u (unat first)" using hex4_iff by blast
  show ?thesis
  proof (cases "first < 0xD800 \<or> first > 0xDBFF")
    case True
    then have "x = first" "r = s1" "unat first < 0xD800 \<or> 0xDFFF < unat first"
      using assms f by (auto simp: unicode_escape_def word_less_nat_alt word_le_nat_alt split: if_splits option.splits)
    then show ?thesis using u by (auto intro: single)
  next
    case False
    then obtain s2 second where w: "literal [CHR 0x5C, CHR ''u''] s1 = Some s2" "hex4 s2 = Some (second, r)"
      "\<not> (second < 0xDC00 \<or> second > 0xDFFF)" "x = 0x10000 + push_bit 10 (first - 0xD800) + (second - 0xDC00)"
      using assms f by (auto simp: unicode_escape_def split: if_splits option.splits)
    obtain v where v: "s2 = v @ r" "hex_text v (unat second)" using w(2) hex4_iff by blast
    have b: "0xD800 \<le> unat first" "unat first \<le> 0xDBFF" "0xDC00 \<le> unat second" "unat second \<le> 0xDFFF"
      using False w(3) by (simp_all add: word_less_nat_alt not_less)
    have "s = (u @ CHR 0x5C # CHR ''u'' # v) @ r" using u(1) v(1) literal_length [OF w(1)] by simp
    then show ?thesis using code_text.pair [OF u(2) v(2) b] pair_value [OF b] w(4) by metis
  qed
qed

lemma unicode_escape_complete:
  assumes "code_text u n"
  shows "\<exists>x. unicode_escape (u @ r) = Some (x, r) \<and> unat x = n"
  using assms
proof cases
  case single
  define x where "x = (of_nat n :: u32)"
  have x: "unat x = n" using hex_text_bound [OF single(1)] by (simp add: x_def unat_of_nat)
  then have "hex4 (u @ r) = Some (x, r)" using single(1) hex4_iff by blast
  then show ?thesis using single(2) x by (auto simp: unicode_escape_def word_less_nat_alt word_le_nat_alt)
next
  case (pair u' hi w lo)
  define x y where "x = (of_nat hi :: u32)" and "y = (of_nat lo :: u32)"
  have xy: "unat x = hi" "unat y = lo"
    using hex_text_bound [OF pair(3)] hex_text_bound [OF pair(4)] by (simp_all add: x_def y_def unat_of_nat)
  have h: "hex4 (u @ r) = Some (x, CHR 0x5C # CHR ''u'' # w @ r)" "hex4 (w @ r) = Some (y, r)"
    using pair xy hex4_iff by auto
  then show ?thesis using pair xy pair_value [of x y]
    by (auto simp: unicode_escape_def literal_def word_less_nat_alt word_le_nat_alt)
qed

lemma code_text_bound: "code_text u n \<Longrightarrow> n < 0x110000"
  by (induction rule: code_text.induct) (auto dest: hex_text_bound)

lemma char_sound:
  assumes "parse_char c s = Inr (x, r)" and "c \<noteq> CHR 0x22"
  shows "\<exists>t. c # s = t @ r \<and> (\<forall>u y. string_text u y \<longrightarrow> string_text (t @ u) (x @ y))"
proof (cases "c = CHR 0x5C")
  case False
  then have "x = [c]" "r = s" "of_char c \<ge> (0x20 :: nat)"
    using assms(1) by (auto simp: parse_char_def json_malformed_def split: if_splits)
  then show ?thesis using False assms(2) by (intro exI [of _ "[c]"]) (auto intro: plain)
next
  case True
  then obtain e s1 where e: "s = e # s1" using assms(1) by (auto simp: parse_char_def json_malformed_def split: list.splits)
  show ?thesis
  proof (cases "e = CHR ''u''")
    case u: True
    then obtain cp where cp: "unicode_escape s1 = Some (cp, r)" "x = append_utf8 [] cp"
      using assms(1) True e by (auto simp: parse_char_def json_malformed_def split: option.splits)
    obtain t where t: "s1 = t @ r" "code_text t (unat cp)" using unicode_escape_sound [OF cp(1)] by blast
    have "string_text ((CHR 0x5C # CHR ''u'' # t) @ w) (x @ y)" if "string_text w y" for w y
      using string_text.unicode [OF t(2) that] append_utf8_spec [OF code_text_bound [OF t(2)]] cp(2) by simp
    then show ?thesis using True e u t(1) by (intro exI [of _ "CHR 0x5C # CHR ''u'' # t"]) simp
  next
    case False
    then obtain z where z: "simple_escape e = Some z" "x = [z]" "r = s1"
      using assms(1) True e by (auto simp: parse_char_def json_malformed_def split: option.splits)
    then show ?thesis using True e by (intro exI [of _ "[c, e]"]) (auto intro: escape)
  qed
qed

lemma chars_sound:
  "parse_chars out s = Inr (x, r) \<Longrightarrow>
     \<exists>t y. s = t @ CHR 0x22 # r \<and> x = out @ y \<and> string_text t y \<and> length x \<le> kMaxJsonString"
proof (induction out s rule: parse_chars.induct)
  case (2 out c s)
  show ?case
  proof (cases "c = CHR 0x22")
    case True
    then show ?thesis using "2.prems" by (intro exI [of _ "[]"]) (auto simp: json_too_large_def empty split: if_splits)
  next
    case False
    then obtain y t where y: "parse_char c s = Inr (y, t)" "parse_chars (out @ y) t = Inr (x, r)" "\<not> kMaxJsonString < length out"
      using "2.prems" by (auto simp: json_too_large_def split: sum.splits if_splits)
    obtain a where a: "c # s = a @ t" "\<forall>u z. string_text u z \<longrightarrow> string_text (a @ u) (y @ z)"
      using char_sound [OF y(1) False] by blast
    obtain b z where "t = b @ CHR 0x22 # r" "x = (out @ y) @ z" "string_text b z" "length x \<le> kMaxJsonString"
      using "2.IH" [of "(y, t)" y t] y False by auto
    then show ?thesis using a by (intro exI [of _ "a @ b"] exI [of _ "y @ z"]) auto
  qed
qed (simp add: json_malformed_def)

lemma simple_escape_u: "simple_escape e = Some c \<Longrightarrow> e \<noteq> CHR ''u''"
  by (auto simp: simple_escape_def)

lemma chars_complete:
  "string_text t y \<Longrightarrow> length (out @ y) \<le> kMaxJsonString \<Longrightarrow> parse_chars out (t @ CHR 0x22 # r) = Inr (out @ y, r)"
proof (induction arbitrary: out rule: string_text.induct)
  case (plain c t x)
  then show ?case using plain.IH [of "out @ [c]"] by (simp add: parse_char_def)
next
  case (escape e c t x)
  have "parse_char CHR 0x5C (e # t @ CHR 0x22 # r) = Inr ([c], t @ CHR 0x22 # r)"
    using escape.hyps(1) simple_escape_u by (auto simp: parse_char_def)
  then show ?case using escape.IH [of "out @ [c]"] escape.prems by simp
next
  case (unicode u n t x)
  obtain z where z: "unicode_escape (u @ t @ CHR 0x22 # r) = Some (z, t @ CHR 0x22 # r)" "unat z = n"
    using unicode_escape_complete [OF unicode.hyps(1)] by blast
  have "append_utf8 [] z = utf8 n" using append_utf8_spec [of z "[]"] z(2) code_text_bound [OF unicode.hyps(1)] by simp
  then have "parse_char CHR 0x5C (CHR ''u'' # u @ t @ CHR 0x22 # r) = Inr (utf8 n, t @ CHR 0x22 # r)"
    using z(1) by (simp add: parse_char_def)
  then show ?case using unicode.IH [of "out @ utf8 n"] unicode.prems by simp
qed simp

section \<open>Values\<close>

definition spaces :: "string \<Rightarrow> bool" where "spaces w \<longleftrightarrow> list_all is_space w"

inductive json_text :: "json \<Rightarrow> string \<Rightarrow> bool"
  and items_text :: "json list \<Rightarrow> string \<Rightarrow> bool"
  and members_text :: "(string \<times> json) list \<Rightarrow> string \<Rightarrow> bool" where
  null: "json_text JNull ''null''"
| true: "json_text (JBoolean True) ''true''"
| false: "json_text (JBoolean False) ''false''"
| number: "number_text t \<Longrightarrow> json_text (JNumber t) t"
| string: "string_text t x \<Longrightarrow> json_text (JString x) (CHR 0x22 # t @ [CHR 0x22])"
| no_items: "spaces w \<Longrightarrow> json_text (JArray []) (CHR ''['' # w @ '']'')"
| array: "items_text vs t \<Longrightarrow> json_text (JArray vs) (CHR ''['' # t @ '']'')"
| no_members: "spaces w \<Longrightarrow> json_text (JObject []) (CHR ''{'' # w @ ''}'')"
| object: "members_text ms t \<Longrightarrow> distinct (map fst ms) \<Longrightarrow> json_text (JObject ms) (CHR ''{'' # t @ ''}'')"
| item: "spaces w \<Longrightarrow> json_text v t \<Longrightarrow> spaces w' \<Longrightarrow> items_text [v] (w @ t @ w')"
| items: "spaces w \<Longrightarrow> json_text v t \<Longrightarrow> spaces w' \<Longrightarrow> items_text vs u \<Longrightarrow> items_text (v # vs) (w @ t @ w' @ CHR '','' # u)"
| member: "spaces w \<Longrightarrow> string_text k key \<Longrightarrow> spaces a \<Longrightarrow> spaces b \<Longrightarrow> json_text v t \<Longrightarrow> spaces w' \<Longrightarrow>
    members_text [(key, v)] (w @ CHR 0x22 # k @ CHR 0x22 # a @ CHR '':'' # b @ t @ w')"
| members: "spaces w \<Longrightarrow> string_text k key \<Longrightarrow> spaces a \<Longrightarrow> spaces b \<Longrightarrow> json_text v t \<Longrightarrow> spaces w' \<Longrightarrow> members_text ms u \<Longrightarrow>
    members_text ((key, v) # ms) (w @ CHR 0x22 # k @ CHR 0x22 # a @ CHR '':'' # b @ t @ w' @ CHR '','' # u)"

definition document_text :: "json \<Rightarrow> string \<Rightarrow> bool" where
  "document_text v s \<longleftrightarrow> (\<exists>w t w'. s = w @ t @ w' \<and> spaces w \<and> json_text v t \<and> spaces w')"

text \<open>The bounds of a value.\<close>

fun json_depth :: "json \<Rightarrow> nat" where
  "json_depth (JArray vs) = Suc (foldr max (map json_depth vs) 0)"
| "json_depth (JObject ms) = Suc (foldr max (map (\<lambda>m. json_depth (snd m)) ms) 0)"
| "json_depth _ = 0"

fun json_count :: "json \<Rightarrow> nat" where
  "json_count (JArray vs) = Suc (sum_list (map json_count vs))"
| "json_count (JObject ms) = Suc (sum_list (map (\<lambda>m. json_count (snd m)) ms))"
| "json_count _ = 1"

fun json_short :: "json \<Rightarrow> bool" where
  "json_short (JNumber t) \<longleftrightarrow> length t \<le> kMaxJsonString"
| "json_short (JString t) \<longleftrightarrow> length t \<le> kMaxJsonString"
| "json_short (JArray vs) \<longleftrightarrow> list_all json_short vs"
| "json_short (JObject ms) \<longleftrightarrow> list_all (\<lambda>m. length (fst m) \<le> kMaxJsonString \<and> json_short (snd m)) ms"
| "json_short _ \<longleftrightarrow> True"

text \<open>Values read one after the other at a depth, from one count of values to another.\<close>

definition fits_json :: "nat \<Rightarrow> nat \<Rightarrow> nat \<Rightarrow> json list \<Rightarrow> bool" where
  "fits_json d n n' vs \<longleftrightarrow> list_all (\<lambda>v. json_depth v + d \<le> kMaxJsonDepth \<and> json_short v) vs \<and>
     n' = n + sum_list (map json_count vs) \<and> n' \<le> kMaxJsonValues"

definition keys_short :: "(string \<times> json) list \<Rightarrow> bool" where
  "keys_short ms \<longleftrightarrow> list_all (\<lambda>m. length (fst m) \<le> kMaxJsonString) ms"

lemma foldr_max_le: "foldr max xs 0 \<le> m \<longleftrightarrow> list_all (\<lambda>x. x \<le> m) xs" for m :: nat
  by (induction xs) auto

lemma fits_array:
  "fits_json d n n' [JArray vs] \<longleftrightarrow> d < kMaxJsonDepth \<and> fits_json (Suc d) (Suc n) n' vs"
proof -
  have "json_depth (JArray vs) + d \<le> kMaxJsonDepth \<longleftrightarrow>
      d < kMaxJsonDepth \<and> list_all (\<lambda>v. json_depth v + Suc d \<le> kMaxJsonDepth) vs"
    using foldr_max_le [of "map json_depth vs" "kMaxJsonDepth - Suc d"] by (auto simp: list_all_iff)
  then show ?thesis by (auto simp: fits_json_def list_all_iff)
qed

lemma fits_object:
  "fits_json d n n' [JObject ms] \<longleftrightarrow> d < kMaxJsonDepth \<and> fits_json (Suc d) (Suc n) n' (map snd ms) \<and> keys_short ms"
proof -
  have "json_depth (JObject ms) + d \<le> kMaxJsonDepth \<longleftrightarrow>
      d < kMaxJsonDepth \<and> list_all (\<lambda>m. json_depth (snd m) + Suc d \<le> kMaxJsonDepth) ms"
    using foldr_max_le [of "map (\<lambda>m. json_depth (snd m)) ms" "kMaxJsonDepth - Suc d"] by (auto simp: list_all_iff)
  then show ?thesis by (auto simp: fits_json_def keys_short_def list_all_iff comp_def)
qed

lemma fits_scalar: "json_depth v = 0 \<Longrightarrow> json_count v = 1 \<Longrightarrow>
    fits_json d n n' [v] \<longleftrightarrow> d \<le> kMaxJsonDepth \<and> json_short v \<and> n' = Suc n \<and> Suc n \<le> kMaxJsonValues"
  by (auto simp: fits_json_def)

lemma fits_Cons: "fits_json d n n' (v # vs) \<longleftrightarrow> fits_json d n (n + json_count v) [v] \<and> fits_json d (n + json_count v) n' vs"
  by (auto simp: fits_json_def)

lemma fits_Nil: "fits_json d n n' [] \<longleftrightarrow> n' = n \<and> n \<le> kMaxJsonValues"
  by (auto simp: fits_json_def)

section \<open>Soundness\<close>

lemma skip_split: "\<exists>w. s = w @ skip_space s \<and> spaces w"
  unfolding skip_space_def spaces_def list_all_iff by (metis set_takeWhileD takeWhile_dropWhile_id)

lemma skip_spaces [simp]: "spaces w \<Longrightarrow> skip_space (w @ s) = skip_space s"
  unfolding skip_space_def spaces_def list_all_iff by (simp add: dropWhile_append2)

lemma skip_space_skip [simp]: "skip_space (skip_space s) = skip_space s"
  by (simp add: skip_space_def)

lemma key_sound:
  assumes "parse_key ms s = Inr (key, r)"
  shows "\<exists>w k a. s = w @ CHR 0x22 # k @ CHR 0x22 # a @ CHR '':'' # r \<and> spaces w \<and> spaces a \<and> string_text k key \<and>
    length key \<le> kMaxJsonString \<and> key \<notin> fst ` set ms"
proof -
  obtain t t1 where t: "skip_space s = CHR 0x22 # t" "parse_string t = Inr (key, t1)" "map_of ms key = None"
    "skip_space t1 = CHR '':'' # r"
    using assms by (auto simp: parse_key_def json_malformed_def split: list.splits if_splits sum.splits)
  obtain w a where w: "s = w @ CHR 0x22 # t" "spaces w" and a: "t1 = a @ CHR '':'' # r" "spaces a"
    using skip_split [of s] skip_split [of t1] t by auto
  show ?thesis using chars_sound [of "[]" t key t1] w a t by (auto simp: parse_string_def map_of_eq_None_iff)
qed

lemma separator_sound:
  "object_separator s = Inr (closed, r) \<Longrightarrow> \<exists>w. spaces w \<and> s = w @ (if closed then CHR ''}'' else CHR '','') # r"
  "array_separator s = Inr (closed, r) \<Longrightarrow> \<exists>w. spaces w \<and> s = w @ (if closed then CHR '']'' else CHR '','') # r"
  using skip_split [of s]
  by (auto simp: object_separator_def array_separator_def separator_def json_malformed_def split: list.splits if_splits)

lemma spaces_append [simp]: "spaces (v @ w) \<longleftrightarrow> spaces v \<and> spaces w"
  by (simp add: spaces_def)

lemma items_spaces:
  assumes "items_text vs t" and "spaces w"
  shows "items_text vs (w @ t)"
  using assms(1)
proof cases
  case (item wa v ta w')
  then show ?thesis using json_text_items_text_members_text.item [of "w @ wa" v ta w'] assms(2) by simp
next
  case (items wa v ta w' vs' u)
  then show ?thesis using json_text_items_text_members_text.items [of "w @ wa" v ta w' vs' u] assms(2) by simp
qed

lemma members_spaces:
  assumes "members_text ms t" and "spaces w"
  shows "members_text ms (w @ t)"
  using assms(1)
proof cases
  case (member wa k key a b v ta w')
  then show ?thesis using json_text_items_text_members_text.member [of "w @ wa" k key a b v ta w'] assms(2) by simp
next
  case (members wa k key a b v ta w' ms' u)
  then show ?thesis using json_text_items_text_members_text.members [of "w @ wa" k key a b v ta w' ms' u] assms(2) by simp
qed

lemma scalar_grammar:
  assumes "parse_scalar s = Inr (v, r)"
  shows "\<exists>t. s = t @ r \<and> json_text v t \<and> json_depth v = 0 \<and> json_count v = 1 \<and> json_short v"
proof -
  obtain t where "s = t @ r" and t: "v = JBoolean True \<and> t = ''true'' \<or> v = JBoolean False \<and> t = ''false'' \<or>
      v = JNull \<and> t = ''null'' \<or> v = JNumber t \<and> number_text t \<and> length t \<le> kMaxJsonString"
    using scalar_sound [OF assms] by blast
  have "json_text v t \<and> json_depth v = 0 \<and> json_count v = 1 \<and> json_short v"
    using t by (elim disjE conjE) (simp_all add: true false null number)
  then show ?thesis using \<open>s = t @ r\<close> by blast
qed

lemma value_sound:
  "parse_value d n s = Inr (v, n', r) \<Longrightarrow> d \<le> kMaxJsonDepth \<Longrightarrow>
     \<exists>w t. s = w @ t @ r \<and> spaces w \<and> json_text v t \<and> fits_json d n n' [v]"
  "parse_object d m s = Inr (v, n', r) \<Longrightarrow> d \<le> kMaxJsonDepth \<Longrightarrow> m = Suc n \<Longrightarrow> m \<le> kMaxJsonValues \<Longrightarrow>
     \<exists>t. s = t @ r \<and> json_text v (CHR ''{'' # t) \<and> fits_json d n n' [v]"
  "parse_array d m s = Inr (v, n', r) \<Longrightarrow> d \<le> kMaxJsonDepth \<Longrightarrow> m = Suc n \<Longrightarrow> m \<le> kMaxJsonValues \<Longrightarrow>
     \<exists>t. s = t @ r \<and> json_text v (CHR ''['' # t) \<and> fits_json d n n' [v]"
  "object_loop d ms n s = Inr (v, n', r) \<Longrightarrow> d < kMaxJsonDepth \<Longrightarrow> distinct (map fst ms) \<Longrightarrow>
     \<exists>ms' t. v = JObject (ms @ ms') \<and> s = t @ CHR ''}'' # r \<and> members_text ms' t \<and> distinct (map fst (ms @ ms')) \<and>
       fits_json (Suc d) n n' (map snd ms') \<and> keys_short ms'"
  "array_loop d vs n s = Inr (v, n', r) \<Longrightarrow> d < kMaxJsonDepth \<Longrightarrow>
     \<exists>vs' t. v = JArray (vs @ vs') \<and> s = t @ CHR '']'' # r \<and> items_text vs' t \<and> fits_json (Suc d) n n' vs'"
proof (induction d n s and d m s and d m s and d ms n s and d vs n s arbitrary: v n' r and v n n' r and v n n' r and v n' r and v n' r
    rule: parse_value_parse_object_parse_array_object_loop_array_loop.induct)
  case (1 d n s)
  obtain c t where c: "skip_space s = c # t" "\<not> kMaxJsonValues < Suc n"
    using "1.prems" by (auto simp: parse_value.simps json_too_large_def json_malformed_def split: if_splits list.splits)
  obtain w where w: "s = w @ c # t" "spaces w" using skip_split [of s] c(1) by auto
  have "\<exists>u. c # t = u @ r \<and> json_text v u \<and> fits_json d n n' [v]"
  proof -
    consider "c = CHR ''{''" | "c = CHR ''[''" | "c = CHR 0x22" | "c \<noteq> CHR ''{''" "c \<noteq> CHR ''[''" "c \<noteq> CHR 0x22" by blast
    then show ?thesis
    proof cases
      case 1
      then show ?thesis using "1.IH"(1) [OF c(2,1) _ _ _ refl] "1.prems" c by (fastforce simp: parse_value.simps)
    next
      case 2
      then show ?thesis using "1.IH"(2) [OF c(2,1) _ _ _ _ refl] "1.prems" c by (fastforce simp: parse_value.simps)
    next
      case 3
      then obtain x where x: "parse_string t = Inr (x, r)" "v = JString x" "n' = Suc n"
        using "1.prems"(1) c by (auto simp: parse_value.simps split: sum.splits)
      obtain k where "t = k @ CHR 0x22 # r" "string_text k x" "length x \<le> kMaxJsonString"
        using chars_sound [of "[]" t x r] x(1) by (auto simp: parse_string_def)
      then show ?thesis using 3 x c(2) "1.prems"(2)
        by (intro exI [of _ "CHR 0x22 # k @ [CHR 0x22]"]) (auto intro: json_text_items_text_members_text.string simp: fits_scalar)
    next
      case 4
      then have x: "parse_scalar (c # t) = Inr (v, r)" "n' = Suc n"
        using "1.prems"(1) c by (auto simp: parse_value.simps split: sum.splits)
      then obtain u where u: "c # t = u @ r" "json_text v u" "json_depth v = 0" "json_count v = 1" "json_short v"
        using scalar_grammar by blast
      then show ?thesis using x(2) c(2) "1.prems"(2) by (auto simp: fits_scalar)
    qed
  qed
  then show ?case using w by auto
next
  case (2 d m s)
  then have d: "d < kMaxJsonDepth" by (auto simp: json_too_large_def split: if_splits)
  obtain w where w: "s = w @ skip_space s" "spaces w" using skip_split by blast
  show ?case
  proof (cases "\<exists>t. skip_space s = CHR ''}'' # t")
    case True
    then have "s = (w @ ''}'') @ r" "v = JObject []" "n' = m" using "2.prems" d w by auto
    then show ?thesis using "2.prems" d w(2) by (auto simp: fits_object fits_Nil keys_short_def intro!: no_members)
  next
    case False
    then have l: "object_loop d [] m (skip_space s) = Inr (v, n', r)" using "2.prems" d by (auto split: list.splits if_splits)
    have ih: "\<exists>ms' t. v = JObject ms' \<and> skip_space s = t @ CHR ''}'' # r \<and> members_text ms' t \<and> distinct (map fst ms') \<and>
       fits_json (Suc d) m n' (map snd ms') \<and> keys_short ms'"
      using "2.IH" l d False by (cases "skip_space s") auto
    then obtain ms' t where t: "v = JObject ms'" "skip_space s = t @ CHR ''}'' # r" "members_text ms' t" "distinct (map fst ms')"
      "fits_json (Suc d) m n' (map snd ms')" "keys_short ms'" by blast
    have "json_text v (CHR ''{'' # (w @ t) @ ''}'')"
      unfolding t(1) using members_spaces [OF t(3) w(2)] t(4) by (rule object)
    then show ?thesis using w(1) t(2,5,6) "2.prems"(3) d unfolding t(1)
      by (intro exI [of _ "w @ t @ ''}''"]) (simp add: fits_object)
  qed
next
  case (3 d m s)
  then have d: "d < kMaxJsonDepth" by (auto simp: json_too_large_def split: if_splits)
  obtain w where w: "s = w @ skip_space s" "spaces w" using skip_split by blast
  show ?case
  proof (cases "\<exists>t. skip_space s = CHR '']'' # t")
    case True
    then have "s = (w @ '']'') @ r" "v = JArray []" "n' = m" using "3.prems" d w by auto
    then show ?thesis using "3.prems" d w(2) by (auto simp: fits_array fits_Nil intro!: no_items)
  next
    case False
    then have l: "array_loop d [] m (skip_space s) = Inr (v, n', r)" using "3.prems" d by (auto split: list.splits if_splits)
    have ih: "\<exists>vs' t. v = JArray vs' \<and> skip_space s = t @ CHR '']'' # r \<and> items_text vs' t \<and> fits_json (Suc d) m n' vs'"
      using "3.IH" l d False by (cases "skip_space s") auto
    then obtain vs' t where t: "v = JArray vs'" "skip_space s = t @ CHR '']'' # r" "items_text vs' t" "fits_json (Suc d) m n' vs'"
      by blast
    have "json_text v (CHR ''['' # (w @ t) @ '']'')"
      unfolding t(1) using items_spaces [OF t(3) w(2)] by (rule array)
    then show ?thesis using w(1) t(2,4) "3.prems"(3) d unfolding t(1)
      by (intro exI [of _ "w @ t @ '']''"]) (simp add: fits_array)
  qed
next
  case (4 d ms n s)
  obtain key s1 v1 n1 s2 closed s3 where k: "parse_key ms s = Inr (key, s1)"
    "parse_value (Suc d) n s1 = Inr (v1, n1, s2)" "object_separator s2 = Inr (closed, s3)"
    "(if closed then Inr (JObject (ms @ [(key, v1)]), n1, s3) else object_loop d (ms @ [(key, v1)]) n1 s3) = Inr (v, n', r)"
    using "4.prems"(1) by (auto simp: object_loop.simps split: sum.splits)
  obtain w kt a where key: "s = w @ CHR 0x22 # kt @ CHR 0x22 # a @ CHR '':'' # s1" "spaces w" "spaces a" "string_text kt key"
    "length key \<le> kMaxJsonString" "key \<notin> fst ` set ms" using key_sound [OF k(1)] by blast
  obtain b t where val: "s1 = b @ t @ s2" "spaces b" "json_text v1 t" "fits_json (Suc d) n n1 [v1]"
    using "4.IH"(1) [OF k(1) refl k(2)] "4.prems"(2) by auto
  obtain w' where sep: "spaces w'" "s2 = w' @ (if closed then CHR ''}'' else CHR '','') # s3"
    using separator_sound(1) [OF k(3)] by blast
  show ?case
  proof (cases closed)
    case True
    then show ?thesis using k(4) key val sep "4.prems"(3)
        member [OF key(2,4,3) val(2,3) sep(1)]
      by (intro exI [of _ "[(key, v1)]"] exI [of _ "w @ CHR 0x22 # kt @ CHR 0x22 # a @ CHR '':'' # b @ t @ w'"])
        (auto simp: keys_short_def)
  next
    case False
    then have l: "object_loop d (ms @ [(key, v1)]) n1 s3 = Inr (v, n', r)" using k(4) by simp
    obtain ms' u where u: "v = JObject ((ms @ [(key, v1)]) @ ms')" "s3 = u @ CHR ''}'' # r" "members_text ms' u"
      "distinct (map fst ((ms @ [(key, v1)]) @ ms'))" "fits_json (Suc d) n1 n' (map snd ms')" "keys_short ms'"
      using "4.IH"(2) [OF k(1) refl k(2) refl refl k(3) refl _ l] False "4.prems"(2,3) key(6) by auto
    have "fits_json (Suc d) n n' (v1 # map snd ms')" using val(4) u(5) by (subst fits_Cons) (auto simp: fits_json_def)
    then show ?thesis using key val sep u False members [OF key(2,4,3) val(2,3) sep(1) u(3)]
      by (intro exI [of _ "(key, v1) # ms'"] exI [of _ "w @ CHR 0x22 # kt @ CHR 0x22 # a @ CHR '':'' # b @ t @ w' @ CHR '','' # u"])
        (auto simp: keys_short_def)
  qed
next
  case (5 d vs n s)
  obtain v1 n1 s2 closed s3 where k:
    "parse_value (Suc d) n s = Inr (v1, n1, s2)" "array_separator s2 = Inr (closed, s3)"
    "(if closed then Inr (JArray (vs @ [v1]), n1, s3) else array_loop d (vs @ [v1]) n1 s3) = Inr (v, n', r)"
    using "5.prems"(1) by (auto simp: array_loop.simps split: sum.splits)
  obtain b t where val: "s = b @ t @ s2" "spaces b" "json_text v1 t" "fits_json (Suc d) n n1 [v1]"
    using "5.IH"(1) [OF k(1)] "5.prems"(2) by auto
  obtain w' where sep: "spaces w'" "s2 = w' @ (if closed then CHR '']'' else CHR '','') # s3"
    using separator_sound(2) [OF k(2)] by blast
  show ?case
  proof (cases closed)
    case True
    then show ?thesis using k(3) val sep item [OF val(2,3) sep(1)]
      by (intro exI [of _ "[v1]"] exI [of _ "b @ t @ w'"]) auto
  next
    case False
    then have l: "array_loop d (vs @ [v1]) n1 s3 = Inr (v, n', r)" using k(3) by simp
    obtain vs' u where u: "v = JArray ((vs @ [v1]) @ vs')" "s3 = u @ CHR '']'' # r" "items_text vs' u" "fits_json (Suc d) n1 n' vs'"
      using "5.IH"(2) [OF k(1) refl refl k(2) refl _ l] False "5.prems"(2) by auto
    have "fits_json (Suc d) n n' (v1 # vs')" using val(4) u(4) by (subst fits_Cons) (auto simp: fits_json_def)
    then show ?thesis using val sep u False items [OF val(2,3) sep(1) u(3)]
      by (intro exI [of _ "v1 # vs'"] exI [of _ "b @ t @ w' @ CHR '','' # u"]) auto
  qed
qed

section \<open>Completeness\<close>

lemma skip_nonspace [simp]: "\<not> is_space c \<Longrightarrow> skip_space (c # s) = c # s"
  by (simp add: skip_space_def)

lemma not_space [simp]:
  "\<not> is_space CHR 0x22" "\<not> is_space CHR ''['' " "\<not> is_space CHR ''{''" "\<not> is_space CHR '']'' " "\<not> is_space CHR ''}''"
  "\<not> is_space CHR '',''" "\<not> is_space CHR '':''" "\<not> is_space CHR ''t''" "\<not> is_space CHR ''f''" "\<not> is_space CHR ''n''"
  "\<not> is_space CHR ''-''"
  by (simp_all add: is_space_def)

lemma digit_not_space: "is_digit c \<Longrightarrow> \<not> is_space c"
  by (auto simp: is_digit_def is_space_def)

definition starts_value :: "char \<Rightarrow> bool" where
  "starts_value c \<longleftrightarrow> \<not> is_space c \<and> c \<noteq> CHR '']'' \<and> c \<noteq> CHR ''}''"

lemma number_first:
  assumes "number_text t"
  shows "\<exists>c u. t = c # u \<and> (c = CHR ''-'' \<or> is_digit c)"
proof -
  obtain sign i f x where "t = sign @ i @ f @ x" "sign \<in> {[], ''-''}" "i = ''0'' \<or> digits_text i \<and> hd i \<noteq> CHR ''0''"
    using assms unfolding number_text_def by blast
  then show ?thesis by (cases i) (auto simp: digits_text_def is_digit_def)
qed

lemma text_first:
  assumes "json_text v t"
  shows "\<exists>c u. t = c # u \<and> starts_value c"
  using assms
proof cases
  case number
  then obtain c u where c: "t = c # u" "c = CHR ''-'' \<or> is_digit c" using number_first by blast
  have "starts_value c" using c(2) by (auto simp: starts_value_def is_digit_def is_space_def)
  then show ?thesis using c(1) by blast
qed (simp_all add: starts_value_def)

lemma loop_skip:
  "array_loop d vs n (skip_space s) = array_loop d vs n s" "object_loop d ms n (skip_space s) = object_loop d ms n s"
  by (simp_all add: array_loop.simps [of d vs n] object_loop.simps [of d ms n] parse_value.simps [of "Suc d" n] parse_key_def)

lemma parse_array_alt:
  "d \<noteq> kMaxJsonDepth \<Longrightarrow> \<nexists>r. skip_space s = CHR '']'' # r \<Longrightarrow> parse_array d n s = array_loop d [] n s"
  using loop_skip(1) [of d "[]" n s] by (auto split: list.split)

lemma parse_object_alt:
  "d \<noteq> kMaxJsonDepth \<Longrightarrow> \<nexists>r. skip_space s = CHR ''}'' # r \<Longrightarrow> parse_object d n s = object_loop d [] n s"
  using loop_skip(2) [of d "[]" n s] by (auto split: list.split)

lemma items_first: "items_text vs t \<Longrightarrow> \<exists>c u. skip_space (t @ r) = c # u \<and> c \<noteq> CHR '']''"
  by (erule items_text.cases) (auto simp: starts_value_def dest!: text_first)

lemma members_first: "members_text ms t \<Longrightarrow> \<exists>u. skip_space (t @ r) = CHR 0x22 # u"
  by (erule members_text.cases) auto

lemma separator_complete:
  assumes "spaces w"
  shows "object_separator (w @ CHR ''}'' # r) = Inr (True, r)" "object_separator (w @ CHR '','' # r) = Inr (False, r)"
    "array_separator (w @ CHR '']'' # r) = Inr (True, r)" "array_separator (w @ CHR '','' # r) = Inr (False, r)"
  using assms by (simp_all add: object_separator_def array_separator_def separator_def)

lemma key_complete:
  assumes "spaces w" "string_text k key" "spaces a" "length key \<le> kMaxJsonString" "key \<notin> fst ` set ms"
  shows "parse_key ms (w @ CHR 0x22 # k @ CHR 0x22 # a @ CHR '':'' # r) = Inr (key, r)"
  using assms chars_complete [OF assms(2), of "[]" "a @ CHR '':'' # r"]
  by (simp add: parse_key_def parse_string_def map_of_eq_None_iff)

lemma ends_number_simps [simp]:
  "ends_number []" "ends_number (CHR '']'' # r)" "ends_number (CHR ''}'' # r)" "ends_number (CHR '','' # r)"
  by (simp_all add: ends_number_def is_digit_def)

lemma ends_number_spaces: "spaces w \<Longrightarrow> ends_number r \<Longrightarrow> ends_number (w @ r)"
  by (cases w) (auto simp: ends_number_def spaces_def is_space_def is_digit_def)

lemma scalar_complete:
  assumes "json_text v t" "json_short v" "ends_number r" "t = c # u" "c \<noteq> CHR ''{''" "c \<noteq> CHR ''[''" "c \<noteq> CHR 0x22"
  shows "parse_scalar (t @ r) = Inr (v, r)"
  using assms(1)
proof cases
  case (number)
  obtain c' u' where c: "t = c' # u'" "c' = CHR ''-'' \<or> is_digit c'" using number_first number(2) by blast
  have "literal ''true'' (t @ r) = None" "literal ''false'' (t @ r) = None" "literal ''null'' (t @ r) = None"
    using c by (auto simp: literal_def is_digit_def)
  then show ?thesis using number_complete [OF number(2) _ assms(3)] assms(2) number(1) by (simp add: parse_scalar_def)
qed (use assms in \<open>auto simp: parse_scalar_def literal_def\<close>)

lemma value_complete:
  "json_text v t \<Longrightarrow> spaces w \<Longrightarrow> fits_json d n n' [v] \<Longrightarrow> ends_number r \<Longrightarrow> parse_value d n (w @ t @ r) = Inr (v, n', r)"
  "items_text vs t \<Longrightarrow> fits_json (Suc d) n n' vs \<Longrightarrow> array_loop d vs0 n (t @ CHR '']'' # r) = Inr (JArray (vs0 @ vs), n', r)"
  "members_text ms t \<Longrightarrow> fits_json (Suc d) n n' (map snd ms) \<Longrightarrow> keys_short ms \<Longrightarrow> distinct (map fst (ms0 @ ms)) \<Longrightarrow>
     object_loop d ms0 n (t @ CHR ''}'' # r) = Inr (JObject (ms0 @ ms), n', r)"
proof (induction arbitrary: w d n n' r and d n n' vs0 r and d n n' ms0 r
    rule: json_text_items_text_members_text.inducts)
  case (string t x)
  then show ?case using chars_complete [OF string(1), of "[]" r]
    by (simp add: parse_value.simps fits_scalar parse_string_def)
next
  case (array vs t)
  obtain c u where c: "skip_space (t @ CHR '']'' # r) = c # u" "c \<noteq> CHR '']''" using items_first [OF array.hyps] by blast
  have f: "d < kMaxJsonDepth" "fits_json (Suc d) (Suc n) n' vs" using array.prems(2) by (simp_all add: fits_array)
  have "parse_array d (Suc n) (t @ CHR '']'' # r) = Inr (JArray vs, n', r)"
    using array.IH [OF f(2), of "[]" r] f(1) c by (subst parse_array_alt) auto
  moreover have "Suc n \<le> kMaxJsonValues" using f(2) by (simp add: fits_json_def)
  ultimately show ?case using array.prems(1) by (simp add: parse_value.simps)
next
  case (object ms t)
  obtain u where c: "skip_space (t @ CHR ''}'' # r) = CHR 0x22 # u" using members_first [OF object.hyps(1)] by blast
  have f: "d < kMaxJsonDepth" "fits_json (Suc d) (Suc n) n' (map snd ms)" "keys_short ms" using object.prems(2) by (simp_all add: fits_object)
  have "parse_object d (Suc n) (t @ CHR ''}'' # r) = Inr (JObject ms, n', r)"
    using object.IH [OF f(2,3), of "[]" r] object.hyps(2) f(1) c by (subst parse_object_alt) auto
  moreover have "Suc n \<le> kMaxJsonValues" using f(2) by (simp add: fits_json_def)
  ultimately show ?case using object.prems(1) by (simp add: parse_value.simps)
next
  case (no_items w0)
  then show ?case by (auto simp: parse_value.simps fits_array fits_Nil)
next
  case (no_members w0)
  then show ?case by (auto simp: parse_value.simps fits_object fits_Nil)
next
  case (item w v t w')
  then show ?case using item.IH [OF item.hyps(1) item.prems, of "w' @ CHR '']'' # r"]
    by (simp add: array_loop.simps [of d vs0] ends_number_spaces separator_complete)
next
  case (items w v t w' vs u)
  have f: "fits_json (Suc d) n (n + json_count v) [v]" "fits_json (Suc d) (n + json_count v) n' vs"
    using items.prems by (simp_all add: fits_Cons [of _ _ _ v vs])
  show ?case using items.IH(1) [OF items.hyps(1) f(1), of "w' @ CHR '','' # u @ CHR '']'' # r"] items.IH(2) [OF f(2), of "vs0 @ [v]" r] items.hyps
    by (simp add: array_loop.simps [of d vs0] ends_number_spaces separator_complete)
next
  case (member w k key a b v t w')
  then show ?case using member.IH [OF member.hyps(4) member.prems(1) [simplified], of "w' @ CHR ''}'' # r"]
      key_complete [OF member.hyps(1-3), of ms0 "b @ t @ w' @ CHR ''}'' # r"]
    by (simp add: object_loop.simps [of d ms0] ends_number_spaces separator_complete keys_short_def)
next
  case (members w k key a b v t w' ms u)
  have f: "fits_json (Suc d) n (n + json_count v) [v]" "fits_json (Suc d) (n + json_count v) n' (map snd ms)"
    using members.prems(1) by (simp_all add: fits_Cons [of _ _ _ v "map snd ms"])
  show ?case using members.IH(1) [OF members.hyps(4) f(1), of "w' @ CHR '','' # u @ CHR ''}'' # r"]
      members.IH(2) [OF f(2), of "ms0 @ [(key, v)]" r] members.hyps members.prems(2,3)
      key_complete [OF members.hyps(1-3), of ms0 "b @ t @ w' @ CHR '','' # u @ CHR ''}'' # r"]
    by (simp add: object_loop.simps [of d ms0] ends_number_spaces separator_complete keys_short_def)
next
  case (number t)
  obtain c u where c: "t = c # u" "c = CHR ''-'' \<or> is_digit c" using number_first [OF number.hyps] by blast
  have ok: "\<not> is_space c" "c \<noteq> CHR ''{''" "c \<noteq> CHR ''[''" "c \<noteq> CHR 0x22" using c(2) by (auto simp: is_digit_def is_space_def)
  have f: "length t \<le> kMaxJsonString" "n' = Suc n" "Suc n \<le> kMaxJsonValues" using number.prems(2) by (simp_all add: fits_scalar)
  then have "parse_scalar (t @ r) = Inr (JNumber t, r)"
    using json_text_items_text_members_text.number [OF number.hyps] number.prems(3) c(1) ok by (intro scalar_complete) simp_all
  then show ?case using ok f c(1) number.prems(1) by (simp add: parse_value.simps)
qed (auto simp: parse_value.simps fits_scalar parse_scalar_def literal_def)


section \<open>Unsigned integers\<close>

abbreviation decimal_fold :: "nat \<Rightarrow> string \<Rightarrow> nat" where
  "decimal_fold \<equiv> foldl (\<lambda>n c. 10 * n + (of_char c - 48))"

definition decimal_value :: "string \<Rightarrow> nat" where
  "decimal_value t = decimal_fold 0 t"

lemma decimal_fold_ge: "n \<le> decimal_fold n t"
proof (induction t arbitrary: n)
  case (Cons c t)
  show ?case using Cons.IH [of "10 * n + (of_char c - 48)"] by simp
qed simp

lemma uint_digits_spec:
  "list_all is_digit t \<Longrightarrow>
     uint_digits v t = (if decimal_fold (unat v) t < 2 ^ 64 then Some (of_nat (decimal_fold (unat v) t)) else None)"
proof (induction t arbitrary: v)
  case (Cons c t)
  define g :: nat where "g = of_char c - 48"
  have g: "g < 10" using Cons.prems by (auto simp: g_def is_digit_def)
  have d: "unat (of_nat g :: u64) = g" using g by (simp add: unat_of_nat)
  have "unat (- 1 - of_nat g :: u64) = 2 ^ 64 - 1 - g"
    using d g by (subst unat_sub) (simp_all add: word_le_nat_alt unsigned_minus_1_eq_mask mask_eq_exp_minus_1)
  then have b: "unat ((- 1 - of_nat g :: u64) div 10) = (2 ^ 64 - 1 - g) div 10" by (simp add: unat_div_distrib)
  have over: "v > (- 1 - of_nat g) div 10 \<longleftrightarrow> 2 ^ 64 \<le> 10 * unat v + g"
    unfolding word_less_nat_alt b using g by (simp add: div_less_iff_less_mult) linarith
  show ?case
  proof (cases "2 ^ 64 \<le> 10 * unat v + g")
    case True
    then have "\<not> decimal_fold (10 * unat v + g) t < 2 ^ 64" using decimal_fold_ge [of "10 * unat v + g" t] by linarith
    then show ?thesis using over True by (simp add: g_def)
  next
    case False
    then have "unat (v * 10 + of_nat g) = 10 * unat v + g" using d by (simp add: unat_word_ariths)
    then show ?thesis using over False Cons.IH [of "v * 10 + of_nat g"] Cons.prems by (simp add: g_def)
  qed
next
  case Nil
  show ?case using unsigned_less [of v] by simp
qed

text \<open>
  Numbers are read exactly or not at all. A value gives an unsigned integer exactly when it is a
  number written with digits only, and then the number its text denotes, without wrapping around: one
  that does not fit 64 bits gives none.
\<close>

theorem as_uint_exact:
  "as_uint v = Some x \<longleftrightarrow> (\<exists>t. v = JNumber t \<and> digits_text t \<and> decimal_value t = unat x)"
proof (cases v)
  case (JNumber t)
  show ?thesis
  proof (cases "digits_text t")
    case True
    have "of_nat n = x \<longleftrightarrow> n = unat x" if "n < 2 ^ 64" for n using that by (auto simp: unat_of_nat)
    then show ?thesis using JNumber True uint_digits_spec [of t 0] unsigned_less [of x]
      by (auto simp: digits_text_def decimal_value_def)
  qed (auto simp: JNumber digits_text_def)
qed simp_all

end
