(* ===== verification/StoredZip.thy ===== *)
theory StoredZip
  imports ImageFormat
begin

text \<open>
  The reader of stored zip archives, \<open>support/dfu_package/stored_zip.hpp\<close> and \<open>.cpp\<close>. An archive
  is a byte string, a view into it the bytes it covers; positions are naturals, as no sum of the
  32-bit fields reaches \<open>2 ^ 64\<close>. Shown: the table-driven CRC-32 is the bit-serial one and detects
  every change inside a byte; what the reader returns lies in the archive as its headers say; and
  every archive written with stored entries is read back.
\<close>

section \<open>Fields\<close>

definition le16_at :: "bytes \<Rightarrow> nat \<Rightarrow> u16" where
  "le16_at bs i = ucast (bs ! i) OR push_bit 8 (ucast (bs ! (i + 1)))"

definition le32_at :: "bytes \<Rightarrow> nat \<Rightarrow> u32" where
  "le32_at bs i = ucast (le16_at bs i) OR push_bit 16 (ucast (le16_at bs (i + 2)))"

definition kLocalHeaderSignature :: u32 where "kLocalHeaderSignature = 0x04034B50"
definition kCentralHeaderSignature :: u32 where "kCentralHeaderSignature = 0x02014B50"
definition kEndOfCentralDirectorySignature :: u32 where "kEndOfCentralDirectorySignature = 0x06054B50"
definition kLocalHeaderSize :: nat where "kLocalHeaderSize = 30"
definition kCentralHeaderSize :: nat where "kCentralHeaderSize = 46"
definition kEndOfCentralDirectorySize :: nat where "kEndOfCentralDirectorySize = 22"
definition kMaxCommentLength :: nat where "kMaxCommentLength = 0xFFFF"
definition kZipFlagEncrypted :: u16 where "kZipFlagEncrypted = 0x0001"
definition kZipFlagStrongEncryption :: u16 where "kZipFlagStrongEncryption = 0x0040"
definition kMethodStored :: u16 where "kMethodStored = 0"
definition kMethodDeflated :: u16 where "kMethodDeflated = 8"
definition kMaxZipEntries :: nat where "kMaxZipEntries = 32"
definition kMaxZipNameLength :: nat where "kMaxZipNameLength = 255"

definition zip_malformed :: "string \<Rightarrow> 'a result" where "zip_malformed what = Inl (Error MalformedMessage what)"
definition zip_unsupported :: "string \<Rightarrow> 'a result" where "zip_unsupported what = Inl (Error InvalidArgument what)"

section \<open>CRC-32\<close>

definition crc_bit :: "u32 \<Rightarrow> u32" where
  "crc_bit v = (if v AND 1 \<noteq> 0 then drop_bit 1 v XOR 0xEDB88320 else drop_bit 1 v)"

definition make_crc_table :: "u32 list" where
  "make_crc_table = map (\<lambda>i. (crc_bit ^^ 8) (of_nat i)) [0..<256]"

definition crc_step :: "byte \<Rightarrow> u32 \<Rightarrow> u32" where
  "crc_step b crc = make_crc_table ! unat ((crc XOR ucast b) AND 0xFF) XOR drop_bit 8 crc"

definition crc32 :: "bytes \<Rightarrow> u32" where
  "crc32 data = fold crc_step data 0xFFFFFFFF XOR 0xFFFFFFFF"

section \<open>The directory\<close>

record zip_directory =
  dir_offset :: nat
  dir_size :: nat
  dir_entries :: nat

text \<open>A candidate end record: its comment reaches to the end of the archive.\<close>

definition is_end_record :: "bytes \<Rightarrow> nat \<Rightarrow> nat \<Rightarrow> bool" where
  "is_end_record a last_at i \<longleftrightarrow> le32_at a i = kEndOfCentralDirectorySignature \<and> unat (le16_at a (i + 20)) = last_at - i"

definition directory_at :: "bytes \<Rightarrow> nat \<Rightarrow> zip_directory result" where
  "directory_at a i =
     (let total = le16_at a (i + 10); sz = le32_at a (i + 12); off = le32_at a (i + 16) in
      if total = 0xFFFF \<or> sz = 0xFFFFFFFF \<or> off = 0xFFFFFFFF
      then zip_unsupported ''zip: zip64 archives are not supported''
      else if le16_at a (i + 4) \<noteq> 0 \<or> le16_at a (i + 6) \<noteq> 0 \<or> le16_at a (i + 8) \<noteq> total
      then zip_unsupported ''zip: archives spanning several disks are not supported''
      else if unat total > kMaxZipEntries then Inl (Error MessageTooLarge ''zip: too many entries'')
      else if unat off > i \<or> unat sz > i - unat off
      then zip_malformed ''zip: central directory outside the archive''
      else Inr \<lparr>dir_offset = unat off, dir_size = unat sz, dir_entries = unat total\<rparr>)"

definition find_directory :: "bytes \<Rightarrow> zip_directory result" where
  "find_directory a =
     (if length a < kEndOfCentralDirectorySize
      then zip_malformed ''zip: shorter than an end of central directory record''
      else
        let last_at = length a - kEndOfCentralDirectorySize;
            first_at = (if last_at > kMaxCommentLength then last_at - kMaxCommentLength else 0)
        in case find (is_end_record a last_at) (rev [first_at..<Suc last_at]) of
             None \<Rightarrow> zip_malformed ''zip: no end of central directory record''
           | Some i \<Rightarrow> directory_at a i)"

section \<open>Entries\<close>

record zip_entry =
  entry_name :: string
  entry_data :: bytes

definition name_of_bytes :: "bytes \<Rightarrow> string" where "name_of_bytes bs = map (\<lambda>b. char_of (unat b)) bs"

text \<open>The fields of a central directory header that are read.\<close>

record central_header =
  ch_flags :: u16
  ch_method :: u16
  ch_crc :: u32
  ch_compressed :: u32
  ch_uncompressed :: u32
  ch_name_length :: nat
  ch_variable :: nat
  ch_local :: nat

definition central_header_of :: "bytes \<Rightarrow> central_header" where
  "central_header_of header =
     \<lparr>ch_flags = le16_at header 8, ch_method = le16_at header 10, ch_crc = le32_at header 16,
      ch_compressed = le32_at header 20, ch_uncompressed = le32_at header 24, ch_name_length = unat (le16_at header 28),
      ch_variable = unat (le16_at header 28) + unat (le16_at header 30) + unat (le16_at header 32),
      ch_local = unat (le32_at header 42)\<rparr>"

text \<open>The local header and the data behind it, which must lie before the directory.\<close>

definition read_local :: "bytes \<Rightarrow> nat \<Rightarrow> central_header \<Rightarrow> bytes \<Rightarrow> bytes result" where
  "read_local a limit ch name_bytes =
     (let l = ch_local ch in
      if l > limit \<or> kLocalHeaderSize > limit - l \<or> le32_at a l \<noteq> kLocalHeaderSignature
      then zip_malformed ''zip: bad local header''
      else
        let local_name = unat (le16_at a (l + 26));
            local_extra = unat (le16_at a (l + 28));
            room = limit - l - kLocalHeaderSize
        in if local_name \<noteq> ch_name_length ch \<or> local_name + local_extra > room \<or>
             unat (ch_compressed ch) > room - local_name - local_extra
           then zip_malformed ''zip: entry overruns the archive''
           else if subspan (l + kLocalHeaderSize) local_name a \<noteq> name_bytes
           then zip_malformed ''zip: local and central names disagree''
           else
             let data = subspan (l + kLocalHeaderSize + local_name + local_extra) (unat (ch_compressed ch)) a
             in if crc32 data \<noteq> ch_crc ch then zip_malformed ''zip: CRC-32 mismatch'' else Inr data)"

definition read_entry :: "bytes \<Rightarrow> zip_directory \<Rightarrow> nat \<Rightarrow> (zip_entry \<times> nat) result" where
  "read_entry a dir cursor =
     (let fin = dir_offset dir + dir_size dir in
      if kCentralHeaderSize > fin - cursor \<or> le32_at a cursor \<noteq> kCentralHeaderSignature
      then zip_malformed ''zip: bad central directory header''
      else
        let ch = central_header_of (subspan cursor kCentralHeaderSize a);
            name_bytes = subspan (cursor + kCentralHeaderSize) (ch_name_length ch) a
        in if ch_variable ch > fin - cursor - kCentralHeaderSize
           then zip_malformed ''zip: central directory header overruns the directory''
           else if ch_name_length ch = 0 \<or> ch_name_length ch > kMaxZipNameLength
           then zip_malformed ''zip: entry name empty or too long''
           else if ch_flags ch AND (kZipFlagEncrypted OR kZipFlagStrongEncryption) \<noteq> 0
           then zip_unsupported ''zip: encrypted entries are not supported''
           else if ch_method ch = kMethodDeflated
           then zip_unsupported ''zip: deflated entries are not supported; the package must be stored''
           else if ch_method ch \<noteq> kMethodStored
           then zip_unsupported ''zip: compressed entries are not supported''
           else if ch_compressed ch \<noteq> ch_uncompressed ch
           then zip_malformed ''zip: stored entry with two different sizes''
           else case read_local a (dir_offset dir) ch name_bytes of
             Inl e \<Rightarrow> Inl e
           | Inr data \<Rightarrow> Inr (\<lparr>entry_name = name_of_bytes name_bytes, entry_data = data\<rparr>,
               cursor + kCentralHeaderSize + ch_variable ch))"

primrec read_entries :: "bytes \<Rightarrow> zip_directory \<Rightarrow> nat \<Rightarrow> nat \<Rightarrow> zip_entry list \<Rightarrow> zip_entry list result" where
  "read_entries a dir 0 cursor entries = Inr entries"
| "read_entries a dir (Suc k) cursor entries =
     (case read_entry a dir cursor of
        Inl e \<Rightarrow> Inl e
      | Inr (e, cursor') \<Rightarrow>
          if last (entry_name e) = CHR ''/'' then read_entries a dir k cursor' entries
          else if list_ex (\<lambda>other. entry_name other = entry_name e) entries
          then zip_malformed ''zip: a name appears twice''
          else read_entries a dir k cursor' (entries @ [e]))"

definition read_stored_zip :: "bytes \<Rightarrow> zip_entry list result" where
  "read_stored_zip a =
     (case find_directory a of
        Inl e \<Rightarrow> Inl e
      | Inr dir \<Rightarrow> read_entries a dir (dir_entries dir) (dir_offset dir) [])"

section \<open>CRC-32, bit by bit\<close>

text \<open>The division by the reflected polynomial, one bit of the message after the other, lowest bit
  of each byte first.\<close>

definition crc_serial_bit :: "bool \<Rightarrow> u32 \<Rightarrow> u32" where
  "crc_serial_bit b crc = crc_bit (crc XOR of_bool b)"

definition message_bits :: "bytes \<Rightarrow> bool list" where
  "message_bits data = concat (map (\<lambda>b. map (bit b) [0..<8]) data)"

definition crc32_serial :: "bytes \<Rightarrow> u32" where
  "crc32_serial data = fold crc_serial_bit (message_bits data) 0xFFFFFFFF XOR 0xFFFFFFFF"

lemma crc_bit_alt: "crc_bit v = drop_bit 1 v XOR (if bit v 0 then 0xEDB88320 else 0)"
  by (simp add: crc_bit_def and_one_eq bit_0 mod2_eq_if)

lemma crc_bit_xor: "crc_bit (x XOR y) = crc_bit x XOR crc_bit y"
  by (auto simp: crc_bit_alt bit_xor_iff drop_bit_xor ac_simps)

lemma crc_bits_xor: "(crc_bit ^^ k) (x XOR y) = (crc_bit ^^ k) x XOR (crc_bit ^^ k) y"
  by (induction k) (simp_all add: crc_bit_xor)

lemma crc_bits_high: "take_bit k y = 0 \<Longrightarrow> (crc_bit ^^ k) y = drop_bit k y"
proof (induction k)
  case (Suc k)
  have z: "\<not> bit y n" if "n \<le> k" for n using arg_cong [OF Suc.prems, of "\<lambda>x. bit x n"] that by (simp add: bit_take_bit_iff)
  have "take_bit k y = 0" by (rule bit_word_eqI) (use z in \<open>auto simp: bit_take_bit_iff\<close>)
  then have "(crc_bit ^^ Suc k) y = crc_bit (drop_bit k y)" using Suc.IH by simp
  also have "\<dots> = drop_bit (Suc k) y" using z [of k] by (simp add: crc_bit_alt bit_drop_bit_eq)
  finally show ?case .
qed simp

lemma crc_bits_one: "k < 32 \<Longrightarrow> (crc_bit ^^ k) (push_bit k (of_bool b)) = of_bool b"
  by (subst crc_bits_high) (auto simp: take_bit_push_bit intro!: bit_word_eqI simp: bit_simps)

lemma serial_bits:
  "k \<le> 8 \<Longrightarrow> fold crc_serial_bit (map (bit b) [0..<k]) crc = (crc_bit ^^ k) (crc XOR take_bit k (ucast b))" for b :: byte
proof (induction k)
  case (Suc k)
  have t: "take_bit (Suc k) (ucast b) = take_bit k (ucast b) XOR push_bit k (of_bool (bit b k)) " for b :: byte
    by (rule bit_word_eqI) (auto simp: bit_simps less_Suc_eq)
  show ?case using Suc crc_bits_one [of k "bit b k"]
    by (simp add: crc_serial_bit_def t crc_bits_xor xor.assoc [symmetric]) 
qed simp

lemma crc_step_serial: "crc_step b crc = fold crc_serial_bit (map (bit b) [0..<8]) crc"
proof -
  let ?z = "crc XOR ucast b"
  have split: "?z = take_bit 8 ?z XOR push_bit 8 (drop_bit 8 ?z)"
  proof (rule bit_word_eqI)
    fix n
    show "bit ?z n = bit (take_bit 8 ?z XOR push_bit 8 (drop_bit 8 ?z)) n" if "n < LENGTH(32)"
      using that by (cases "n < 8") (simp_all add: bit_xor_iff bit_take_bit_iff bit_push_bit_iff bit_drop_bit_eq)
  qed
  have "drop_bit 8 (ucast b :: u32) = 0" by (rule bit_word_eqI) (auto simp: bit_simps dest: bit_imp_le_length)
  then have d: "drop_bit 8 ?z = drop_bit 8 crc" by (simp add: drop_bit_xor)
  have m: "?z AND 0xFF = take_bit 8 ?z" by (simp add: take_bit_eq_mask mask_eq_exp_minus_1)
  have "(crc_bit ^^ 8) ?z = (crc_bit ^^ 8) (take_bit 8 ?z) XOR (crc_bit ^^ 8) (push_bit 8 (drop_bit 8 ?z))"
    by (subst split) (rule crc_bits_xor)
  also have "(crc_bit ^^ 8) (push_bit 8 (drop_bit 8 ?z)) = drop_bit 8 (push_bit 8 (drop_bit 8 ?z))"
    by (rule crc_bits_high) (simp add: take_bit_push_bit)
  also have "\<dots> = drop_bit 8 crc" unfolding d by (rule bit_word_eqI) (auto simp: bit_simps dest: bit_imp_le_length)
  finally have e: "(crc_bit ^^ 8) ?z = (crc_bit ^^ 8) (take_bit 8 ?z) XOR drop_bit 8 crc" .
  have "unat (take_bit 8 ?z) < 256" unfolding unsigned_take_bit_eq by (simp add: take_bit_eq_mod)
  then have t: "make_crc_table ! unat (take_bit 8 ?z) = (crc_bit ^^ 8) (take_bit 8 ?z)"
    by (simp add: make_crc_table_def)
  have "take_bit 8 (ucast b :: u32) = ucast b" by (rule bit_word_eqI) (auto simp: bit_simps dest: bit_imp_le_length)
  then show ?thesis using serial_bits [of 8 b crc] e t unfolding crc_step_def m by simp
qed

text \<open>
  The table computes CRC-32. The table-driven checksum is the remainder of the bit-serial division
  by the reflected polynomial, over the bits of the message in order.
\<close>

theorem crc32_bit_serial: "crc32 data = crc32_serial data"
proof -
  have "fold crc_step data crc = fold crc_serial_bit (message_bits data) crc" for crc
    by (induction data arbitrary: crc) (simp_all add: message_bits_def crc_step_serial)
  then show ?thesis by (simp add: crc32_def crc32_serial_def)
qed

lemma xor_zero: "x XOR y = 0 \<Longrightarrow> x = y" for x y :: "'a :: len word"
proof (rule bit_word_eqI)
  fix n
  assume "x XOR y = 0"
  from arg_cong [OF this, of "\<lambda>z. bit z n"] show "bit x n = bit y n" by (auto simp: bit_xor_iff)
qed

lemma crc_bit_zero: "crc_bit z = 0 \<Longrightarrow> z = 0"
proof -
  assume z: "crc_bit z = 0"
  have "\<not> bit z 0"
  proof
    assume "bit z 0"
    then have "drop_bit 1 z XOR 0xEDB88320 = 0" using z by (simp add: crc_bit_alt)
    then have "drop_bit 1 z = 0xEDB88320" by (rule xor_zero)
    then have "bit (drop_bit 1 z) 31" by simp
    then show False by (auto simp: bit_drop_bit_eq dest: bit_imp_le_length)
  qed
  then have d: "drop_bit 1 z = 0" using z by (simp add: crc_bit_alt)
  have "\<not> bit z n" for n
  proof (cases n)
    case (Suc m)
    then show ?thesis using arg_cong [OF d, of "\<lambda>x. bit x m"] by (simp add: bit_drop_bit_eq)
  qed (use \<open>\<not> bit z 0\<close> in simp)
  then show "z = 0" by (intro bit_word_eqI) simp
qed

lemma crc_bits_inj: "(crc_bit ^^ k) x = (crc_bit ^^ k) y \<Longrightarrow> x = y"
proof (induction k)
  case (Suc k)
  then have "crc_bit ((crc_bit ^^ k) x XOR (crc_bit ^^ k) y) = 0" by (simp add: crc_bit_xor)
  then have "(crc_bit ^^ k) x XOR (crc_bit ^^ k) y = 0" by (rule crc_bit_zero)
  then have "(crc_bit ^^ k) x = (crc_bit ^^ k) y" by (rule xor_zero)
  then show ?case by (rule Suc.IH)
qed simp

lemma crc_step_alt: "crc_step b crc = (crc_bit ^^ 8) (crc XOR ucast b)"
proof -
  have "take_bit 8 (ucast b :: u32) = ucast b" by (rule bit_word_eqI) (auto simp: bit_simps dest: bit_imp_le_length)
  then show ?thesis using serial_bits [of 8 b crc] by (simp add: crc_step_serial)
qed

lemma xor_right_inj: "x XOR z = y XOR z \<Longrightarrow> x = y" for x y z :: "'a :: semiring_bit_operations"
  by (metis xor.assoc xor_self_eq xor.right_neutral)

text \<open>A change inside one byte always changes the checksum.\<close>

lemma crc32_detects: "b \<noteq> b' \<Longrightarrow> crc32 (p @ b # s) \<noteq> crc32 (p @ b' # s)"
proof -
  have inj: "fold crc_step s x = fold crc_step s y \<Longrightarrow> x = y" for x y
    by (induction s arbitrary: x y) (auto simp: crc_step_alt dest!: crc_bits_inj xor_right_inj)
  assume "b \<noteq> b'"
  then have "(ucast b :: u32) \<noteq> ucast b'"
    using unat_u8_less [of b] unat_u8_less [of b'] by (simp add: word_unat_eq_iff unsigned_ucast_eq take_bit_eq_mod del: unat_u8_less)
  then have "crc_step b c \<noteq> crc_step b' c" for c
    by (metis crc_bits_inj crc_step_alt xor.commute xor_right_inj)
  then show ?thesis using inj by (auto simp: crc32_def dest!: xor_right_inj)
qed

section \<open>What is read lies in the archive\<close>

text \<open>Where an entry stands: its record in the directory, its local header and its data.\<close>

definition stored_in :: "bytes \<Rightarrow> zip_entry \<Rightarrow> bool" where
  "stored_in a e \<longleftrightarrow> (\<exists>record_at extra. let l = unat (le32_at a (record_at + 42)); n = length (entry_name e) in
     le32_at a record_at = kCentralHeaderSignature \<and> le32_at a l = kLocalHeaderSignature \<and>
     record_at + kCentralHeaderSize \<le> length a \<and> l + kLocalHeaderSize + n + extra + length (entry_data e) \<le> length a \<and>
     entry_name e = name_of_bytes (subspan (l + kLocalHeaderSize) n a) \<and>
     entry_data e = subspan (l + kLocalHeaderSize + n + extra) (length (entry_data e)) a \<and>
     crc32 (entry_data e) = le32_at a (record_at + 16) \<and> length (entry_data e) = unat (le32_at a (record_at + 20)))"

definition dir_ok :: "bytes \<Rightarrow> zip_directory \<Rightarrow> bool" where
  "dir_ok a d \<longleftrightarrow> dir_offset d + dir_size d \<le> length a \<and> dir_entries d \<le> kMaxZipEntries"

lemma find_in: "find P xs = Some x \<Longrightarrow> x \<in> set xs \<and> P x"
  by (induction xs) (auto split: if_splits)

lemma find_directory_ok:
  assumes "find_directory a = Inr d"
  shows "dir_ok a d"
proof -
  let ?last = "length a - kEndOfCentralDirectorySize"
  obtain i k where i: "find (is_end_record a ?last) (rev [k..<Suc ?last]) = Some i" "directory_at a i = Inr d"
    using assms unfolding find_directory_def zip_malformed_def Let_def by (auto split: if_splits option.splits simp del: upt_Suc)
  have "i \<le> ?last" using find_in [OF i(1)] by auto
  with i(2) show ?thesis
    by (auto simp: directory_at_def dir_ok_def zip_malformed_def zip_unsupported_def Let_def split: if_splits)
qed

lemma le16_subspan: "i + 2 \<le> n \<Longrightarrow> c + n \<le> length a \<Longrightarrow> le16_at (subspan c n a) i = le16_at a (c + i)"
  by (simp add: le16_at_def subspan_def add.assoc)

lemma le32_subspan: "i + 4 \<le> n \<Longrightarrow> c + n \<le> length a \<Longrightarrow> le32_at (subspan c n a) i = le32_at a (c + i)"
  by (simp add: le32_at_def le16_subspan add.assoc)

lemma central_header_at:
  assumes "cursor + kCentralHeaderSize \<le> length a"
  shows "ch_crc (central_header_of (subspan cursor kCentralHeaderSize a)) = le32_at a (cursor + 16)"
    "ch_compressed (central_header_of (subspan cursor kCentralHeaderSize a)) = le32_at a (cursor + 20)"
    "ch_local (central_header_of (subspan cursor kCentralHeaderSize a)) = unat (le32_at a (cursor + 42))"
    "ch_name_length (central_header_of (subspan cursor kCentralHeaderSize a)) \<le> ch_variable (central_header_of (subspan cursor kCentralHeaderSize a))"
  using assms by (simp_all add: central_header_of_def le32_subspan kCentralHeaderSize_def)

lemma read_local_ok:
  assumes "read_local a limit ch name = Inr data"
  shows "\<exists>extra. le32_at a (ch_local ch) = kLocalHeaderSignature \<and>
    ch_local ch + kLocalHeaderSize + ch_name_length ch + extra + unat (ch_compressed ch) \<le> limit \<and>
    name = subspan (ch_local ch + kLocalHeaderSize) (ch_name_length ch) a \<and>
    data = subspan (ch_local ch + kLocalHeaderSize + ch_name_length ch + extra) (unat (ch_compressed ch)) a \<and>
    crc32 data = ch_crc ch"
  using assms
  by (intro exI [of _ "unat (le16_at a (ch_local ch + 28))"])
    (auto simp: read_local_def zip_malformed_def Let_def kLocalHeaderSize_def split: if_splits)

lemma read_entry_ok:
  assumes "read_entry a d cursor = Inr (e, cursor')" and "dir_ok a d"
  shows "stored_in a e" "entry_name e \<noteq> []" "length (entry_name e) \<le> kMaxZipNameLength"
proof -
  let ?ch = "central_header_of (subspan cursor kCentralHeaderSize a)"
  let ?name = "subspan (cursor + kCentralHeaderSize) (ch_name_length ?ch) a"
  have c: "cursor + kCentralHeaderSize + ch_variable ?ch \<le> dir_offset d + dir_size d" "le32_at a cursor = kCentralHeaderSignature"
    "ch_name_length ?ch \<noteq> 0" "ch_name_length ?ch \<le> kMaxZipNameLength"
    "entry_name e = name_of_bytes ?name" "read_local a (dir_offset d) ?ch ?name = Inr (entry_data e)"
    using assms(1) by (auto simp: read_entry_def Let_def zip_malformed_def zip_unsupported_def kCentralHeaderSize_def split: if_splits sum.splits)
  have l: "dir_offset d + dir_size d \<le> length a" using assms(2) by (simp add: dir_ok_def)
  then have b: "cursor + kCentralHeaderSize \<le> length a" using c(1) by simp
  note ch = central_header_at [OF b]
  obtain extra where x: "le32_at a (ch_local ?ch) = kLocalHeaderSignature"
    "ch_local ?ch + kLocalHeaderSize + ch_name_length ?ch + extra + unat (ch_compressed ?ch) \<le> dir_offset d"
    "?name = subspan (ch_local ?ch + kLocalHeaderSize) (ch_name_length ?ch) a"
    "entry_data e = subspan (ch_local ?ch + kLocalHeaderSize + ch_name_length ?ch + extra) (unat (ch_compressed ?ch)) a"
    "crc32 (entry_data e) = ch_crc ?ch" using read_local_ok [OF c(6)] by blast
  have n: "length (entry_name e) = ch_name_length ?ch" using c(1,5) l ch(4) by (simp add: name_of_bytes_def)
  have dl: "length (entry_data e) = unat (ch_compressed ?ch)" using x(2,4) l by simp
  show "stored_in a e" unfolding stored_in_def Let_def
    by (rule exI [of _ cursor], rule exI [of _ extra]) (use x c b l n dl ch in simp)
  show "entry_name e \<noteq> []" "length (entry_name e) \<le> kMaxZipNameLength" using n c(3,4) by auto
qed

lemma read_entries_sound:
  assumes "read_entries a d k cursor es = Inr es'" and "dir_ok a d"
    and "list_all (stored_in a) es" "distinct (map entry_name es)"
    and "list_all (\<lambda>e. entry_name e \<noteq> [] \<and> length (entry_name e) \<le> kMaxZipNameLength \<and> last (entry_name e) \<noteq> CHR ''/'') es"
  shows "list_all (stored_in a) es' \<and> length es' \<le> length es + k \<and> distinct (map entry_name es') \<and>
    list_all (\<lambda>e. entry_name e \<noteq> [] \<and> length (entry_name e) \<le> kMaxZipNameLength \<and> last (entry_name e) \<noteq> CHR ''/'') es'"
  using assms
proof (induction k arbitrary: cursor es)
  case (Suc k)
  obtain e c where e: "read_entry a d cursor = Inr (e, c)" using Suc.prems(1) by (auto split: sum.splits)
  note ok = read_entry_ok [OF e assms(2)]
  show ?case
  proof (cases "last (entry_name e) = CHR ''/''")
    case True
    then show ?thesis using Suc.IH [of c es] Suc.prems e by auto
  next
    case False
    then have "entry_name e \<notin> entry_name ` set es" "read_entries a d k c (es @ [e]) = Inr es'"
      using Suc.prems(1) e by (auto simp: zip_malformed_def list_ex_iff split: if_splits)
    then show ?thesis using Suc.IH [of c "es @ [e]"] Suc.prems(2-) ok False by auto
  qed
qed simp


section \<open>Archives written\<close>

text \<open>
  A file of an archive, with everything a writer may choose: bytes before its local header, the
  fields the reader passes over, extra fields and a comment.
\<close>

record stored_file =
  sf_name :: string
  sf_data :: bytes
  sf_gap :: bytes
  sf_local_fields :: bytes
  sf_local_extra :: bytes
  sf_versions :: bytes
  sf_flags :: u16
  sf_times :: bytes
  sf_attributes :: bytes
  sf_extra :: bytes
  sf_comment :: bytes

definition bytes_of_name :: "string \<Rightarrow> bytes" where "bytes_of_name = map of_char"

definition local_record :: "stored_file \<Rightarrow> bytes" where
  "local_record f = le32_bytes kLocalHeaderSignature @ sf_local_fields f @ le16_bytes (of_nat (length (sf_name f))) @
     le16_bytes (of_nat (length (sf_local_extra f))) @ bytes_of_name (sf_name f) @ sf_local_extra f @ sf_data f"

definition central_fields :: "nat \<Rightarrow> stored_file \<Rightarrow> bytes" where
  "central_fields l f = le32_bytes kCentralHeaderSignature @ sf_versions f @ le16_bytes (sf_flags f) @
     le16_bytes kMethodStored @ sf_times f @ le32_bytes (crc32 (sf_data f)) @ le32_bytes (of_nat (length (sf_data f))) @
     le32_bytes (of_nat (length (sf_data f))) @ le16_bytes (of_nat (length (sf_name f))) @
     le16_bytes (of_nat (length (sf_extra f))) @ le16_bytes (of_nat (length (sf_comment f))) @ sf_attributes f @
     le32_bytes (of_nat l)"

definition central_record :: "nat \<Rightarrow> stored_file \<Rightarrow> bytes" where
  "central_record l f = central_fields l f @ bytes_of_name (sf_name f) @ sf_extra f @ sf_comment f"

primrec files_part :: "stored_file list \<Rightarrow> bytes" where
  "files_part [] = []"
| "files_part (f # fs) = sf_gap f @ local_record f @ files_part fs"

primrec central_part :: "nat \<Rightarrow> stored_file list \<Rightarrow> bytes" where
  "central_part i [] = []"
| "central_part i (f # fs) = central_record (i + length (sf_gap f)) f @
     central_part (i + length (sf_gap f) + length (local_record f)) fs"

definition end_record :: "nat \<Rightarrow> nat \<Rightarrow> nat \<Rightarrow> bytes" where
  "end_record n sz off = le32_bytes kEndOfCentralDirectorySignature @ le16_bytes 0 @ le16_bytes 0 @ le16_bytes (of_nat n) @
     le16_bytes (of_nat n) @ le32_bytes (of_nat sz) @ le32_bytes (of_nat off) @ le16_bytes 0"

definition zip_bytes :: "stored_file list \<Rightarrow> bytes" where
  "zip_bytes fs = files_part fs @ central_part 0 fs @
     end_record (length fs) (length (central_part 0 fs)) (length (files_part fs))"

definition stored_ok :: "stored_file \<Rightarrow> bool" where
  "stored_ok f \<longleftrightarrow> sf_name f \<noteq> [] \<and> length (sf_name f) \<le> kMaxZipNameLength \<and> last (sf_name f) \<noteq> CHR ''/'' \<and>
     length (sf_local_fields f) = 22 \<and> length (sf_versions f) = 4 \<and> length (sf_times f) = 4 \<and> length (sf_attributes f) = 8 \<and>
     length (sf_local_extra f) < 2 ^ 16 \<and> length (sf_extra f) < 2 ^ 16 \<and> length (sf_comment f) < 2 ^ 16 \<and>
     sf_flags f AND (kZipFlagEncrypted OR kZipFlagStrongEncryption) = 0"

definition entry_of :: "stored_file \<Rightarrow> zip_entry" where
  "entry_of f = \<lparr>entry_name = sf_name f, entry_data = sf_data f\<rparr>"

lemma le16_at_load: "le16_at bs i = load_le16 bs i"
  by (simp add: le16_at_def load_le16_def le16_def)

lemma le32_at_load: "le32_at bs i = load_le32 bs i"
proof -
  have "push_bit 16 (ucast (ucast b OR push_bit 8 (ucast c) :: u16)) = push_bit 16 (ucast b) OR (push_bit 24 (ucast c) :: u32)" for b c :: byte
    by (rule bit_word_eqI) (auto simp: bit_simps dest: bit_imp_le_length)
  moreover have "ucast (ucast b OR push_bit 8 (ucast c) :: u16) = ucast b OR (push_bit 8 (ucast c) :: u32)" for b c :: byte
    by (rule bit_word_eqI) (auto simp: bit_simps dest: bit_imp_le_length)
  ultimately show ?thesis by (simp add: le32_at_def le16_at_def load_le32_def le32_def or.assoc add.assoc numeral_3_eq_3)
qed

lemma le_at_bytes [simp]:
  "le16_at (le16_bytes v @ r) 0 = v" "le32_at (le32_bytes w @ r) 0 = w"
  by (simp_all add: le16_at_load load_le16_def le16_bytes_def le32_at_load load_le32_def le32_bytes_def)

lemma le_at_append:
  "le16_at (p @ r) (length p + i) = le16_at r i" "le32_at (p @ r) (length p + i) = le32_at r i"
  by (simp_all add: le16_at_def le32_at_def nth_append numeral_3_eq_3)

lemma name_round [simp]: "name_of_bytes (bytes_of_name s) = s" "length (bytes_of_name s) = length s"
proof -
  have "unat (of_char c :: u8) = of_char c" for c
  proof -
    have "unat (of_nat (of_char c) :: u8) = of_char c mod 256" by (simp only: unat_of_nat) simp
    then show ?thesis by (simp only: of_nat_of_char of_char_mod_256)
  qed
  then show "name_of_bytes (bytes_of_name s) = s" "length (bytes_of_name s) = length s"
    by (simp_all add: name_of_bytes_def bytes_of_name_def comp_def)
qed

lemma length_central_fields: "stored_ok f \<Longrightarrow> length (central_fields l f) = 46"
  by (simp add: central_fields_def stored_ok_def le16_bytes_def le32_bytes_def)

lemma central_header_written:
  assumes "stored_ok f" and "l < 2 ^ 32" and "length (sf_data f) < 2 ^ 32"
  shows "central_header_of (central_fields l f) = \<lparr>ch_flags = sf_flags f, ch_method = kMethodStored, ch_crc = crc32 (sf_data f),
      ch_compressed = of_nat (length (sf_data f)), ch_uncompressed = of_nat (length (sf_data f)), ch_name_length = length (sf_name f),
      ch_variable = length (sf_name f) + length (sf_extra f) + length (sf_comment f), ch_local = l\<rparr>"
  using assms
  by (simp add: central_header_of_def central_fields_def stored_ok_def le16_at_load le32_at_load load_le16_def load_le32_def
      le16_bytes_def le32_bytes_def nth_append unat_of_nat kMaxZipNameLength_def)

lemma subspan_middle: "subspan (length p) (length q) (p @ q @ r) = q"
  by (simp add: subspan_def)

lemma read_local_written:
  assumes "stored_ok f" and "a = l0 @ local_record f @ l1" and "length l0 + length (local_record f) \<le> limit"
    and "length (sf_data f) < 2 ^ 32"
    and "ch_local ch = length l0" "ch_name_length ch = length (sf_name f)" "ch_compressed ch = of_nat (length (sf_data f))"
      "ch_crc ch = crc32 (sf_data f)"
  shows "read_local a limit ch (bytes_of_name (sf_name f)) = Inr (sf_data f)"
proof -
  define fx where "fx = le32_bytes kLocalHeaderSignature @ sf_local_fields f @ le16_bytes (of_nat (length (sf_name f))) @
    le16_bytes (of_nat (length (sf_local_extra f)))"
  have fixed: "length fx = kLocalHeaderSize"
    using assms(1) by (simp add: fx_def stored_ok_def le32_bytes_def le16_bytes_def kLocalHeaderSize_def)
  have a: "a = l0 @ fx @ bytes_of_name (sf_name f) @ sf_local_extra f @ sf_data f @ l1"
    using assms(2) by (simp add: local_record_def fx_def)
  have f26: "le16_at (fx @ r) 26 = of_nat (length (sf_name f))" "le16_at (fx @ r) 28 = of_nat (length (sf_local_extra f))"
    "le32_at (fx @ r) 0 = kLocalHeaderSignature" for r
    using assms(1)
    by (simp_all add: fx_def stored_ok_def le16_at_load le32_at_load load_le16_def load_le32_def le16_bytes_def le32_bytes_def nth_append)
  have at: "le32_at a (length l0) = kLocalHeaderSignature" "unat (le16_at a (length l0 + 26)) = length (sf_name f)"
    "unat (le16_at a (length l0 + 28)) = length (sf_local_extra f)"
    using assms(1) le_at_append(2) [of l0 _ 0] f26 unfolding a
    by (simp_all add: le_at_append unat_of_nat stored_ok_def kMaxZipNameLength_def)
  have n: "subspan (length l0 + kLocalHeaderSize) (length (sf_name f)) a = bytes_of_name (sf_name f)"
    using subspan_middle [of "l0 @ fx" "bytes_of_name (sf_name f)" "sf_local_extra f @ sf_data f @ l1"] fixed
    by (simp add: a)
  have d: "subspan (length l0 + kLocalHeaderSize + length (sf_name f) + length (sf_local_extra f)) (length (sf_data f)) a = sf_data f"
    using subspan_middle [of "l0 @ fx @ bytes_of_name (sf_name f) @ sf_local_extra f" "sf_data f" l1] fixed
    by (simp add: a add.assoc)
  have len: "length (local_record f) = kLocalHeaderSize + length (sf_name f) + length (sf_local_extra f) + length (sf_data f)"
    using fixed by (simp add: local_record_def fx_def)
  have room: "\<not> limit - length l0 < kLocalHeaderSize" "\<not> limit - length l0 - kLocalHeaderSize < length (sf_name f) + length (sf_local_extra f)"
    "\<not> limit - length l0 - kLocalHeaderSize - length (sf_name f) - length (sf_local_extra f) < length (sf_data f)"
    using assms(3) len by linarith+
  show ?thesis
    using assms(3-) at n d room by (simp add: read_local_def Let_def unat_of_nat add.assoc)
qed

lemma length_central_record:
  "stored_ok f \<Longrightarrow> length (central_record l f) = 46 + length (sf_name f) + length (sf_extra f) + length (sf_comment f)"
  by (simp add: central_record_def length_central_fields)

lemma read_entry_written:
  assumes "stored_ok f" and "a = c0 @ central_record (length l0) f @ c1" and "a = l0 @ local_record f @ l1"
    and "length c0 + length (central_record (length l0) f) \<le> dir_offset d + dir_size d"
    and "length l0 + length (local_record f) \<le> dir_offset d" and "dir_offset d < 2 ^ 32"
  shows "read_entry a d (length c0) = Inr (entry_of f, length c0 + length (central_record (length l0) f))"
proof -
  have dl: "length (sf_data f) < 2 ^ 32" "length l0 < 2 ^ 32" using assms(5,6) by (simp_all add: local_record_def)
  have a: "a = c0 @ central_fields (length l0) f @ bytes_of_name (sf_name f) @ sf_extra f @ sf_comment f @ c1"
    using assms(2) by (simp add: central_record_def)
  have h: "subspan (length c0) kCentralHeaderSize a = central_fields (length l0) f"
    using subspan_middle [of c0 "central_fields (length l0) f"] length_central_fields [OF assms(1)]
    by (simp add: a kCentralHeaderSize_def)
  have n: "subspan (length c0 + kCentralHeaderSize) (length (sf_name f)) a = bytes_of_name (sf_name f)"
    using subspan_middle [of "c0 @ central_fields (length l0) f" "bytes_of_name (sf_name f)" "sf_extra f @ sf_comment f @ c1"]
      length_central_fields [OF assms(1)]
    by (simp add: a kCentralHeaderSize_def)
  have sig: "le32_at a (length c0) = kCentralHeaderSignature"
    using le_at_append(2) [of c0 _ 0] by (simp add: a central_fields_def)
  note ch = central_header_written [OF assms(1) dl(2,1)]
  have l: "read_local a (dir_offset d) (central_header_of (central_fields (length l0) f)) (bytes_of_name (sf_name f)) = Inr (sf_data f)"
    using read_local_written [OF assms(1,3,5) dl(1)] ch by simp
  note len = length_central_record [OF assms(1), of "length l0"]
  have room: "\<not> dir_offset d + dir_size d - length c0 < 46"
    "\<not> dir_offset d + dir_size d - length c0 - 46 < length (sf_name f) + length (sf_extra f) + length (sf_comment f)"
    using assms(4) len by linarith+
  show ?thesis
    using assms(1) h n sig l ch len room
    by (simp add: read_entry_def Let_def kCentralHeaderSize_def stored_ok_def kMethodStored_def kMethodDeflated_def entry_of_def)
qed

lemma read_entries_written:
  assumes "list_all stored_ok fs" and "distinct (map entry_name es @ map sf_name fs)"
    and "a = front @ files_part fs @ mid @ central_part (length front) fs @ rest"
    and "c = length (front @ files_part fs @ mid)" and "c + length (central_part (length front) fs) \<le> dir_offset d + dir_size d"
    and "length (front @ files_part fs) \<le> dir_offset d" and "dir_offset d < 2 ^ 32"
  shows "read_entries a d (length fs) c es = Inr (es @ map entry_of fs)"
  using assms
proof (induction fs arbitrary: front mid c es)
  case (Cons f fs)
  let ?l = "front @ sf_gap f"
  have e: "read_entry a d c = Inr (entry_of f, c + length (central_record (length ?l) f))"
  proof -
    have c0: "a = (front @ files_part (f # fs) @ mid) @ central_record (length ?l) f @
        central_part (length ?l + length (local_record f)) fs @ rest"
      using Cons.prems(3) by (simp add: add.assoc)
    have l0: "a = ?l @ local_record f @ files_part fs @ mid @ central_part (length front) (f # fs) @ rest"
      using Cons.prems(3) by simp
    show ?thesis using read_entry_written [OF _ c0 l0, of d] Cons.prems(1,4-7) by simp
  qed
  have "sf_name f \<notin> entry_name ` set es" using Cons.prems(2) by auto
  then have n: "last (entry_name (entry_of f)) \<noteq> CHR ''/''" "\<not> list_ex (\<lambda>x. entry_name x = entry_name (entry_of f)) es"
    using Cons.prems(1) by (auto simp: entry_of_def stored_ok_def list_ex_iff image_iff)
  have "read_entries a d (length fs) (c + length (central_record (length ?l) f)) (es @ [entry_of f]) = Inr ((es @ [entry_of f]) @ map entry_of fs)"
    by (rule Cons.IH [of "es @ [entry_of f]" "?l @ local_record f" "mid @ central_record (length ?l) f"])
      (use Cons.prems in \<open>auto simp: entry_of_def add.assoc\<close>)
  then show ?case using e n by simp
qed simp

lemma zip_read_back:
  assumes "list_all stored_ok fs" and "distinct (map sf_name fs)" and "length fs \<le> kMaxZipEntries"
    and "length (zip_bytes fs) < 2 ^ 32"
  shows "read_stored_zip (zip_bytes fs) = Inr (map entry_of fs)"
proof -
  let ?a = "zip_bytes fs" and ?o = "length (files_part fs)" and ?s = "length (central_part 0 fs)"
  let ?e = "end_record (length fs) ?s ?o" and ?d = "\<lparr>dir_offset = ?o, dir_size = ?s, dir_entries = length fs\<rparr>"
  have a: "?a = (files_part fs @ central_part 0 fs) @ ?e" by (simp add: zip_bytes_def)
  have len: "length ?e = 22" by (simp add: end_record_def le16_bytes_def le32_bytes_def)
  have small: "?o + ?s < 2 ^ 32 - 22" using assms(4) len by (simp add: a)
  have f: "le32_at ?e 0 = kEndOfCentralDirectorySignature" "le16_at ?e 4 = 0" "le16_at ?e 6 = 0" "le16_at ?e 8 = of_nat (length fs)"
    "le16_at ?e 10 = of_nat (length fs)" "le32_at ?e 12 = of_nat ?s" "le32_at ?e 16 = of_nat ?o" "le16_at ?e 20 = 0"
    by (simp_all add: end_record_def le16_at_load le32_at_load load_le16_def load_le32_def le16_bytes_def le32_bytes_def nth_append)
  have at: "le16_at ?a (?o + ?s + i) = le16_at ?e i" "le32_at ?a (?o + ?s + i) = le32_at ?e i" for i
    using le_at_append [of "files_part fs @ central_part 0 fs" ?e i] by (simp_all add: a)
  have last: "length ?a - kEndOfCentralDirectorySize = ?o + ?s" using len by (simp add: a kEndOfCentralDirectorySize_def)
  have "is_end_record ?a (?o + ?s) (?o + ?s)" using at(2) [of 0] at(1) [of 20] f by (simp add: is_end_record_def)
  then have "find_directory ?a = directory_at ?a (?o + ?s)"
    using len last by (simp add: find_directory_def Let_def) (simp add: a kEndOfCentralDirectorySize_def)
  also have "\<dots> = Inr ?d"
  proof -
    have u: "unat (of_nat (length fs) :: u16) = length fs" "unat (of_nat ?s :: u32) = ?s" "unat (of_nat ?o :: u32) = ?o"
      using assms(3) small by (simp_all add: unat_of_nat kMaxZipEntries_def)
    have "(of_nat (length fs) :: u16) \<noteq> 0xFFFF" "(of_nat ?s :: u32) \<noteq> 0xFFFFFFFF" "(of_nat ?o :: u32) \<noteq> 0xFFFFFFFF"
      using u assms(3) small by (auto simp: word_unat_eq_iff kMaxZipEntries_def)
    then show ?thesis using u assms(3) by (simp add: directory_at_def at f Let_def)
  qed
  finally have dir: "find_directory ?a = Inr ?d" .
  have "read_entries ?a ?d (length fs) ?o [] = Inr ([] @ map entry_of fs)"
    by (rule read_entries_written [where front = "[]" and mid = "[]" and rest = ?e])
      (use assms(1,2) small in \<open>simp_all add: zip_bytes_def\<close>)
  then show ?thesis unfolding read_stored_zip_def dir by simp
qed


definition demo_file :: "string \<Rightarrow> bytes \<Rightarrow> stored_file" where
  "demo_file n data = \<lparr>sf_name = n, sf_data = data, sf_gap = [1, 2, 3], sf_local_fields = replicate 22 9, sf_local_extra = [4],
     sf_versions = [5, 5, 5, 5], sf_flags = 0x800, sf_times = [6, 6, 6, 6], sf_attributes = replicate 8 0, sf_extra = [7, 7],
     sf_comment = [8]\<rparr>"

lemma demo_file_ok: "n \<noteq> [] \<Longrightarrow> length n \<le> 255 \<Longrightarrow> last n \<noteq> CHR ''/'' \<Longrightarrow> stored_ok (demo_file n data)"
  by (simp add: stored_ok_def demo_file_def kMaxZipNameLength_def kZipFlagEncrypted_def kZipFlagStrongEncryption_def)

lemma demo_files_length:
  "length (local_record (demo_file n data)) = 31 + length n + length data" "length (central_record l (demo_file n data)) = 49 + length n"
  "length (end_record k sz off) = 22" "length (sf_gap (demo_file n data)) = 3"
  by (simp_all add: local_record_def central_record_def central_fields_def end_record_def demo_file_def le16_bytes_def le32_bytes_def)



end
