(* ===== verification/DfuPackage.thy ===== *)
theory DfuPackage
  imports JsonGrammar StoredZip FirmwareUpdater
begin

text \<open>
  Multi-image packages: \<open>support/dfu_package/dfu_package.hpp\<close> and \<open>.cpp\<close>, and the part of
  \<open>support/dfu_app/update_inputs.cpp\<close> that makes the targets of an update from one. A package is a
  stored zip with a \<open>manifest.json\<close>; its claims are checked against the images' own headers. Shown:
  (in \<open>PackageProperties\<close>) what a package that is accepted guarantees, that the dependencies
  written into an image are read, that the board check accepts exactly the matching packages, and that
  an accepted package gives an update the updater accepts.
\<close>

section \<open>The package\<close>

definition kMaxPackageSize :: nat where "kMaxPackageSize = 64 * 1024 * 1024"
definition kMaxImageIndex :: u32 where "kMaxImageIndex = 255"
definition kTlvDependency :: u16 where "kTlvDependency = 0x40"
definition kDependencySize :: nat where "kDependencySize = 12"
definition kMaxReasonLength :: nat where "kMaxReasonLength = 128"

record image_dependency =
  dep_image :: u8
  dep_minimum :: image_version

record package_build =
  pb_file :: string
  pb_bytes :: bytes
  pb_header :: image_info
  pb_slot :: u32

record package_image =
  pi_file :: string
  pi_image :: u32
  pi_bytes :: bytes
  pi_header :: image_info
  pi_version :: "string option"
  pi_board :: "string option"
  pi_soc :: "string option"
  pi_dependencies :: "image_dependency list"
  pi_slot :: "u32 option"
  pi_secondary :: "package_build option"

record dfu_package =
  format_version :: "u64 option"
  package_name :: "string option"
  package_images :: "package_image list"

abbreviation pkg_malformed :: "string \<Rightarrow> 'a result" where
  "pkg_malformed what \<equiv> Inl (Error MalformedMessage what)"

section \<open>Dependencies\<close>

definition tlv_area_at :: "bytes \<Rightarrow> nat \<Rightarrow> (u16 \<times> nat) option" where
  "tlv_area_at bs i =
     (if i > length bs \<or> kTlvHeaderSize > length bs - i then None
      else Some (le16_at bs i, unat (le16_at bs (i + 2))))"

text \<open>Where the entries begin, where the protected ones end, where all end.\<close>

definition dependency_layout :: "bytes \<Rightarrow> image_info \<Rightarrow> tlv_layout result" where
  "dependency_layout bs header =
     (let base = unat (header_size header) + unat (image_size header) in
      case tlv_area_at bs base of
        None \<Rightarrow> pkg_malformed ''package: an image has no TLV area''
      | Some (magic, area) \<Rightarrow>
          (case (if magic = kTlvProtInfoMagic then
                   if area \<noteq> unat (protected_tlv_size header) \<or> area < kTlvHeaderSize
                   then pkg_malformed ''package: an image's protected TLV size disagrees with its header''
                   else (case tlv_area_at bs (base + area) of
                       None \<Rightarrow> pkg_malformed ''package: an image has no unprotected TLV area''
                     | Some (magic2, area2) \<Rightarrow>
                         if magic2 \<noteq> kTlvInfoMagic then pkg_malformed ''package: an image has no unprotected TLV area''
                         else Inr (base + area, area2))
                 else if magic \<noteq> kTlvInfoMagic \<or> protected_tlv_size header \<noteq> 0
                 then pkg_malformed ''package: an image has no TLV area''
                 else Inr (base, area)) of
             Inl e \<Rightarrow> Inl e
           | Inr (prot_end, unprotected) \<Rightarrow>
               if unprotected < kTlvHeaderSize \<or> unprotected > length bs - prot_end
               then pkg_malformed ''package: an image's TLV area extends past its end''
               else Inr \<lparr>first = base + kTlvHeaderSize, protected_end = prot_end, end_of_tlvs = prot_end + unprotected\<rparr>))"

definition dependency_of :: "bytes \<Rightarrow> image_dependency" where
  "dependency_of v = \<lparr>dep_image = v ! 0, dep_minimum = \<lparr>major = v ! 4, minor = v ! 5, revision = le16_at v 6, build = le32_at v 8\<rparr>\<rparr>"

function dependency_scan ::
    "bytes \<Rightarrow> image_info \<Rightarrow> tlv_layout \<Rightarrow> nat \<Rightarrow> nat \<Rightarrow> image_dependency list \<Rightarrow> image_dependency list result" where
  "dependency_scan bs header layout offset visited deps =
     (if offset < end_of_tlvs layout then
        if visited = kMaxImageTlvs then pkg_malformed ''package: an image has too many TLV entries''
        else if protected_tlv_size header \<noteq> 0 \<and> offset = protected_end layout
        then dependency_scan bs header layout (offset + kTlvHeaderSize) (visited + 1) deps
        else if kTlvHeaderSize > end_of_tlvs layout - offset
        then pkg_malformed ''package: a TLV entry overruns its area''
        else
          let type = le16_at bs offset; tlv_len = unat (le16_at bs (offset + 2)) in
          if tlv_len > end_of_tlvs layout - offset - kTlvHeaderSize
          then pkg_malformed ''package: a TLV entry overruns its area''
          else if type = kTlvDependency \<and> tlv_len \<noteq> kDependencySize
          then pkg_malformed ''package: a dependency TLV has the wrong length''
          else dependency_scan bs header layout (offset + kTlvHeaderSize + tlv_len) (visited + 1)
            (if type = kTlvDependency
             then deps @ [dependency_of (subspan (offset + kTlvHeaderSize) kDependencySize bs)] else deps)
      else Inr deps)"
  by pat_completeness auto
termination
  by (relation "measure (\<lambda>(_, _, layout, offset, _). end_of_tlvs layout - offset)") (auto simp: kTlvHeaderSize_def)

declare dependency_scan.simps [simp del]

definition read_dependencies :: "bytes \<Rightarrow> image_info \<Rightarrow> image_dependency list result" where
  "read_dependencies bs header =
     (case dependency_layout bs header of
        Inl e \<Rightarrow> Inl e
      | Inr layout \<Rightarrow> dependency_scan bs header layout (first layout) 0 [])"

section \<open>The manifest\<close>

definition optional_text :: "json \<Rightarrow> string \<Rightarrow> string option result" where
  "optional_text obj key =
     (case json_find key obj of
        None \<Rightarrow> Inr None
      | Some (JString t) \<Rightarrow> Inr (Some t)
      | Some _ \<Rightarrow> pkg_malformed ''package: a manifest field is not a string'')"

definition small_number :: "json \<Rightarrow> string \<Rightarrow> u32 \<Rightarrow> string \<Rightarrow> string \<Rightarrow> u32 option result" where
  "small_number entry key max_value malformed_text range_text =
     (case json_find key entry of
        None \<Rightarrow> Inr None
      | Some v \<Rightarrow>
          (case (case v of JString t \<Rightarrow> as_uint (JNumber t) | _ \<Rightarrow> as_uint v) of
             None \<Rightarrow> pkg_malformed malformed_text
           | Some n \<Rightarrow>
               if n > ucast max_value then Inl (Error InvalidArgument range_text) else Inr (Some (ucast n))))"

definition image_index :: "json \<Rightarrow> u32 option result" where
  "image_index entry = small_number entry ''image_index'' kMaxImageIndex
     ''package: image_index is not a non-negative integer'' ''package: image_index out of range''"

definition slot_of :: "json \<Rightarrow> u32 option result" where
  "slot_of entry = small_number entry ''slot'' (kMaxImageIndex * 2 + 1)
     ''package: slot is not a non-negative integer'' ''package: slot out of range''"

text \<open>The three texts of an entry, and the key a direct-XIP build writes its version under.\<close>

definition read_texts :: "json \<Rightarrow> (string option \<times> string option \<times> string option) result" where
  "read_texts entry =
     (case optional_text entry ''version_MCUBOOT'' of
        Inl e \<Rightarrow> Inl e
      | Inr ver \<Rightarrow>
          (case optional_text entry ''board'' of
             Inl e \<Rightarrow> Inl e
           | Inr board \<Rightarrow>
               (case optional_text entry ''soc'' of
                  Inl e \<Rightarrow> Inl e
                | Inr soc \<Rightarrow>
                    if ver \<noteq> None then Inr (ver, board, soc)
                    else (case optional_text entry ''version_MCUBOOT+XIP'' of
                        Inl e \<Rightarrow> Inl e
                      | Inr xip \<Rightarrow> Inr (xip, board, soc)))))"

text \<open>The file an entry names, with the size it states.\<close>

definition read_file :: "json \<Rightarrow> zip_entry list \<Rightarrow> zip_entry result" where
  "read_file entry zip_entries =
     (case optional_text entry ''file'' of
        Inl e \<Rightarrow> Inl e
      | Inr None \<Rightarrow> pkg_malformed ''package: a files[] entry has no file name''
      | Inr (Some name) \<Rightarrow>
          (case find (\<lambda>c. entry_name c = name) zip_entries of
             None \<Rightarrow> pkg_malformed ''package: the manifest names a file the zip does not hold''
           | Some z \<Rightarrow>
               (case json_find ''size'' entry of
                  None \<Rightarrow> Inr z
                | Some v \<Rightarrow>
                    (case as_uint v of
                       None \<Rightarrow> pkg_malformed ''package: a file's size disagrees with the manifest''
                     | Some n \<Rightarrow>
                         if unat n \<noteq> length (entry_data z)
                         then pkg_malformed ''package: a file's size disagrees with the manifest'' else Inr z))))"

text \<open>The header of a file, against the version the manifest states, and its dependencies.\<close>

definition read_header :: "bytes \<Rightarrow> string option \<Rightarrow> (image_info \<times> image_dependency list) result" where
  "read_header bs ver =
     (if length bs < kMcubootHeaderSize then pkg_malformed ''package: a file is too short to be an MCUboot image''
      else case parse_mcuboot_header (take kMcubootHeaderSize bs) of
        Inl e \<Rightarrow> Inl e
      | Inr header \<Rightarrow>
          if (case ver of None \<Rightarrow> False | Some v \<Rightarrow> ImageVersion_parse v \<noteq> Inr (info_version header))
          then pkg_malformed ''package: version_MCUBOOT disagrees with the image header''
          else (case read_dependencies bs header of Inl e \<Rightarrow> Inl e | Inr deps \<Rightarrow> Inr (header, deps)))"

definition read_image :: "json \<Rightarrow> zip_entry list \<Rightarrow> bool \<Rightarrow> package_image result" where
  "read_image entry zip_entries single =
     (if (case entry of JObject _ \<Rightarrow> False | _ \<Rightarrow> True) then pkg_malformed ''package: a files[] entry is not an object''
      else case read_file entry zip_entries of
        Inl e \<Rightarrow> Inl e
      | Inr z \<Rightarrow>
          (case image_index entry of
             Inl e \<Rightarrow> Inl e
           | Inr index \<Rightarrow>
               if index = None \<and> \<not> single then pkg_malformed ''package: a files[] entry has no image_index''
               else (case slot_of entry of
                  Inl e \<Rightarrow> Inl e
                | Inr slot \<Rightarrow>
                    (case read_texts entry of
                       Inl e \<Rightarrow> Inl e
                     | Inr (ver, board, soc) \<Rightarrow>
                         (case read_header (entry_data z) ver of
                            Inl e \<Rightarrow> Inl e
                          | Inr (header, deps) \<Rightarrow>
                              Inr \<lparr>pi_file = entry_name z, pi_image = (case index of None \<Rightarrow> 0 | Some i \<Rightarrow> i),
                                pi_bytes = entry_data z, pi_header = header, pi_version = ver, pi_board = board,
                                pi_soc = soc, pi_dependencies = deps, pi_slot = slot, pi_secondary = None\<rparr>)))))"

section \<open>Images of a package\<close>

definition pair_builds :: "package_image \<Rightarrow> package_image \<Rightarrow> package_image result" where
  "pair_builds one two =
     (if pi_secondary one \<noteq> None then Inl (Error InvalidArgument ''package: more than two files for one image'')
      else
        let primary = pi_image one * 2;
            pair = (pi_slot one = Some primary \<and> pi_slot two = Some (primary + 1) \<or>
                    pi_slot one = Some (primary + 1) \<and> pi_slot two = Some primary)
        in if \<not> pair
           then Inl (Error InvalidArgument ''package: two files for one image that are not a direct-XIP pair'')
           else if info_version (pi_header one) \<noteq> info_version (pi_header two)
           then pkg_malformed ''package: the two builds of a direct-XIP image differ in version''
           else if pi_board one \<noteq> pi_board two
           then pkg_malformed ''package: the two builds of a direct-XIP image differ in board''
           else let (one_build, other_build) = (if pi_slot one \<noteq> Some primary then (two, one) else (one, two))
                in Inr (one_build\<lparr>pi_secondary := Some \<lparr>pb_file = pi_file other_build, pb_bytes = pi_bytes other_build,
                     pb_header = pi_header other_build, pb_slot = primary + 1\<rparr>\<rparr>))"

text \<open>An image among those read so far: a new one, or the second build of one.\<close>

fun add_image :: "package_image \<Rightarrow> package_image list \<Rightarrow> package_image list result" where
  "add_image img [] = Inr [img]"
| "add_image img (other # imgs) =
     (if pi_image other = pi_image img
      then (case pair_builds other img of Inl e \<Rightarrow> Inl e | Inr paired \<Rightarrow> Inr (paired # imgs))
      else (case add_image img imgs of Inl e \<Rightarrow> Inl e | Inr imgs' \<Rightarrow> Inr (other # imgs')))"

fun read_images :: "json list \<Rightarrow> zip_entry list \<Rightarrow> bool \<Rightarrow> package_image list \<Rightarrow> package_image list result" where
  "read_images [] zip_entries single imgs = Inr imgs"
| "read_images (entry # entries) zip_entries single imgs =
     (case read_image entry zip_entries single of
        Inl e \<Rightarrow> Inl e
      | Inr img \<Rightarrow>
          (case add_image img imgs of
             Inl e \<Rightarrow> Inl e
           | Inr imgs' \<Rightarrow> read_images entries zip_entries single imgs'))"

definition satisfies :: "image_version \<Rightarrow> image_version \<Rightarrow> bool" where
  "satisfies v least =
     (if major v \<noteq> major least then major v > major least
      else if minor v \<noteq> minor least then minor v > minor least
      else revision v \<ge> revision least)"

definition dependency_broken :: "package_image list \<Rightarrow> image_dependency \<Rightarrow> bool" where
  "dependency_broken imgs dep =
     (case find (\<lambda>other. pi_image other = ucast (dep_image dep)) imgs of
        None \<Rightarrow> False
      | Some partner \<Rightarrow> \<not> satisfies (info_version (pi_header partner)) (dep_minimum dep))"

definition check_dependencies :: "package_image list \<Rightarrow> unit result" where
  "check_dependencies imgs =
     (if list_ex (\<lambda>img. list_ex (dependency_broken imgs) (pi_dependencies img)) imgs
      then Inl (Error InvalidArgument ''package: an image needs a newer version of another image than the package carries'')
      else Inr ())"

text \<open>The files the manifest lists.\<close>

definition manifest_files :: "json \<Rightarrow> json list result" where
  "manifest_files manifest =
     (case json_find ''files'' manifest of
        Some (JArray items) \<Rightarrow>
          if items = [] then pkg_malformed ''package: the manifest lists no files''
          else if length items > kMaxZipEntries
          then Inl (Error MessageTooLarge ''package: the manifest lists too many files'')
          else Inr items
      | _ \<Rightarrow> pkg_malformed ''package: the manifest lists no files'')"

definition read_format_version :: "json \<Rightarrow> u64 option result" where
  "read_format_version manifest =
     (case json_find ''format-version'' manifest of
        None \<Rightarrow> Inr None
      | Some v \<Rightarrow>
          (case as_uint v of
             None \<Rightarrow> pkg_malformed ''package: format-version is not a non-negative integer''
           | Some n \<Rightarrow> Inr (Some n)))"

definition gather_images :: "json list \<Rightarrow> zip_entry list \<Rightarrow> package_image list result" where
  "gather_images files zip_entries =
     (case read_images files zip_entries (length files = 1) [] of
        Inl e \<Rightarrow> Inl e
      | Inr imgs \<Rightarrow>
          if length (filter (\<lambda>i. pi_secondary i \<noteq> None) imgs) > 1
          then Inl (Error InvalidArgument ''package: a direct-XIP split image (QSPI XIP, internal and external parts) is not supported'')
          else
            let sorted_images = sort_key (\<lambda>i. unat (pi_image i)) imgs in
            (case check_dependencies sorted_images of Inl e \<Rightarrow> Inl e | Inr _ \<Rightarrow> Inr sorted_images))"

definition read_manifest :: "json \<Rightarrow> zip_entry list \<Rightarrow> dfu_package result" where
  "read_manifest manifest zip_entries =
     (if (case manifest of JObject _ \<Rightarrow> False | _ \<Rightarrow> True) then pkg_malformed ''package: manifest.json is not an object''
      else case read_format_version manifest of
        Inl e \<Rightarrow> Inl e
      | Inr format \<Rightarrow>
          (case optional_text manifest ''name'' of
             Inl e \<Rightarrow> Inl e
           | Inr name \<Rightarrow>
               (case manifest_files manifest of
                  Inl e \<Rightarrow> Inl e
                | Inr files \<Rightarrow>
                    (case gather_images files zip_entries of
                       Inl e \<Rightarrow> Inl e
                     | Inr imgs \<Rightarrow>
                         Inr \<lparr>format_version = format, package_name = name, package_images = imgs\<rparr>))))"

definition read_package :: "bytes \<Rightarrow> dfu_package result" where
  "read_package archive =
     (if length archive > kMaxPackageSize then Inl (Error MessageTooLarge ''package: larger than kMaxPackageSize'')
      else case read_stored_zip archive of
        Inl e \<Rightarrow> Inl e
      | Inr zip_entries \<Rightarrow>
          (case find (\<lambda>e. entry_name e = ''manifest.json'') zip_entries of
             None \<Rightarrow> pkg_malformed ''package: no manifest.json''
           | Some m \<Rightarrow>
               if length (entry_data m) > kMaxJsonSize
               then Inl (Error MessageTooLarge ''package: manifest.json too large'')
               else (case parse_json (name_of_bytes (entry_data m)) of
                  Inl e \<Rightarrow> Inl e
                | Inr manifest \<Rightarrow> read_manifest manifest zip_entries)))"

section \<open>Boards\<close>

definition board_name :: "string \<Rightarrow> string" where
  "board_name board = takeWhile (\<lambda>c. c \<noteq> CHR ''/'' \<and> c \<noteq> CHR ''@'') board"

definition BoardName_parse :: "string \<Rightarrow> string result" where
  "BoardName_parse board =
     (if board_name board = []
      then Inl (Error InvalidArgument (''board: names no board name before its first '' @ CHR 0x27 # ''/'' @ CHR 0x27 # '' or '' @
        CHR 0x27 # ''@'' @ [CHR 0x27]))
      else Inr (board_name board))"

definition board_refusal :: "string \<Rightarrow> string \<Rightarrow> 'a result" where
  "board_refusal place text = Inl ((Error InvalidArgument place)\<lparr>reason := take kMaxReasonLength text\<rparr>)"

fun check_images_board :: "string \<Rightarrow> package_image list \<Rightarrow> unit result" where
  "check_images_board wanted [] = Inr ()"
| "check_images_board wanted (img # imgs) =
     (let index = decimal (unat (pi_image img)) in
      case pi_board img of
        None \<Rightarrow> board_refusal ''package: an image names no board'' (''image '' @ index @ '': the manifest names no board'')
      | Some board \<Rightarrow>
          if board_name board \<noteq> wanted
          then board_refusal ''package: an image is for another board''
            (''image '' @ index @ '': expected board name '' @ CHR 0x22 # wanted @ CHR 0x22 # '', the manifest says '' @
              CHR 0x22 # board @ [CHR 0x22])
          else check_images_board wanted imgs)"

definition check_board :: "dfu_package \<Rightarrow> string \<Rightarrow> unit result" where
  "check_board package expected = check_images_board expected (package_images package)"

section \<open>The targets of an update\<close>

definition package_target :: "package_image \<Rightarrow> file_target" where
  "package_target i =
     \<lparr>ft_image = pi_image i, ft_source = Some (MemoryImageSource (pi_bytes i)),
      ft_commit = (if pi_image i = 0 then Commit_Client else Commit_Device),
      ft_secondary = map_option (\<lambda>b. MemoryImageSource (pb_bytes b)) (pi_secondary i)\<rparr>"

definition from_package_bytes :: "bytes \<Rightarrow> string option \<Rightarrow> file_target list result" where
  "from_package_bytes bs expected_board =
     (case read_package bs of
        Inl e \<Rightarrow> Inl e
      | Inr package \<Rightarrow>
          (case (case expected_board of None \<Rightarrow> Inr () | Some b \<Rightarrow> check_board package b) of
             Inl e \<Rightarrow> Inl e
           | Inr _ \<Rightarrow> Inr (map package_target (package_images package))))"

definition parse_board :: "string \<Rightarrow> string option" where
  "parse_board text = (case BoardName_parse text of Inl _ \<Rightarrow> None | Inr b \<Rightarrow> Some b)"

definition parse_update_mode :: "string \<Rightarrow> update_mode option" where
  "parse_update_mode text =
     (if text = ''test-then-confirm'' then Some Mode_TestThenConfirm
      else if text = ''confirm-immediately'' then Some Mode_ConfirmImmediately
      else if text = ''upload-only'' then Some Mode_UploadOnly
      else None)"

fun set_commit :: "u32 \<Rightarrow> commit_by \<Rightarrow> file_target list \<Rightarrow> file_target list result" where
  "set_commit img by_whom [] = Inl (Error InvalidArgument ''inputs: no such image'')"
| "set_commit img by_whom (t # ts) =
     (if ft_image t = img then Inr (t\<lparr>ft_commit := by_whom\<rparr> # ts)
      else (case set_commit img by_whom ts of Inl e \<Rightarrow> Inl e | Inr ts' \<Rightarrow> Inr (t # ts')))"

definition parse_commit :: "string \<Rightarrow> (u32 \<times> commit_by) option" where
  "parse_commit text =
     (let ds = takeWhile (\<lambda>c. c \<noteq> CHR ''='') text; rest = dropWhile (\<lambda>c. c \<noteq> CHR ''='') text in
      if ds = [] \<or> rest = [] \<or> length ds > 3 \<or> \<not> list_all Json.is_digit ds then None
      else
        let img = fold (\<lambda>c n. n * 10 + of_nat (of_char c - 48)) ds (0 :: u32) in
        if tl rest = ''client'' then Some (img, Commit_Client)
        else if tl rest = ''device'' then Some (img, Commit_Device)
        else None)"

end
