(* ===== verification/PackageProperties.thy ===== *)
theory PackageProperties
  imports DfuPackage
begin

text \<open>
  What the reader of packages guarantees: every claim of the manifest that the update relies on is
  checked against the files themselves, the images are in order and fit together, the dependencies are
  those written into the images, and an accepted package starts the update it describes.
\<close>

section \<open>Dependencies are read\<close>

lemma unat_ranges: "unat (a :: u8) < 256" "unat (b :: u16) < 65536" "unat (c :: u32) < 2 ^ 32"
  using unsigned_less [of a, where 'a = nat] unsigned_less [of b, where 'a = nat] unsigned_less [of c, where 'a = nat] by simp_all

lemma unat_widen: "unat (ucast (b :: u16) :: u32) = unat b" "unat (ucast (c :: u32) :: u64) = unat c"
proof -
  have "unat b < 2 ^ 32" using unat_ranges(2) [of b] by (rule less_le_trans) simp
  moreover have "unat c < 2 ^ 64" using unat_ranges(3) [of c] by (rule less_le_trans) simp
  ultimately show "unat (ucast b :: u32) = unat b" "unat (ucast c :: u64) = unat c"
    by (simp_all add: unsigned_ucast_eq take_bit_nat_eq_self)
qed

lemma tlv_area_at_load:
  "tlv_area_at bs i = (if i + 4 \<le> length bs then Some (load_le16 bs i, unat (load_le16 bs (i + 2))) else None)"
  by (auto simp: tlv_area_at_def kTlvHeaderSize_def le16_at_load)

lemma area_size_iff: "unat (area :: u16) = unat (prot :: u32) \<longleftrightarrow> prot = ucast area"
  unfolding word_unat_eq_iff unat_widen by (rule eq_commute)

text \<open>
  The reader of packages and the library find an image's TLV areas with code of their own; where one
  accepts a file the other does, with the same bounds.
\<close>

lemma dependency_layout_same:
  "dependency_layout bs header = Inr layout \<longleftrightarrow> resolve_layout (MemoryImageSource bs) header = Inr layout"
proof -
  let ?b = "through_body header"
  let ?area = "load_le16 bs (?b + 2)" and ?src = "MemoryImageSource bs"
  note defs = dependency_layout_def resolve_layout_def unprotected_area_def Let_def memory.read_area_header_contents
    memory.size_contents tlv_area_at_load area_size_iff kTlvHeaderSize_def
  have b: "unat (header_size header) + unat (image_size header) = ?b" by (simp add: through_body_def)
  show ?thesis
  proof (cases "?b + 4 \<le> length bs")
    case False
    then show ?thesis by (simp add: defs b)
  next
    case True
    show ?thesis
    proof (cases "load_le16 bs ?b = kTlvProtInfoMagic")
      case False
      then show ?thesis using True by (auto simp: defs b)
    next
      case prot: True
      show ?thesis
      proof (cases "protected_tlv_size header = ucast ?area")
        case False
        then show ?thesis using True prot by (simp add: defs b)
      next
        case same: True
        then show ?thesis using True prot by (auto simp: defs b unat_widen)
      qed
    qed
  qed
qed

text \<open>What a build writes for a dependency, its padding being whatever it is.\<close>

definition dependency_bytes :: "bytes \<Rightarrow> image_dependency \<Rightarrow> bytes" where
  "dependency_bytes pd d = dep_image d # pd @ major (dep_minimum d) # minor (dep_minimum d) #
     le16_bytes (revision (dep_minimum d)) @ le32_bytes (build (dep_minimum d))"

definition dependency_payloads :: "(u16 \<times> bytes) list \<Rightarrow> bytes list" where
  "dependency_payloads es = map snd (filter (\<lambda>e. fst e = kTlvDependency) es)"

definition dependency_entry_ok :: "u16 \<times> bytes \<Rightarrow> bool" where
  "dependency_entry_ok e \<longleftrightarrow> length (snd e) < 65536 \<and> (fst e = kTlvDependency \<longrightarrow> length (snd e) = kDependencySize)"

lemma dependency_of_bytes [simp]:
  assumes "length pd = 3"
  shows "dependency_of (dependency_bytes pd d) = d"
proof -
  obtain a b c where "pd = [a, b, c]" using assms by (auto simp: length_Suc_conv numeral_eq_Suc)
  then show ?thesis
    by (simp add: dependency_of_def dependency_bytes_def le16_at_load le32_at_load load_le16_def load_le32_def
        le16_bytes_def le32_bytes_def)
qed

lemma entry_fields:
  "le16_at (front @ tlv_entry (t, p) @ rest) (length front) = t"
  "le16_at (front @ tlv_entry (t, p) @ rest) (length front + 2) = of_nat (length p)"
  "subspan (length front + 4) (length p) (front @ tlv_entry (t, p) @ rest) = p"
proof -
  let ?hd = "front @ le16_bytes t @ le16_bytes (of_nat (length p))"
  show "le16_at (front @ tlv_entry (t, p) @ rest) (length front) = t"
    "le16_at (front @ tlv_entry (t, p) @ rest) (length front + 2) = of_nat (length p)"
    by (simp_all add: tlv_entry_def le16_at_load load_le16_def le16_bytes_def nth_append)
  have "length ?hd = length front + 4" by (simp add: le16_bytes_def)
  then show "subspan (length front + 4) (length p) (front @ tlv_entry (t, p) @ rest) = p"
    using subspan_exact [OF refl, of ?hd p rest] by (simp add: tlv_entry_def)
qed

lemma dependency_scan_run:
  "bs = front @ concat (map tlv_entry es) @ rest \<Longrightarrow> list_all dependency_entry_ok es \<Longrightarrow>
   visited + length es \<le> kMaxImageTlvs \<Longrightarrow>
   length front + length (concat (map tlv_entry es)) \<le> end_of_tlvs layout \<Longrightarrow>
   protected_tlv_size info = 0 \<or> protected_end layout < length front \<or>
     length front + length (concat (map tlv_entry es)) \<le> protected_end layout \<Longrightarrow>
   dependency_scan bs info layout (length front) visited deps =
     dependency_scan bs info layout (length front + length (concat (map tlv_entry es))) (visited + length es)
       (deps @ map dependency_of (dependency_payloads es))"
proof (induction es arbitrary: front visited deps)
  case Nil
  then show ?case by (simp add: dependency_payloads_def)
next
  case (Cons e es)
  obtain t p where e: "e = (t, p)" by fastforce
  let ?front = "front @ tlv_entry (t, p)" and ?rest = "concat (map tlv_entry es) @ rest"
  have bs: "bs = front @ tlv_entry (t, p) @ ?rest" using Cons.prems(1) e by simp
  have ok: "length p < 65536" "t = kTlvDependency \<Longrightarrow> length p = kDependencySize"
    using Cons.prems(2) e by (simp_all add: dependency_entry_ok_def)
  note f = entry_fields [where front = front and t = t and p = p and rest = ?rest, folded bs]
  have n: "unat (le16_at bs (length front + 2)) = length p" using f(2) ok(1) by (simp add: unat_of_nat)
  have room: "length front < end_of_tlvs layout" "visited \<noteq> kMaxImageTlvs"
    "\<not> (protected_tlv_size info \<noteq> 0 \<and> length front = protected_end layout)"
    "\<not> kTlvHeaderSize > end_of_tlvs layout - length front"
    "\<not> length p > end_of_tlvs layout - length front - kTlvHeaderSize"
    using Cons.prems(3-5) e by (auto simp: kTlvHeaderSize_def)
  have "dependency_scan bs info layout (length front) visited deps =
      dependency_scan bs info layout (length ?front) (visited + 1)
        (deps @ map dependency_of (dependency_payloads [e]))"
    using ok f(1,3) n room e
    by (subst dependency_scan.simps)
      (auto simp: Let_def dependency_payloads_def kTlvHeaderSize_def kDependencySize_def add.assoc)
  also have "\<dots> = dependency_scan bs info layout (length ?front + length (concat (map tlv_entry es))) (visited + 1 + length es)
        ((deps @ map dependency_of (dependency_payloads [e])) @ map dependency_of (dependency_payloads es))"
    using Cons.prems e bs by (intro Cons.IH) auto
  finally show ?case using e by (simp add: add.assoc dependency_payloads_def)
qed

lemma dependency_scan_to_end:
  assumes "bs = front @ concat (map tlv_entry es) @ rest" and "list_all dependency_entry_ok es"
    and "visited + length es \<le> kMaxImageTlvs"
    and "end_of_tlvs layout = length front + length (concat (map tlv_entry es))"
    and "protected_tlv_size info = 0 \<or> protected_end layout < length front"
  shows "dependency_scan bs info layout (length front) visited deps =
    Inr (deps @ map dependency_of (dependency_payloads es))"
proof -
  have "dependency_scan bs info layout (end_of_tlvs layout) n ds = Inr ds" for n ds
    by (subst dependency_scan.simps) simp
  then show ?thesis using dependency_scan_run [OF assms(1-3), of layout info deps] assms(4,5) by auto
qed

lemma dependencies_unprotected:
  assumes "through_body info = length pre" and "protected_tlv_size info = 0"
    and "length (tlv_area kTlvInfoMagic unprot) < 65536"
    and "list_all dependency_entry_ok unprot" and "length unprot \<le> kMaxImageTlvs"
  shows "read_dependencies (tlv_file pre None unprot trail) info = Inr (map dependency_of (dependency_payloads unprot))"
proof -
  obtain hd where hd: "tlv_area kTlvInfoMagic unprot = hd @ concat (map tlv_entry unprot)" "length hd = 4"
    by (rule tlv_area_split)
  have bs: "tlv_file pre None unprot trail = (pre @ hd) @ concat (map tlv_entry unprot) @ trail"
    using hd by (simp add: tlv_file_def)
  show ?thesis
    using dependency_layout_same [THEN iffD2, OF layout_unprotected [OF assms(1-3)]]
      dependency_scan_to_end [OF bs assms(4), of 0 _ info "[]"] assms(2,5) hd
    by (simp add: read_dependencies_def)
qed

lemma dependencies_protected:
  assumes pre: "through_body info = length pre"
    and size: "protected_tlv_size info = of_nat (length (tlv_area kTlvProtInfoMagic prot))"
    and short: "length (tlv_area kTlvProtInfoMagic prot) < 65536" "length (tlv_area kTlvInfoMagic unprot) < 65536"
    and ok: "list_all dependency_entry_ok (prot @ unprot)" and few: "length prot + length unprot < kMaxImageTlvs"
  shows "read_dependencies (tlv_file pre (Some prot) unprot trail) info =
    Inr (map dependency_of (dependency_payloads (prot @ unprot)))"
proof -
  let ?prot = "tlv_area kTlvProtInfoMagic prot" and ?area = "tlv_area kTlvInfoMagic unprot"
  let ?bs = "tlv_file pre (Some prot) unprot trail"
  let ?layout = "\<lparr>first = length pre + 4, protected_end = length pre + length ?prot,
    end_of_tlvs = length pre + length ?prot + length ?area\<rparr>"
  obtain hd where hd: "?area = hd @ concat (map tlv_entry unprot)" "length hd = 4" by (rule tlv_area_split)
  obtain hdp where hdp: "?prot = hdp @ concat (map tlv_entry prot)" "length hdp = 4" by (rule tlv_area_split)
  have bs1: "?bs = (pre @ hdp) @ concat (map tlv_entry prot) @ ?area @ trail" using hdp by (simp add: tlv_file_def)
  have bs2: "?bs = (pre @ ?prot @ hd) @ concat (map tlv_entry unprot) @ trail" using hd by (simp add: tlv_file_def)
  note psize = protected_size [OF size short(1)]
  have "dependency_scan ?bs info ?layout (length (pre @ hdp)) 0 [] =
      dependency_scan ?bs info ?layout (length pre + length ?prot) (length prot) (map dependency_of (dependency_payloads prot))"
    using dependency_scan_run [OF bs1, of 0 ?layout info "[]"] ok few hdp by (simp add: add.assoc)
  also have "\<dots> = dependency_scan ?bs info ?layout (length (pre @ ?prot @ hd)) (length prot + 1)
      (map dependency_of (dependency_payloads prot))"
    using psize hd few by (subst dependency_scan.simps) (simp add: kTlvHeaderSize_def add.assoc)
  also have "\<dots> = Inr (map dependency_of (dependency_payloads prot) @ map dependency_of (dependency_payloads unprot))"
    using ok few hd by (intro dependency_scan_to_end [OF bs2]) simp_all
  finally show ?thesis
    using dependency_layout_same [THEN iffD2, OF layout_protected [OF pre size short]] hdp
    by (simp add: read_dependencies_def dependency_payloads_def)
qed

text \<open>
  Dependencies round-trip. From an image whose TLV areas, protected or not, carry dependency
  entries written for \<open>ds\<close> among any others, exactly the dependencies \<open>ds\<close> are read, in order.
\<close>

theorem dependencies_roundtrip:
  assumes "through_body info = length pre"
    and "protected_tlv_size info = (case prot of None \<Rightarrow> 0 | Some es \<Rightarrow> of_nat (length (tlv_area kTlvProtInfoMagic es)))"
    and "case prot of None \<Rightarrow> True | Some es \<Rightarrow> length (tlv_area kTlvProtInfoMagic es) < 65536"
    and "length (tlv_area kTlvInfoMagic unprot) < 65536"
    and "list_all dependency_entry_ok (concat (case prot of None \<Rightarrow> [] | Some es \<Rightarrow> [es]) @ unprot)"
    and "length (concat (case prot of None \<Rightarrow> [] | Some es \<Rightarrow> [es]) @ unprot) < kMaxImageTlvs"
    and "dependency_payloads (concat (case prot of None \<Rightarrow> [] | Some es \<Rightarrow> [es]) @ unprot) =
      map (\<lambda>(pd, d). dependency_bytes pd d) ds"
    and "list_all (\<lambda>(pd, d). length pd = 3) ds"
  shows "read_dependencies (tlv_file pre prot unprot trail) info = Inr (map snd ds)"
proof -
  have again: "map dependency_of (map (\<lambda>(pd, d). dependency_bytes pd d) ds) = map snd ds"
    using assms(8) by (auto simp: list_all_iff)
  show ?thesis
  proof (cases prot)
    case None
    then show ?thesis using assms dependencies_unprotected [of info pre unprot trail] again by simp
  next
    case (Some es)
    then show ?thesis using assms dependencies_protected [of info pre es unprot trail] again by simp
  qed
qed

theorem dependencies_roundtrip_witness:
  "read_dependencies (tlv_file (replicate 40 0) (Some [(0x50, [1]), (kTlvDependency,
      dependency_bytes [7, 7, 7] \<lparr>dep_image = 1, dep_minimum = \<lparr>major = 1, minor = 2, revision = 300, build = 70000\<rparr>\<rparr>)])
      [(0x10, replicate 32 5)] [9])
     (demo_info\<lparr>header_size := 32, image_size := 8, protected_tlv_size := 25\<rparr>) =
   Inr [\<lparr>dep_image = 1, dep_minimum = \<lparr>major = 1, minor = 2, revision = 300, build = 70000\<rparr>\<rparr>]"
proof -
  let ?d = "\<lparr>dep_image = 1, dep_minimum = \<lparr>major = 1, minor = 2, revision = 300, build = 70000\<rparr>\<rparr>"
  have len: "length (dependency_bytes [7, 7, 7] ?d) = 12"
    by (simp add: dependency_bytes_def le16_bytes_def le32_bytes_def)
  show ?thesis
    using dependencies_roundtrip [of "demo_info\<lparr>header_size := 32, image_size := 8, protected_tlv_size := 25\<rparr>" "replicate 40 0"
        "Some [(0x50, [1]), (kTlvDependency, dependency_bytes [7, 7, 7] ?d)]" "[(0x10, replicate 32 5)]" "[([7, 7, 7], ?d)]" "[9]"]
      len
    by (simp add: through_body_def length_tlv_area dependency_entry_ok_def dependency_payloads_def kTlvDependency_def
        kDependencySize_def kMaxImageTlvs_def)
qed

section \<open>What an accepted package guarantees\<close>

text \<open>A build of the package: a file of the archive, whose header is the one that is reported.\<close>

definition build_checked :: "zip_entry list \<Rightarrow> string \<Rightarrow> bytes \<Rightarrow> image_info \<Rightarrow> bool" where
  "build_checked zs f bs h \<longleftrightarrow> \<lparr>entry_name = f, entry_data = bs\<rparr> \<in> set zs \<and>
     kMcubootHeaderSize \<le> length bs \<and> parse_mcuboot_header (take kMcubootHeaderSize bs) = Inr h"

definition secondary_checked :: "zip_entry list \<Rightarrow> package_image \<Rightarrow> bool" where
  "secondary_checked zs i \<longleftrightarrow> (case pi_secondary i of None \<Rightarrow> True | Some b \<Rightarrow>
     build_checked zs (pb_file b) (pb_bytes b) (pb_header b) \<and> pi_slot i = Some (pi_image i * 2) \<and>
     pb_slot b = pi_image i * 2 + 1 \<and> info_version (pb_header b) = info_version (pi_header i))"

definition image_checked :: "zip_entry list \<Rightarrow> package_image \<Rightarrow> bool" where
  "image_checked zs i \<longleftrightarrow> build_checked zs (pi_file i) (pi_bytes i) (pi_header i) \<and>
     read_dependencies (pi_bytes i) (pi_header i) = Inr (pi_dependencies i) \<and>
     (case pi_version i of None \<Rightarrow> True | Some v \<Rightarrow> ImageVersion_parse v = Inr (info_version (pi_header i))) \<and>
     pi_image i \<le> kMaxImageIndex \<and> secondary_checked zs i"

definition version_rank :: "image_version \<Rightarrow> nat" where
  "version_rank v = unat (major v) * 2 ^ 24 + unat (minor v) * 2 ^ 16 + unat (revision v)"

lemma satisfies_rank: "satisfies v least \<longleftrightarrow> version_rank least \<le> version_rank v"
proof -
  have "(if a \<noteq> x then x < a else if b \<noteq> y then y < b else z \<le> c) \<longleftrightarrow> x * 2 ^ 24 + y * 2 ^ 16 + z \<le> a * 2 ^ 24 + b * 2 ^ 16 + c"
    if "b < 256" "y < 256" "c < 65536" "z < 65536" for a b c x y z :: nat
    using that by auto
  from this [OF unat_ranges(1) [of "minor v"] unat_ranges(1) [of "minor least"] unat_ranges(2) [of "revision v"]
      unat_ranges(2) [of "revision least"], of "unat (major v)" "unat (major least)"]
  show ?thesis
    unfolding satisfies_def version_rank_def word_less_nat_alt word_le_nat_alt word_unat_eq_iff .
qed

lemma small_number_bound:
  assumes "small_number entry key limit m r = Inr (Some n)"
  shows "n \<le> limit"
proof -
  obtain k :: u64 where "n = ucast k" "\<not> k > ucast limit"
    using assms unfolding small_number_def by (auto split: option.splits if_splits)
  then have k: "unat k \<le> unat limit" "n = ucast k" by (simp_all add: word_less_nat_alt unat_widen)
  then have "take_bit 32 (unat k) = unat k"
    using unat_ranges(3) [of limit] by (intro take_bit_nat_eq_self) linarith
  then show ?thesis using k by (simp add: word_le_nat_alt unsigned_ucast_eq)
qed

lemma read_file_held:
  assumes "read_file entry zs = Inr z"
  shows "z \<in> set zs"
  using assms by (auto simp: read_file_def find_Some_iff split: sum.splits option.splits if_splits)

lemma read_header_checked:
  assumes "read_header bs ver = Inr (h, deps)"
  shows "kMcubootHeaderSize \<le> length bs \<and> parse_mcuboot_header (take kMcubootHeaderSize bs) = Inr h \<and>
    read_dependencies bs h = Inr deps \<and> (case ver of None \<Rightarrow> True | Some v \<Rightarrow> ImageVersion_parse v = Inr (info_version h))"
  using assms by (auto simp: read_header_def split: sum.splits if_splits option.splits)

lemma read_image_checked:
  assumes "read_image entry zs single = Inr i"
  shows "image_checked zs i \<and> pi_secondary i = None"
proof -
  obtain z index slot ver board soc header deps where
    r: "read_file entry zs = Inr z" "image_index entry = Inr index" "read_header (entry_data z) ver = Inr (header, deps)"
    and i: "i = \<lparr>pi_file = entry_name z, pi_image = (case index of None \<Rightarrow> 0 | Some i \<Rightarrow> i),
      pi_bytes = entry_data z, pi_header = header, pi_version = ver, pi_board = board,
      pi_soc = soc, pi_dependencies = deps, pi_slot = slot, pi_secondary = None\<rparr>"
    using assms unfolding read_image_def by (auto split: sum.splits if_splits prod.splits)
  have z: "\<lparr>entry_name = entry_name z, entry_data = entry_data z\<rparr> = z" by (cases z) simp
  have "\<lparr>entry_name = entry_name z, entry_data = entry_data z\<rparr> \<in> set zs" unfolding z by (rule read_file_held [OF r(1)])
  moreover have "(case index of None \<Rightarrow> 0 | Some i \<Rightarrow> i) \<le> kMaxImageIndex"
    using r(2) by (cases index) (auto simp: image_index_def dest: small_number_bound)
  ultimately show ?thesis
    using read_header_checked [OF r(3)]
    by (auto simp: image_checked_def build_checked_def secondary_checked_def i split: option.split)
qed

lemma pair_builds_cases:
  assumes "pair_builds one two = Inr i"
  obtains p q where "i = p\<lparr>pi_secondary := Some \<lparr>pb_file = pi_file q, pb_bytes = pi_bytes q, pb_header = pi_header q,
      pb_slot = pi_image one * 2 + 1\<rparr>\<rparr>"
    and "p = one \<and> q = two \<or> p = two \<and> q = one" and "pi_slot p = Some (pi_image one * 2)"
    and "info_version (pi_header q) = info_version (pi_header p)"
proof -
  have "pi_slot one = Some (pi_image one * 2) \<or> pi_slot two = Some (pi_image one * 2)"
    "info_version (pi_header one) = info_version (pi_header two)"
    using assms by (auto simp: pair_builds_def Let_def split: if_splits)
  moreover have "i = (if pi_slot one \<noteq> Some (pi_image one * 2) then two else one)\<lparr>pi_secondary :=
      Some (let q = (if pi_slot one \<noteq> Some (pi_image one * 2) then one else two) in \<lparr>pb_file = pi_file q, pb_bytes = pi_bytes q,
        pb_header = pi_header q, pb_slot = pi_image one * 2 + 1\<rparr>)\<rparr>"
    using assms by (simp add: pair_builds_def Let_def split: if_splits)
  ultimately show thesis
    using that [of one two] that [of two one] by (cases "pi_slot one = Some (pi_image one * 2)") (simp_all add: Let_def)
qed

lemma image_checked_secondary:
  assumes "image_checked zs p" and "build_checked zs f bs h" and "pi_slot p = Some (pi_image p * 2)"
    and "info_version h = info_version (pi_header p)"
  shows "image_checked zs (p\<lparr>pi_secondary := Some \<lparr>pb_file = f, pb_bytes = bs, pb_header = h, pb_slot = pi_image p * 2 + 1\<rparr>\<rparr>)"
  using assms by (auto simp: image_checked_def secondary_checked_def split: option.split)

lemma pair_builds_checked:
  assumes "pair_builds one two = Inr i" and "image_checked zs one" "image_checked zs two" "pi_image one = pi_image two"
  shows "image_checked zs i \<and> pi_image i = pi_image one"
proof -
  obtain p q where i: "i = p\<lparr>pi_secondary := Some \<lparr>pb_file = pi_file q, pb_bytes = pi_bytes q, pb_header = pi_header q,
      pb_slot = pi_image one * 2 + 1\<rparr>\<rparr>"
    and pq: "p = one \<and> q = two \<or> p = two \<and> q = one" and slot: "pi_slot p = Some (pi_image one * 2)"
    and ver: "info_version (pi_header q) = info_version (pi_header p)"
    using pair_builds_cases [OF assms(1)] .
  have "image_checked zs p" "build_checked zs (pi_file q) (pi_bytes q) (pi_header q)" "pi_image p = pi_image one"
    using pq assms(2-4) by (auto simp: image_checked_def)
  with image_checked_secondary [of zs p "pi_file q" "pi_bytes q" "pi_header q"] i slot ver show ?thesis by simp
qed

lemma add_image_checked:
  assumes "add_image i imgs = Inr imgs'" and "image_checked zs i" and "list_all (image_checked zs) imgs"
    and "distinct (map pi_image imgs)"
  shows "list_all (image_checked zs) imgs' \<and> distinct (map pi_image imgs') \<and>
    set (map pi_image imgs') = insert (pi_image i) (set (map pi_image imgs))"
  using assms
proof (induction imgs arbitrary: imgs')
  case (Cons j imgs)
  show ?case
  proof (cases "pi_image j = pi_image i")
    case True
    then show ?thesis using Cons.prems pair_builds_checked [of j i _ zs] by (auto split: sum.splits)
  next
    case False
    then obtain rest where "add_image i imgs = Inr rest" "imgs' = j # rest"
      using Cons.prems(1) by (auto split: sum.splits)
    then show ?thesis using Cons.IH [of rest] Cons.prems False by auto
  qed
qed simp

lemma read_images_checked:
  assumes "read_images es zs single imgs = Inr imgs'" and "list_all (image_checked zs) imgs" and "distinct (map pi_image imgs)"
  shows "list_all (image_checked zs) imgs' \<and> distinct (map pi_image imgs') \<and> (es \<noteq> [] \<or> imgs \<noteq> [] \<longrightarrow> imgs' \<noteq> [])"
  using assms
proof (induction es arbitrary: imgs)
  case (Cons e es)
  then obtain i next_imgs where n: "read_image e zs single = Inr i" "add_image i imgs = Inr next_imgs"
    "read_images es zs single next_imgs = Inr imgs'"
    by (auto split: sum.splits)
  have "list_all (image_checked zs) next_imgs" "distinct (map pi_image next_imgs)"
    "set (map pi_image next_imgs) = insert (pi_image i) (set (map pi_image imgs))"
    using add_image_checked [OF n(2)] read_image_checked [OF n(1)] Cons.prems by blast+
  moreover from this(3) have "next_imgs \<noteq> []" by auto
  ultimately show ?case using Cons.IH [OF n(3)] by blast
qed simp

lemma sorted_images:
  assumes "distinct (map pi_image imgs)"
  shows "sorted_wrt (\<lambda>i j. pi_image i < pi_image j) (sort_key (\<lambda>i. unat (pi_image i)) imgs)"
proof -
  let ?s = "sort_key (\<lambda>i. unat (pi_image i)) imgs"
  have "distinct (map (\<lambda>i. unat (pi_image i)) imgs)"
    using assms by (simp add: distinct_map inj_on_def word_unat_eq_iff)
  then have "distinct (map (\<lambda>i. unat (pi_image i)) ?s)" by (simp add: distinct_map)
  then have "sorted_wrt (<) (map (\<lambda>i. unat (pi_image i)) ?s)" by (simp add: strict_sorted_iff)
  then show ?thesis by (simp add: sorted_wrt_map word_less_nat_alt)
qed

lemma dependencies_kept:
  assumes "check_dependencies imgs = Inr ()" and "distinct (map pi_image imgs)" and "i \<in> set imgs" and "d \<in> set (pi_dependencies i)"
    and "j \<in> set imgs" and "pi_image j = ucast (dep_image d)"
  shows "version_rank (dep_minimum d) \<le> version_rank (info_version (pi_header j))"
proof -
  have "\<not> dependency_broken imgs d" using assms(1,3,4) by (auto simp: check_dependencies_def list_ex_iff split: if_splits)
  moreover have "find (\<lambda>other. pi_image other = ucast (dep_image d)) imgs = Some j"
  proof (cases "find (\<lambda>other. pi_image other = ucast (dep_image d)) imgs")
    case None
    then show ?thesis using assms(5,6) by (auto simp: find_None_iff)
  next
    case (Some k)
    then have "k \<in> set imgs" "pi_image k = pi_image j" using assms(6) by (auto simp: find_Some_iff)
    then show ?thesis using Some assms(2,5) by (auto simp: distinct_map dest: inj_onD)
  qed
  ultimately show ?thesis by (simp add: dependency_broken_def satisfies_rank)
qed

definition fits_together :: "package_image list \<Rightarrow> bool" where
  "fits_together imgs \<longleftrightarrow> (\<forall>i\<in>set imgs. \<forall>d\<in>set (pi_dependencies i). \<forall>j\<in>set imgs.
     pi_image j = ucast (dep_image d) \<longrightarrow> version_rank (dep_minimum d) \<le> version_rank (info_version (pi_header j)))"

lemma gather_images_checked:
  assumes "gather_images files zs = Inr imgs" and "files \<noteq> []"
  shows "imgs \<noteq> [] \<and> sorted_wrt (\<lambda>i j. pi_image i < pi_image j) imgs \<and> list_all (image_checked zs) imgs \<and>
    length (filter (\<lambda>i. pi_secondary i \<noteq> None) imgs) \<le> 1 \<and> fits_together imgs"
proof -
  obtain found where f: "read_images files zs (length files = 1) [] = Inr found"
    and one: "length (filter (\<lambda>i. pi_secondary i \<noteq> None) found) \<le> 1"
    and s: "imgs = sort_key (\<lambda>i. unat (pi_image i)) found" and d: "check_dependencies imgs = Inr ()"
    using assms(1) by (auto simp: gather_images_def Let_def split: sum.splits if_splits)
  have c: "list_all (image_checked zs) found" "distinct (map pi_image found)" "found \<noteq> []"
    using read_images_checked [OF f] assms(2) by simp_all
  have m: "distinct (map pi_image imgs)" "set imgs = set found" using c(2) s by (simp_all add: distinct_map)
  have "length (filter (\<lambda>i. pi_secondary i \<noteq> None) imgs) = length (filter (\<lambda>i. pi_secondary i \<noteq> None) found)"
    by (simp add: s filter_sort)
  moreover have "fits_together imgs"
    using dependencies_kept [OF d m(1)] by (auto simp: fits_together_def)
  moreover have "imgs \<noteq> []" using m(2) c(3) by (metis set_empty)
  ultimately show ?thesis using sorted_images [OF c(2)] s one c(1) m(2) by (simp add: list_all_iff)
qed

lemma package_checked:
  assumes "read_package archive = Inr p"
  obtains zs where "read_stored_zip archive = Inr zs" and "package_images p \<noteq> []"
    and "sorted_wrt (\<lambda>i j. pi_image i < pi_image j) (package_images p)"
    and "list_all (image_checked zs) (package_images p)"
    and "length (filter (\<lambda>i. pi_secondary i \<noteq> None) (package_images p)) \<le> 1"
    and "fits_together (package_images p)"
proof -
  obtain zs m manifest where z: "read_stored_zip archive = Inr zs" and m: "read_manifest manifest zs = Inr p"
    using assms by (auto simp: read_package_def split: sum.splits if_splits option.splits)
  obtain files where f: "manifest_files manifest = Inr files" "gather_images files zs = Inr (package_images p)"
    using m by (auto simp: read_manifest_def split: sum.splits if_splits)
  have "files \<noteq> []" using f(1) by (auto simp: manifest_files_def split: option.splits json.splits if_splits)
  with gather_images_checked [OF f(2)] z that show thesis by blast
qed

text \<open>An archive with a manifest and one build, as the witnesses below read it.\<close>

definition demo_manifest :: string where
  "demo_manifest = ''{'' @ CHR 0x22 # ''files'' @ CHR 0x22 # '':[{'' @ CHR 0x22 # ''file'' @ CHR 0x22 # '':'' @ CHR 0x22 # ''a'' @
     CHR 0x22 # ''}]}''"

lemma demo_manifest_json: "parse_json demo_manifest = Inr (JObject [(''files'', JArray [JObject [(''file'', JString ''a'')]])])"
proof -
  have "parse_document demo_manifest = Inr (JObject [(''files'', JArray [JObject [(''file'', JString ''a'')]])])"
    by code_simp
  then show ?thesis by (simp add: parse_json_def demo_manifest_def kMaxJsonSize_def)
qed

definition demo_build :: bytes where
  "demo_build = tlv_file (header_bytes (demo_info\<lparr>protected_tlv_size := 0\<rparr>) 0 @ [1, 2, 3, 4, 5]) None [(0x10, replicate 32 7)] []"

definition demo_archive :: bytes where
  "demo_archive = zip_bytes [demo_file ''manifest.json'' (bytes_of_name demo_manifest), demo_file ''a'' demo_build]"

definition demo_package :: dfu_package where
  "demo_package = \<lparr>format_version = None, package_name = None, package_images = [\<lparr>pi_file = ''a'', pi_image = 0, pi_bytes = demo_build,
     pi_header = demo_info\<lparr>protected_tlv_size := 0\<rparr>, pi_version = None, pi_board = None, pi_soc = None, pi_dependencies = [],
     pi_slot = None, pi_secondary = None\<rparr>]\<rparr>"

lemma length_header_bytes: "length (header_bytes info addr) = 32"
  by (simp add: header_bytes_def le16_bytes_def le32_bytes_def)

lemma length_demo: "length demo_build = 77" "length demo_manifest = 24"
  by (simp_all add: demo_build_def demo_manifest_def tlv_file_def length_header_bytes length_tlv_area)

lemma demo_build_header: "read_header demo_build None = Inr (demo_info\<lparr>protected_tlv_size := 0\<rparr>, [])"
proof -
  let ?info = "demo_info\<lparr>protected_tlv_size := 0\<rparr>"
  have "parse_mcuboot_header (header_bytes ?info 0 @ []) = Inr ?info"
    by (rule parse_header_bytes)
      (simp add: info_ok_def demo_info_def kMcubootHeaderSize_def through_body_def kMaxImageSize_def)
  moreover have "read_dependencies demo_build ?info = Inr (map dependency_of (dependency_payloads [(0x10, replicate 32 7)]))"
    unfolding demo_build_def
    by (rule dependencies_unprotected)
      (simp_all add: length_header_bytes demo_info_def through_body_def length_tlv_area dependency_entry_ok_def kTlvDependency_def kMaxImageTlvs_def)
  moreover have "take kMcubootHeaderSize demo_build = header_bytes ?info 0"
    by (simp add: demo_build_def tlv_file_def kMcubootHeaderSize_def length_header_bytes)
  ultimately show ?thesis
    by (simp add: read_header_def length_demo kMcubootHeaderSize_def dependency_payloads_def kTlvDependency_def)
qed

lemma demo_read: "read_package demo_archive = Inr demo_package"
proof -
  have z: "read_stored_zip demo_archive = Inr [\<lparr>entry_name = ''manifest.json'', entry_data = bytes_of_name demo_manifest\<rparr>,
      \<lparr>entry_name = ''a'', entry_data = demo_build\<rparr>]"
    unfolding demo_archive_def
    by (subst zip_read_back)
      (simp_all add: demo_file_ok zip_bytes_def demo_files_length kMaxZipEntries_def length_demo, simp_all add: demo_file_def entry_of_def length_demo)
  have l: "length demo_archive \<le> kMaxPackageSize"
    by (simp add: demo_archive_def zip_bytes_def demo_files_length length_demo kMaxPackageSize_def)
  show ?thesis
    using z l demo_manifest_json demo_build_header
    by (simp add: read_package_def length_demo kMaxJsonSize_def read_manifest_def read_format_version_def optional_text_def
        manifest_files_def kMaxZipEntries_def gather_images_def read_image_def read_file_def image_index_def slot_of_def small_number_def
        read_texts_def check_dependencies_def demo_package_def)
qed



section \<open>The board check\<close>

definition for_board :: "string \<Rightarrow> package_image \<Rightarrow> bool" where
  "for_board b i \<longleftrightarrow> (\<exists>name suffix. pi_board i = Some (name @ suffix) \<and> name = b \<and>
     (suffix = [] \<or> hd suffix \<in> {CHR ''/'', CHR ''@''}) \<and> CHR ''/'' \<notin> set name \<and> CHR ''@'' \<notin> set name)"

lemma board_name_split:
  "board_name t = b \<longleftrightarrow> (\<exists>suffix. t = b @ suffix \<and> (suffix = [] \<or> hd suffix \<in> {CHR ''/'', CHR ''@''}) \<and>
     CHR ''/'' \<notin> set b \<and> CHR ''@'' \<notin> set b)"
proof
  let ?P = "\<lambda>c. c \<noteq> CHR ''/'' \<and> c \<noteq> CHR ''@''"
  assume b: "board_name t = b"
  then have "t = b @ dropWhile ?P t" using takeWhile_dropWhile_id [of ?P t] by (simp add: board_name_def)
  moreover have "dropWhile ?P t = [] \<or> hd (dropWhile ?P t) \<in> {CHR ''/'', CHR ''@''}"
    using hd_dropWhile [of ?P t] by auto
  moreover have "CHR ''/'' \<notin> set b \<and> CHR ''@'' \<notin> set b"
    using b by (auto simp: board_name_def dest: set_takeWhileD)
  ultimately show "\<exists>suffix. t = b @ suffix \<and> (suffix = [] \<or> hd suffix \<in> {CHR ''/'', CHR ''@''}) \<and>
     CHR ''/'' \<notin> set b \<and> CHR ''@'' \<notin> set b"
    by blast
next
  let ?P = "\<lambda>c. c \<noteq> CHR ''/'' \<and> c \<noteq> CHR ''@''"
  assume "\<exists>suffix. t = b @ suffix \<and> (suffix = [] \<or> hd suffix \<in> {CHR ''/'', CHR ''@''}) \<and>
     CHR ''/'' \<notin> set b \<and> CHR ''@'' \<notin> set b"
  then obtain suffix where t: "t = b @ suffix" "suffix = [] \<or> \<not> ?P (hd suffix)" and b: "\<forall>c\<in>set b. ?P c"
    by fastforce
  from t(2) have "takeWhile ?P suffix = []" by (cases suffix) auto
  then show "board_name t = b" unfolding board_name_def t(1) using b by (subst takeWhile_append2) auto
qed

lemma for_board_iff: "for_board b i \<longleftrightarrow> (case pi_board i of None \<Rightarrow> False | Some t \<Rightarrow> board_name t = b)"
  by (auto simp: for_board_def board_name_split split: option.splits)

lemma check_images_board_cases:
  "check_images_board b imgs = Inr () \<and> list_all (for_board b) imgs \<or>
   (\<exists>e. check_images_board b imgs = Inl e \<and> code e = InvalidArgument \<and> length (reason e) \<le> kMaxReasonLength) \<and>
     \<not> list_all (for_board b) imgs"
  by (induction imgs) (auto simp: for_board_iff board_refusal_def Let_def split: option.splits)

text \<open>
  The board check. A package is accepted for a board exactly when every image of it names that board,
  alone or before a qualifier behind the first slash or at sign; any other package is refused as an
  invalid argument, with a reason no longer than the limit however long the manifest's text is.
\<close>

theorem check_board_exact:
  "(check_board p b = Inr () \<longleftrightarrow> list_all (for_board b) (package_images p)) \<and>
   (case check_board p b of Inl e \<Rightarrow> code e = InvalidArgument \<and> length (reason e) \<le> kMaxReasonLength | Inr _ \<Rightarrow> True)"
  using check_images_board_cases [of b "package_images p"] by (auto simp: check_board_def split: sum.splits)

section \<open>From a package to an update\<close>

definition has_hash :: "bytes \<Rightarrow> image_info \<Rightarrow> bool" where
  "has_hash bs h \<longleftrightarrow> (case find_image_tlv_hash (MemoryImageSource bs) h of Inr (Some _) \<Rightarrow> True | _ \<Rightarrow> False)"

definition image_hashed :: "package_image \<Rightarrow> bool" where
  "image_hashed i \<longleftrightarrow> has_hash (pi_bytes i) (pi_header i) \<and>
     (case pi_secondary i of None \<Rightarrow> True | Some b \<Rightarrow> has_hash (pb_bytes b) (pb_header b))"

text \<open>What the machine is to know of an image: its index, its version and who commits it.\<close>

definition target_of_image :: "package_image \<Rightarrow> u32 \<times> image_version \<times> commit_by" where
  "target_of_image i = (pi_image i, info_version (pi_header i), if pi_image i = 0 then Commit_Client else Commit_Device)"

lemma read_target_checked:
  assumes "build_checked zs f bs h"
  shows "if has_hash bs h then \<exists>x. read_target (MemoryImageSource bs) = Inr \<lparr>b_hash = x, b_version = info_version h\<rparr>
    else \<exists>e. read_target (MemoryImageSource bs) = Inl e"
proof -
  have "src_read (MemoryImageSource bs) 0 kMcubootHeaderSize = Inr (take kMcubootHeaderSize bs)"
    using assms memory.read_inside [of kMcubootHeaderSize 0 bs]
    by (simp add: build_checked_def subspan_def kMcubootHeaderSize_def)
  then show ?thesis
    using assms by (auto simp: read_target_def build_checked_def has_hash_def split: sum.splits option.splits)
qed

lemma read_targets_checked:
  assumes "list_all (image_checked zs) imgs"
  shows "if list_all image_hashed imgs
    then \<exists>rs. read_targets (map package_target imgs) = Inr rs \<and>
      map (\<lambda>r. (t_image (fst r), version (fst r), commit (fst r))) rs = map target_of_image imgs
    else \<exists>e. read_targets (map package_target imgs) = Inl e"
  using assms
proof (induction imgs)
  case (Cons i imgs)
  have one: "build_checked zs (pi_file i) (pi_bytes i) (pi_header i)"
    and two: "pi_secondary i = Some b \<Longrightarrow> build_checked zs (pb_file b) (pb_bytes b) (pb_header b)" for b
    using Cons.prems by (auto simp: image_checked_def secondary_checked_def)
  have target: "package_target i = \<lparr>ft_image = pi_image i, ft_source = Some (MemoryImageSource (pi_bytes i)),
      ft_commit = (if pi_image i = 0 then Commit_Client else Commit_Device),
      ft_secondary = map_option (\<lambda>b. MemoryImageSource (pb_bytes b)) (pi_secondary i)\<rparr>"
    by (simp add: package_target_def)
  show ?case
  proof (cases "pi_secondary i")
    case None
    then show ?thesis
      using Cons.IH Cons.prems read_target_checked [OF one]
      by (auto simp: image_hashed_def [of i] target target_of_image_def [of i] Let_def split: sum.splits if_splits)
  next
    case (Some b)
    show ?thesis
      using Cons.IH Cons.prems read_target_checked [OF one] read_target_checked [OF two [OF Some]] Some
      by (auto simp: image_hashed_def [of i] target target_of_image_def [of i] Let_def split: sum.splits if_splits)
  qed
qed simp

lemma validate_loop_ok:
  assumes "sorted_wrt (\<lambda>i j. pi_image i < pi_image j) imgs"
  shows "\<exists>d. validate_loop (map package_target imgs) b = Inr d"
  using assms by (induction imgs arbitrary: b) (auto simp: package_target_def list_ex_iff)

lemma validate_package:
  assumes "sorted_wrt (\<lambda>i j. pi_image i < pi_image j) imgs" and "imgs \<noteq> []"
    and "up_sha (plan_upload_options plan) = None" and "0 < apply_poll_interval plan"
  shows "validate (map package_target imgs) plan = Inr ()"
  using validate_loop_ok [OF assms(1), of False] assms(2-) by (auto simp: validate_def Let_def)

text \<open>
  C18. From a package to an update. The targets made from an accepted package are always ones the updater
  accepts: with an idle updater and a plan that gives no digest of its own, the update starts exactly when
  every build of the package carries its hash TLV. The machine then has the package's images, in order,
  each with the version of its header; the application image is confirmed by the client, every other by
  the device.
\<close>

theorem package_starts_update:
  assumes "from_package_bytes archive board = Inr ts" and "read_package archive = Inr p"
    and "\<not> fw_running u" and "up_sha (plan_upload_options plan) = None" and "0 < apply_poll_interval plan"
  shows "validate ts plan = Inr () \<and> (snd (fw_start ts plan True u) = Inr () \<longleftrightarrow> list_all image_hashed (package_images p)) \<and>
    (list_all image_hashed (package_images p) \<longrightarrow>
      (\<exists>m. fw_machine (fst (fw_start ts plan True u)) = Some m \<and>
        map (\<lambda>t. (t_image t, version t, commit t)) (targets (m_context m)) = map target_of_image (package_images p)))"
proof -
  have ts: "ts = map package_target (package_images p)"
    using assms(1,2) by (auto simp: from_package_bytes_def split: sum.splits option.splits)
  obtain zs where c: "package_images p \<noteq> []" "sorted_wrt (\<lambda>i j. pi_image i < pi_image j) (package_images p)"
    "list_all (image_checked zs) (package_images p)"
    using package_checked [OF assms(2)] by metis
  have v: "validate ts plan = Inr ()" unfolding ts by (rule validate_package [OF c(2,1) assms(4,5)])
  have "snd (fw_start ts plan True u) = Inr () \<longleftrightarrow> list_all image_hashed (package_images p)"
    using read_targets_checked [OF c(3)] v assms(3) by (auto simp: fw_start_def ts [symmetric] split: if_splits)
  moreover have "\<exists>m. fw_machine (fst (fw_start ts plan True u)) = Some m \<and>
      map (\<lambda>t. (t_image t, version t, commit t)) (targets (m_context m)) = map target_of_image (package_images p)"
    if "list_all image_hashed (package_images p)"
    using that read_targets_checked [OF c(3)] v assms(3)
    by (auto simp: fw_start_def ts [symmetric] post_def Machine_def comp_def target.defs)
  ultimately show ?thesis using v by blast
qed

definition package_demo_plan :: updater_plan where
  "package_demo_plan = \<lparr>plan_mode = Mode_TestThenConfirm, fallback_mode = None, allow_no_revert = False, check_downgrade = True,
     skip_if_already_present = True, disconnect_grace = 10, apply_timeout = 300, apply_poll_interval = 2,
     plan_upload_options = \<lparr>up_image = 0, up_upgrade_only = False, up_sha = None, up_chunk_size = 0, up_server_buf_size = None,
       up_max_chunk_retries = 3, up_max_restarts = 2, up_max_no_progress = 16, first_chunk_timeout = 30, final_chunk_timeout = 30,
       chunk_timeout = 5\<rparr>, reconnect_hint = 4\<rparr>"

lemma demo_hashed: "list_all image_hashed (package_images demo_package)"
proof -
  have "find_image_tlv_hash (MemoryImageSource demo_build) (demo_info\<lparr>protected_tlv_size := 0\<rparr>) =
      single_hash (hash_payloads [(0x10, replicate 32 7)])"
    unfolding demo_build_def
    by (rule find_hash_unprotected)
      (simp_all add: length_header_bytes demo_info_def through_body_def length_tlv_area entry_ok_def hash_tlv_for_def kHashTlvs_def
        kMaxImageTlvs_def)
  then show ?thesis
    by (simp add: demo_package_def image_hashed_def has_hash_def hash_payloads_def hash_tlv_for_def kHashTlvs_def)
qed

theorem package_starts_update_witness:
  "from_package_bytes demo_archive None = Inr [package_target (hd (package_images demo_package))] \<and>
   snd (fw_start [package_target (hd (package_images demo_package))] package_demo_plan True (FirmwareUpdater package_demo_plan)) = Inr ()"
proof -
  have f: "from_package_bytes demo_archive None = Inr [package_target (hd (package_images demo_package))]"
    using demo_read by (simp add: from_package_bytes_def demo_package_def)
  have "snd (fw_start [package_target (hd (package_images demo_package))] package_demo_plan True (FirmwareUpdater package_demo_plan)) = Inr ()
      \<longleftrightarrow> list_all image_hashed (package_images demo_package)"
    using package_starts_update [OF f demo_read, of "FirmwareUpdater package_demo_plan" package_demo_plan]
    by (simp add: FirmwareUpdater_def package_demo_plan_def)
  then show ?thesis using f demo_hashed by blast
qed

end
