(* ===== verification/SerialCodec.thy ===== *)
theory SerialCodec
  imports Prelude
begin

text \<open>
  The two codecs of the serial framing: the CRC of \<open>transports/serial/crc16.hpp\<close> and the base64
  of \<open>transports/serial/base64.hpp\<close>. Characters are bytes. A function that writes into a span
  the caller owns takes the span's size and returns the bytes written.
\<close>

section \<open>CRC-16/XMODEM\<close>

definition crc_bit :: "u16 \<Rightarrow> u16" where
  "crc_bit crc = (let carry = crc AND 0x8000 \<noteq> 0; shifted = push_bit 1 crc
     in if carry then shifted XOR 0x1021 else shifted)"

definition crc_byte :: "byte \<Rightarrow> u16 \<Rightarrow> u16" where
  "crc_byte value crc = (crc_bit ^^ 8) (crc XOR push_bit 8 (ucast value))"

definition crc16_xmodem :: "u16 \<Rightarrow> bytes \<Rightarrow> u16" where
  "crc16_xmodem seed data = fold crc_byte data seed"

lemma and_top_bit: "(crc :: u16) AND 0x8000 \<noteq> 0 \<longleftrightarrow> bit crc 15"
proof -
  have "(0x8000 :: u16) = push_bit 15 1" by simp
  then show ?thesis by (simp add: bit_iff_and_push_bit_not_eq_0)
qed

text \<open>Bits that leave at the top without being set are only shifted.\<close>

lemma crc_bits_shift:
  "\<forall>n\<ge>16 - k. \<not> bit (x :: u16) n \<Longrightarrow> k \<le> 16 \<Longrightarrow> (crc_bit ^^ k) x = push_bit k x"
proof (induction k)
  case (Suc k)
  then have IH: "(crc_bit ^^ k) x = push_bit k x" by simp
  have "\<not> bit (push_bit k x) 15" using Suc.prems by (simp add: bit_simps)
  then have "crc_bit (push_bit k x) = push_bit 1 (push_bit k x)"
    by (simp add: crc_bit_def Let_def and_top_bit)
  then show ?case by (simp only: funpow.simps o_apply IH push_bit_push_bit plus_1_eq_Suc)
qed simp

lemma crc_append [simp]: "crc16_xmodem seed (xs @ ys) = crc16_xmodem (crc16_xmodem seed xs) ys"
  by (simp add: crc16_xmodem_def)

text \<open>A CRC run over its own value, high byte first, is zero.\<close>

lemma crc_residue: "crc16_xmodem c [high_byte c, low_byte c] = 0"
proof -
  have 1: "c XOR push_bit 8 (ucast (high_byte c)) = ucast (low_byte c)"
    by (rule bit_word_eqI) (auto simp: high_byte_def low_byte_def bit_simps)
  have "crc_byte (high_byte c) c = push_bit 8 (ucast (low_byte c))"
    unfolding crc_byte_def 1 by (rule crc_bits_shift) (auto simp: bit_simps dest: bit_imp_le_length)
  moreover have "crc_byte b (push_bit 8 (ucast b)) = 0" for b
    using crc_bits_shift [of 8 0] by (simp add: crc_byte_def)
  ultimately show ?thesis by (simp add: crc16_xmodem_def)
qed

section \<open>Base64\<close>

definition base64_encoded_size :: "nat \<Rightarrow> nat" where
  "base64_encoded_size raw = ((raw + 2) div 3) * 4"

definition base64_max_decoded_size :: "nat \<Rightarrow> nat" where
  "base64_max_decoded_size chars = (chars div 4) * 3"

definition kAlphabet :: bytes where
  "kAlphabet = map of_char ''ABCDEFGHIJKLMNOPQRSTUVWXYZabcdefghijklmnopqrstuvwxyz0123456789+/''"

abbreviation pad_char :: byte where "pad_char \<equiv> 61"

definition base64_value :: "byte \<Rightarrow> nat option" where
  "base64_value symbol = find (\<lambda>i. kAlphabet ! i = symbol) [0..<64]"

text \<open>One group of up to three bytes, as four characters.\<close>

definition triple_of :: "byte \<Rightarrow> byte \<Rightarrow> byte \<Rightarrow> u32" where
  "triple_of b0 b1 b2 = push_bit 16 (ucast b0) OR push_bit 8 (ucast b1) OR ucast b2"

definition symbol_at :: "nat \<Rightarrow> u32 \<Rightarrow> byte" where
  "symbol_at shift triple = kAlphabet ! unat (drop_bit shift triple AND 0x3F)"

fun base64_groups :: "bytes \<Rightarrow> bytes" where
  "base64_groups [] = []"
| "base64_groups [b0] = (let t = triple_of b0 0 0 in [symbol_at 18 t, symbol_at 12 t, pad_char, pad_char])"
| "base64_groups [b0, b1] =
     (let t = triple_of b0 b1 0 in [symbol_at 18 t, symbol_at 12 t, symbol_at 6 t, pad_char])"
| "base64_groups (b0 # b1 # b2 # rest) =
     (let t = triple_of b0 b1 b2
      in [symbol_at 18 t, symbol_at 12 t, symbol_at 6 t, symbol_at 0 t] @ base64_groups rest)"

definition base64_encode :: "bytes \<Rightarrow> nat \<Rightarrow> bytes" where
  "base64_encode inp out_size =
     (let needed = base64_encoded_size (length inp) in
      if needed = 0 \<or> out_size < needed then [] else base64_groups inp)"

text \<open>The characters of one quartet, from the \<open>j\<close>-th on: the bits so far and how many bytes
  they stand for.\<close>

fun decode_symbols :: "bool \<Rightarrow> nat \<Rightarrow> u32 \<Rightarrow> bytes \<Rightarrow> (u32 \<times> nat) option" where
  "decode_symbols final_quartet j quad [] = Some (quad, 3)"
| "decode_symbols final_quartet j quad (s # ss) =
     (if s = pad_char then
        if \<not> final_quartet \<or> j < 2 then None
        else if j = 2 \<and> ss ! 0 \<noteq> pad_char then None
        else Some (push_bit ((4 - j) * 6) quad, j - 1)
      else case base64_value s of
        None \<Rightarrow> None
      | Some v \<Rightarrow> decode_symbols final_quartet (j + 1) (push_bit 6 quad OR of_nat v) ss)"

definition quad_bytes :: "u32 \<Rightarrow> nat \<Rightarrow> bytes" where
  "quad_bytes quad n = map (\<lambda>k. ucast (drop_bit (16 - 8 * k) quad AND 0xFF)) [0..<n]"

fun decode_quartets :: "bytes \<Rightarrow> bytes option" where
  "decode_quartets (s0 # s1 # s2 # s3 # rest) =
     (case decode_symbols (rest = []) 0 0 [s0, s1, s2, s3] of
        None \<Rightarrow> None
      | Some (quad, n) \<Rightarrow> map_option (\<lambda>bs. quad_bytes quad n @ bs) (decode_quartets rest))"
| "decode_quartets _ = Some []"

definition base64_decode :: "bytes \<Rightarrow> nat \<Rightarrow> bytes option" where
  "base64_decode inp out_size =
     (if length inp mod 4 \<noteq> 0 then None
      else if out_size < base64_max_decoded_size (length inp) then None
      else decode_quartets inp)"

section \<open>Round trip\<close>

lemma alphabet_facts:
  "length kAlphabet = 64" "list_all (\<lambda>i. base64_value (kAlphabet ! i) = Some i) [0..<64]"
  "pad_char \<notin> set kAlphabet" "10 \<notin> set kAlphabet" "13 \<notin> set kAlphabet"
  by code_simp+

lemma symbol_index: "unat (drop_bit k (t :: u32) AND 0x3F) < 64"
proof -
  have "drop_bit k t AND 0x3F = take_bit 6 (drop_bit k t)" by (simp add: take_bit_eq_mask mask_eq_exp_minus_1)
  then show ?thesis using take_bit_nat_less_exp [of 6 "unat (drop_bit k t)"] by (simp add: unsigned_take_bit_eq)
qed

lemma symbol_at_facts:
  "symbol_at k t \<in> set kAlphabet" "symbol_at k t \<noteq> pad_char"
  "base64_value (symbol_at k t) = Some (unat (drop_bit k t AND 0x3F))"
proof -
  show mem: "symbol_at k t \<in> set kAlphabet"
    using symbol_index alphabet_facts(1) by (simp add: symbol_at_def)
  show "symbol_at k t \<noteq> pad_char" using mem alphabet_facts(3) by auto
  show "base64_value (symbol_at k t) = Some (unat (drop_bit k t AND 0x3F))"
    using alphabet_facts(2) symbol_index [of k t] by (simp add: symbol_at_def list_all_iff)
qed

text \<open>Six bits at a time, the triple comes back.\<close>

lemma triple_bits:
  "push_bit 6 (push_bit 6 (push_bit 6 (drop_bit 18 t AND 0x3F) OR (drop_bit 12 t AND 0x3F)) OR
     (drop_bit 6 t AND 0x3F)) OR (t AND 0x3F) = take_bit 24 (t :: u32)"
proof (rule bit_word_eqI)
  have mask: "(0x3F :: u32) = mask 6" by (simp add: mask_eq_exp_minus_1)
  fix n
  assume "n < LENGTH(32)"
  then consider "n < 6" | "6 \<le> n" "n < 12" | "12 \<le> n" "n < 18" | "18 \<le> n" "n < 24" | "24 \<le> n" "n < 32"
    by fastforce
  then show "bit (push_bit 6 (push_bit 6 (push_bit 6 (drop_bit 18 t AND 0x3F) OR
      (drop_bit 12 t AND 0x3F)) OR (drop_bit 6 t AND 0x3F)) OR (t AND 0x3F)) n = bit (take_bit 24 t) n"
    unfolding mask by cases (auto simp: bit_simps)
qed

lemma quad_bytes_triple:
  "ucast (drop_bit 16 (take_bit 24 (triple_of b0 b1 b2)) AND 0xFF) = b0"
  "ucast (drop_bit 8 (take_bit 24 (triple_of b0 b1 b2)) AND 0xFF) = b1"
  "ucast (take_bit 24 (triple_of b0 b1 b2) AND 0xFF) = b2"
proof -
  have mask: "(0xFF :: u32) = mask 8" by (simp add: mask_eq_exp_minus_1)
  show "ucast (drop_bit 16 (take_bit 24 (triple_of b0 b1 b2)) AND 0xFF) = b0"
    "ucast (drop_bit 8 (take_bit 24 (triple_of b0 b1 b2)) AND 0xFF) = b1"
    "ucast (take_bit 24 (triple_of b0 b1 b2) AND 0xFF) = b2"
    unfolding mask triple_of_def
    by (rule bit_word_eqI; auto simp: bit_simps dest: bit_imp_le_length)+
qed

lemma low_zero:
  "triple_of b0 b1 0 AND 0x3F = 0" "drop_bit 6 (triple_of b0 0 0) AND 0x3F = 0"
proof -
  have mask: "(0x3F :: u32) = mask 6" by (simp add: mask_eq_exp_minus_1)
  show "triple_of b0 b1 0 AND 0x3F = 0" "drop_bit 6 (triple_of b0 0 0) AND 0x3F = 0"
    unfolding mask triple_of_def by (rule bit_word_eqI; auto simp: bit_simps)+
qed

lemma decode_symbols_group:
  "decode_symbols f 0 0 [symbol_at 18 t, symbol_at 12 t, symbol_at 6 t, symbol_at 0 t] =
     Some (take_bit 24 t, 3)"
  "decode_symbols True 0 0 [symbol_at 18 (triple_of b0 b1 0), symbol_at 12 (triple_of b0 b1 0),
     symbol_at 6 (triple_of b0 b1 0), pad_char] = Some (take_bit 24 (triple_of b0 b1 0), 2)"
  "decode_symbols True 0 0 [symbol_at 18 (triple_of b0 0 0), symbol_at 12 (triple_of b0 0 0),
     pad_char, pad_char] = Some (take_bit 24 (triple_of b0 0 0), 1)"
  using triple_bits [of t] triple_bits [of "triple_of b0 b1 0"] triple_bits [of "triple_of b0 0 0"]
    low_zero(1) [of b0 b1] low_zero(1) [of b0 0] low_zero(2) [of b0]
  by (simp_all add: symbol_at_facts)

lemma quad_bytes_simps:
  "quad_bytes q (Suc 0) = [ucast (drop_bit 16 q AND 0xFF)]"
  "quad_bytes q 2 = [ucast (drop_bit 16 q AND 0xFF), ucast (drop_bit 8 q AND 0xFF)]"
  "quad_bytes q 3 = [ucast (drop_bit 16 q AND 0xFF), ucast (drop_bit 8 q AND 0xFF), ucast (q AND 0xFF)]"
  by (simp_all add: quad_bytes_def upt_rec)

lemma decode_groups_append:
  "length g = 3 \<Longrightarrow> decode_quartets (base64_groups g @ rest) = map_option (\<lambda>bs. g @ bs) (decode_quartets rest)"
  by (cases g rule: base64_groups.cases)
    (auto simp: Let_def decode_symbols_group quad_bytes_simps quad_bytes_triple
      simp del: decode_symbols.simps intro!: arg_cong2 [of _ _ _ _ map_option] ext)

lemma decode_groups: "decode_quartets (base64_groups bs) = Some bs"
proof (induction bs rule: base64_groups.induct)
  case (4 b0 b1 b2 rest)
  then show ?case using decode_groups_append [of "[b0, b1, b2]" "base64_groups rest"]
    by (simp add: Let_def)
qed (simp_all add: Let_def decode_symbols_group quad_bytes_simps quad_bytes_triple
    del: decode_symbols.simps)

lemma length_base64_groups: "length (base64_groups bs) = base64_encoded_size (length bs)"
proof (induction bs rule: base64_groups.induct)
  case (4 b0 b1 b2 rest)
  have "(length rest + 5) div 3 = (length rest + 2 + 3) div 3" by simp
  then have "(length rest + 5) div 3 = (length rest + 2) div 3 + 1" by (simp only: div_add_self2)
  then show ?case using 4 by (simp add: base64_encoded_size_def Let_def add.commute)
qed (simp_all add: base64_encoded_size_def Let_def)

lemma base64_groups_chars: "set (base64_groups bs) \<subseteq> set kAlphabet \<union> {pad_char}"
  by (induction bs rule: base64_groups.induct) (auto simp: Let_def symbol_at_facts)

lemma base64_groups_append:
  "length xs mod 3 = 0 \<Longrightarrow> base64_groups (xs @ ys) = base64_groups xs @ base64_groups ys"
  by (induction xs rule: base64_groups.induct) (simp_all add: Let_def)

end
