(* ===== verification/SerialFraming.thy ===== *)
theory SerialFraming
  imports SerialCodec
begin

text \<open>
  The serial console framing of \<open>transports/serial/serial_framing.hpp\<close>: \<open>SerialFramer\<close> splits a
  packet into base64 lines, \<open>LineSplitter\<close> turns a byte stream into lines, \<open>SerialDeframer\<close>
  turns lines back into packets. The end-to-end theorem composes the three with the CRC and the
  base64 codec.
\<close>

section \<open>Constants\<close>

definition kPacketMarker :: bytes where "kPacketMarker = [0x06, 0x09]"
definition kFragmentMarker :: bytes where "kFragmentMarker = [0x04, 0x14]"
definition kMaxFrame :: nat where "kMaxFrame = 127"
definition kMarkerSize :: nat where "kMarkerSize = 2"
definition kTerminatorSize :: nat where "kTerminatorSize = 1"
definition kMaxBase64PerFrame :: nat where
  "kMaxBase64PerFrame = kMaxFrame - kMarkerSize - kTerminatorSize"
definition kMaxRawPerFrame :: nat where "kMaxRawPerFrame = (kMaxBase64PerFrame div 4) * 3"
definition kMaxSerialPacket :: nat where "kMaxSerialPacket = 65533"

abbreviation newline :: byte where "newline \<equiv> 10"
abbreviation carriage_return :: byte where "carriage_return \<equiv> 13"

section \<open>Framing\<close>

record frame_plan =
  triplets :: nat
  carries_crc :: bool

definition plan_frame :: "nat \<Rightarrow> nat \<Rightarrow> bool \<Rightarrow> frame_plan" where
  "plan_frame packet_size offset is_first =
     (let off = (if is_first then offset + 1 else offset);
          budget = (if is_first then kMaxRawPerFrame - 3 else kMaxRawPerFrame);
          left = packet_size - off;
          to_process = (if left < budget then left else budget)
      in if budget \<ge> left then
           if budget - left \<le> 1
           then \<lparr>triplets = (to_process - 1) div 3, carries_crc = False\<rparr>
           else \<lparr>triplets = to_process div 3, carries_crc = True\<rparr>
         else \<lparr>triplets = to_process div 3, carries_crc = False\<rparr>)"

record framer =
  fr_packet :: bytes
  fr_crc :: u16
  fr_offset :: nat
  fr_first :: bool

definition SerialFramer :: "bytes \<Rightarrow> framer" where
  "SerialFramer packet =
     (let p = (if length packet > kMaxSerialPacket then [] else packet)
      in \<lparr>fr_packet = p, fr_crc = crc16_xmodem 0 p, fr_offset = 0, fr_first = True\<rparr>)"

definition framer_done :: "framer \<Rightarrow> bool" where
  "framer_done fr \<longleftrightarrow> fr_offset fr \<ge> length (fr_packet fr)"

text \<open>Every group is written into what is left of a span of at least \<open>kMaxFrame\<close> bytes.\<close>

definition encode_group :: "bytes \<Rightarrow> nat \<Rightarrow> bytes" where
  "encode_group grp room = base64_encode grp room"

definition encode_tail :: "nat \<Rightarrow> framer \<Rightarrow> bytes \<times> framer" where
  "encode_tail room fr =
     (let crc_hi = high_byte (fr_crc fr); crc_lo = low_byte (fr_crc fr);
          i = fr_offset fr; p = fr_packet fr; tail = length p - i
      in if tail = 0 then (encode_group [crc_hi, crc_lo] room, fr)
         else if tail = 1 then (encode_group [p ! i, crc_hi, crc_lo] room, fr\<lparr>fr_offset := i + 1\<rparr>)
         else let written = encode_group [p ! i, p ! (i + 1), crc_hi] room
              in (written @ encode_group [crc_lo] (room - length written), fr\<lparr>fr_offset := i + 2\<rparr>))"

fun encode_triplets :: "nat \<Rightarrow> nat \<Rightarrow> framer \<Rightarrow> bytes \<times> framer" where
  "encode_triplets 0 room fr = ([], fr)"
| "encode_triplets (Suc n) room fr =
     (let written = encode_group (subspan (fr_offset fr) 3 (fr_packet fr)) room;
          (more, fr') = encode_triplets n (room - length written) (fr\<lparr>fr_offset := fr_offset fr + 3\<rparr>)
      in (written @ more, fr'))"

definition encode_opening :: "nat \<Rightarrow> framer \<Rightarrow> bytes \<times> framer" where
  "encode_opening room fr =
     (if fr_first fr then
        let declared = of_nat (length (fr_packet fr) + 2) :: u16
        in (encode_group [high_byte declared, low_byte declared, fr_packet fr ! 0] room,
            fr\<lparr>fr_offset := fr_offset fr + 1\<rparr>)
      else ([], fr))"

definition next_frame :: "nat \<Rightarrow> framer \<Rightarrow> bytes \<times> framer" where
  "next_frame out_size fr =
     (if framer_done fr \<or> out_size < kMaxFrame then ([], fr)
      else
        let plan = plan_frame (length (fr_packet fr)) (fr_offset fr) (fr_first fr);
            marker = (if fr_first fr then kPacketMarker else kFragmentMarker);
            (opening, fr1) = encode_opening (out_size - 2) fr;
            used1 = 2 + length opening;
            (groups, fr2) = encode_triplets (triplets plan) (out_size - used1) fr1;
            used2 = used1 + length groups;
            (tail, fr3) = (if carries_crc plan then encode_tail (out_size - used2) fr2 else ([], fr2))
        in (marker @ opening @ groups @ tail @ [newline], fr3\<lparr>fr_first := False\<rparr>))"

text \<open>Every frame carries something.\<close>

lemma plan_frame_progress:
  "off < n \<Longrightarrow> carries_crc (plan_frame n off f) \<or> 0 < triplets (plan_frame n off f)"
  by (auto simp: plan_frame_def Let_def kMaxRawPerFrame_def kMaxBase64PerFrame_def kMaxFrame_def
      kMarkerSize_def kTerminatorSize_def)

text \<open>\<open>count\<close>, with the loop's offset and flag as arguments.\<close>

function count_loop :: "nat \<Rightarrow> nat \<Rightarrow> bool \<Rightarrow> nat \<Rightarrow> nat" where
  "count_loop n off is_first frames =
     (if off < n then
        let plan = plan_frame n off is_first;
            off1 = (if is_first then off + 1 else off) + 3 * triplets plan
        in count_loop n (if carries_crc plan then n else off1) False (frames + 1)
      else frames)"
  by pat_completeness auto
termination
  by (relation "measure (\<lambda>(n, off, _). n - off)") (use plan_frame_progress in fastforce)+

declare count_loop.simps [simp del]

definition frame_count :: "framer \<Rightarrow> nat" where
  "frame_count fr = count_loop (length (fr_packet fr)) 0 True 0"

section \<open>Lines\<close>

record splitter =
  line :: bytes
  ready :: bytes
  max_line :: nat
  dropped :: nat
  discarding :: bool

definition LineSplitter :: "nat \<Rightarrow> splitter" where
  "LineSplitter n = \<lparr>line = [], ready = [], max_line = n, dropped = 0, discarding = False\<rparr>"

fun next_line :: "bytes \<Rightarrow> splitter \<Rightarrow> bytes option \<times> bytes \<times> splitter" where
  "next_line [] s = (None, [], s)"
| "next_line (b # chunk) s =
     (if b \<noteq> newline then
        if discarding s then next_line chunk s
        else if length (line s) = max_line s then next_line chunk (s\<lparr>line := [], discarding := True\<rparr>)
        else next_line chunk (s\<lparr>line := line s @ [b]\<rparr>)
      else if discarding s then
        next_line chunk (s\<lparr>discarding := False, dropped := dropped s + 1\<rparr>)
      else
        let l = (if line s \<noteq> [] \<and> last (line s) = carriage_return then butlast (line s) else line s)
        in (Some l, chunk, s\<lparr>ready := l, line := []\<rparr>))"

definition splitter_reset :: "splitter \<Rightarrow> splitter" where
  "splitter_reset s = s\<lparr>line := [], ready := [], discarding := False\<rparr>"

section \<open>Deframing\<close>

record serial_counters =
  ignored :: nat
  crc_failures :: nat
  framing_errors :: nat
  packets :: nat

record deframer =
  buffer :: bytes
  max_packet :: nat
  declared :: nat
  ready_size :: nat
  peak :: nat
  counters :: serial_counters

datatype outcome = NeedMore | Packet | Ignored | Framing_Error

definition SerialDeframer :: "nat \<Rightarrow> deframer" where
  "SerialDeframer n = \<lparr>buffer = [], max_packet = n, declared = 0, ready_size = 0, peak = 0,
     counters = \<lparr>ignored = 0, crc_failures = 0, framing_errors = 0, packets = 0\<rparr>\<rparr>"

definition framing_fail :: "deframer \<Rightarrow> outcome \<times> deframer" where
  "framing_fail d = (Framing_Error,
     d\<lparr>counters := (counters d)\<lparr>framing_errors := framing_errors (counters d) + 1\<rparr>,
       buffer := [], declared := 0\<rparr>)"

definition ignore_line :: "deframer \<Rightarrow> outcome \<times> deframer" where
  "ignore_line d =
     (Ignored, d\<lparr>counters := (counters d)\<lparr>ignored := ignored (counters d) + 1\<rparr>\<rparr>)"

definition decode_into_buffer :: "bytes \<Rightarrow> deframer \<Rightarrow> deframer option" where
  "decode_into_buffer body d =
     (if length body > kMaxBase64PerFrame then None
      else case base64_decode body kMaxRawPerFrame of
        None \<Rightarrow> None
      | Some decoded \<Rightarrow>
          if declared d \<noteq> 0 \<and> length (buffer d) + length decoded > declared d then None
          else let b = buffer d @ decoded
            in Some (d\<lparr>buffer := b, peak := (if length b > peak d then length b else peak d)\<rparr>))"

definition take_declared_length :: "deframer \<Rightarrow> deframer option" where
  "take_declared_length d =
     (if length (buffer d) < 2 then None
      else let n = unat (be16 (buffer d ! 0) (buffer d ! 1)) in
        if n \<le> 2 \<or> n > max_packet d then None
        else let d' = d\<lparr>buffer := drop 2 (buffer d), declared := n\<rparr>
          in if length (buffer d') \<le> n then Some d' else None)"

text \<open>The end of \<open>feed_line\<close>: is the packet complete, and is its CRC right.\<close>

definition judge_packet :: "deframer \<Rightarrow> outcome \<times> deframer" where
  "judge_packet d =
     (if length (buffer d) < declared d then (NeedMore, d)
      else if length (buffer d) > declared d then framing_fail d
      else if crc16_xmodem 0 (buffer d) \<noteq> 0 then
        (Framing_Error, d\<lparr>counters := (counters d)\<lparr>crc_failures := crc_failures (counters d) + 1\<rparr>,
           buffer := [], declared := 0\<rparr>)
      else (Packet, d\<lparr>ready_size := length (buffer d) - 2, declared := 0,
           counters := (counters d)\<lparr>packets := packets (counters d) + 1\<rparr>\<rparr>))"

definition feed_line :: "bytes \<Rightarrow> deframer \<Rightarrow> outcome \<times> deframer" where
  "feed_line l d0 =
     (let d = (if ready_size d0 \<noteq> 0 then d0\<lparr>buffer := [], ready_size := 0\<rparr> else d0) in
      if length l < kMarkerSize then ignore_line d
      else
        let starts = (take 2 l = kPacketMarker); continues = (take 2 l = kFragmentMarker) in
        if \<not> starts \<and> \<not> continues then ignore_line d
        else
          let d1 = (if starts then d\<lparr>buffer := [], declared := 0\<rparr> else d) in
          if \<not> starts \<and> buffer d1 = [] then framing_fail d1
          else case decode_into_buffer (drop kMarkerSize l) d1 of
            None \<Rightarrow> framing_fail d1
          | Some d2 \<Rightarrow>
              if starts then
                (case take_declared_length d2 of
                   None \<Rightarrow> framing_fail d2
                 | Some d3 \<Rightarrow> judge_packet d3)
              else judge_packet d2)"

definition packet :: "deframer \<Rightarrow> bytes" where
  "packet d = take (ready_size d) (buffer d)"

definition deframer_reset :: "deframer \<Rightarrow> deframer" where
  "deframer_reset d = d\<lparr>buffer := [], declared := 0, ready_size := 0\<rparr>"

section \<open>What a frame carries\<close>

declare base64_groups.simps(2-4) [simp del]

lemmas frame_sizes = kMaxRawPerFrame_def kMaxBase64PerFrame_def kMaxFrame_def kMarkerSize_def
  kTerminatorSize_def

text \<open>Where a frame's whole groups start and end in the packet.\<close>

definition groups_from :: "nat \<Rightarrow> bool \<Rightarrow> nat" where
  "groups_from off is_first = (if is_first then off + 1 else off)"

definition groups_to :: "nat \<Rightarrow> nat \<Rightarrow> bool \<Rightarrow> nat" where
  "groups_to n off is_first = groups_from off is_first + 3 * triplets (plan_frame n off is_first)"

lemma plan_facts:
  fixes f :: bool
  assumes "off < n"
  defines "plan \<equiv> plan_frame n off f" and "to \<equiv> groups_to n off f"
  shows "to \<le> n" and "off < to \<or> carries_crc plan" and "\<not> carries_crc plan \<Longrightarrow> to < n"
    and "carries_crc plan \<Longrightarrow> n - to \<le> 2"
    and "3 * triplets plan \<le> (if f then 90 else 93)"
    and "carries_crc plan \<Longrightarrow> n - to + 3 * triplets plan \<le> (if f then 88 else 91)"
  using assms(1) unfolding plan_def to_def groups_to_def
  by (auto simp: plan_frame_def groups_from_def frame_sizes Let_def split: if_splits)

definition frame_body :: "framer \<Rightarrow> bytes" where
  "frame_body fr =
     (let n = length (fr_packet fr); i = fr_offset fr; f = fr_first fr;
          declared = of_nat (n + 2) :: u16
      in (if f then [high_byte declared, low_byte declared, fr_packet fr ! 0] else []) @
         subspan (groups_from i f) (3 * triplets (plan_frame n i f)) (fr_packet fr) @
         (if carries_crc (plan_frame n i f)
          then drop (groups_to n i f) (fr_packet fr) @ [high_byte (fr_crc fr), low_byte (fr_crc fr)]
          else []))"

definition after_frame :: "framer \<Rightarrow> framer" where
  "after_frame fr =
     (let n = length (fr_packet fr) in
      fr\<lparr>fr_offset := (if carries_crc (plan_frame n (fr_offset fr) (fr_first fr)) then n
            else groups_to n (fr_offset fr) (fr_first fr)), fr_first := False\<rparr>)"

lemma encode_group_small:
  "0 < length g \<Longrightarrow> length g \<le> 3 \<Longrightarrow> 4 \<le> room \<Longrightarrow> encode_group g room = base64_groups g"
proof -
  assume "0 < length g" "length g \<le> 3" "4 \<le> room"
  then have "length g = 1 \<or> length g = 2 \<or> length g = 3" by linarith
  then have "base64_encoded_size (length g) = 4" by (auto simp: base64_encoded_size_def)
  then show "encode_group g room = base64_groups g"
    using \<open>4 \<le> room\<close> by (simp add: encode_group_def base64_encode_def)
qed

lemma encode_triplets_spec:
  "fr_offset fr + 3 * k \<le> length (fr_packet fr) \<Longrightarrow> 4 * k \<le> room \<Longrightarrow>
     encode_triplets k room fr =
       (base64_groups (subspan (fr_offset fr) (3 * k) (fr_packet fr)),
        fr\<lparr>fr_offset := fr_offset fr + 3 * k\<rparr>)"
proof (induction k arbitrary: room fr)
  case (Suc k)
  let ?g = "subspan (fr_offset fr) 3 (fr_packet fr)"
  have g: "length ?g = 3" using Suc.prems by simp
  have enc: "encode_group ?g room = base64_groups ?g" "length (base64_groups ?g) = 4"
    using Suc.prems g by (simp_all add: encode_group_small length_base64_groups base64_encoded_size_def)
  have "subspan (fr_offset fr) (3 * Suc k) (fr_packet fr) =
      ?g @ subspan (fr_offset fr + 3) (3 * k) (fr_packet fr)"
    by (simp add: subspan_def take_add add.commute)
  then have "base64_groups (subspan (fr_offset fr) (3 * Suc k) (fr_packet fr)) =
      base64_groups ?g @ base64_groups (subspan (fr_offset fr + 3) (3 * k) (fr_packet fr))"
    using g by (simp add: base64_groups_append)
  then show ?case using Suc.IH [of "fr\<lparr>fr_offset := fr_offset fr + 3\<rparr>" "room - 4"] Suc.prems enc
    by (simp add: Let_def add.assoc)
qed (simp add: subspan_def)

lemma drop_short:
  "length xs - i = 1 \<Longrightarrow> drop i xs = [xs ! i]"
  "length xs - i = 2 \<Longrightarrow> drop i xs = [xs ! i, xs ! (i + 1)]"
  by (auto simp: list_eq_iff_nth_eq nth_Cons' less_Suc_eq numeral_2_eq_2)

lemma encode_tail_spec:
  assumes "length (fr_packet fr) - fr_offset fr \<le> 2" and "fr_offset fr \<le> length (fr_packet fr)"
    and "length (fr_packet fr) - fr_offset fr = 2 \<longrightarrow> 8 \<le> room" and "4 \<le> room"
  shows "encode_tail room fr =
    (base64_groups (drop (fr_offset fr) (fr_packet fr) @ [high_byte (fr_crc fr), low_byte (fr_crc fr)]),
     fr\<lparr>fr_offset := length (fr_packet fr)\<rparr>)"
proof -
  let ?n = "length (fr_packet fr) - fr_offset fr"
  consider "?n = 0" | "?n = 1" | "?n = 2" using assms(1) by linarith
  then show ?thesis
  proof cases
    case 1
    then have "length (fr_packet fr) = fr_offset fr" using assms(2) by linarith
    then show ?thesis using assms
      by (simp add: encode_tail_def Let_def encode_group_small)
  next
    case 2
    then have "length (fr_packet fr) = Suc (fr_offset fr)" using assms(2) by linarith
    then show ?thesis using assms drop_short(1) [OF 2]
      by (simp add: encode_tail_def Let_def encode_group_small)
  next
    case 3
    have len: "length (base64_groups [x, y, z]) = 4" for x y z
      by (simp add: length_base64_groups base64_encoded_size_def)
    have "base64_groups ([x, y, z] @ [v]) = base64_groups [x, y, z] @ base64_groups [v]" for x y z v
      by (rule base64_groups_append) simp
    moreover have "length (fr_packet fr) = Suc (Suc (fr_offset fr))" using 3 assms(2) by linarith
    ultimately show ?thesis using 3 assms drop_short(2) [OF 3] len
      by (simp add: encode_tail_def Let_def encode_group_small)
  qed
qed

lemma room_left:
  fixes room t k r :: nat
  assumes "127 \<le> room" and "f \<Longrightarrow> t + 3 * k \<le> 88" and "t + 3 * k \<le> 91"
    and "r = room - (2 + (if f then 4 else 0) + 4 * k)"
  shows "(t = 2 \<longrightarrow> 8 \<le> r) \<and> 4 \<le> r"
  using assms by (cases f) (simp_all, presburger+)

lemma next_frame_spec:
  assumes "\<not> framer_done fr" and "fr_first fr \<longrightarrow> fr_offset fr = 0" and "kMaxFrame \<le> room"
  shows "next_frame room fr =
      ((if fr_first fr then kPacketMarker else kFragmentMarker) @ base64_groups (frame_body fr) @ [newline],
       after_frame fr)"
    and "length (frame_body fr) \<le> kMaxRawPerFrame"
proof -
  let ?p = "fr_packet fr" and ?i = "fr_offset fr" and ?f = "fr_first fr"
  let ?n = "length ?p" and ?plan = "plan_frame (length ?p) ?i ?f"
  let ?k = "triplets ?plan" and ?from = "groups_from ?i ?f" and ?to = "groups_to (length ?p) ?i ?f"
  let ?d = "of_nat (?n + 2) :: u16"
  let ?open = "if ?f then [high_byte ?d, low_byte ?d, ?p ! 0] else []"
  let ?crc = "[high_byte (fr_crc fr), low_byte (fr_crc fr)]"
  have off: "?i < ?n" using assms(1) by (simp add: framer_done_def)
  note pf = plan_facts [OF off, of ?f]
  have from_to: "?to = ?from + 3 * ?k" by (simp add: groups_to_def)
  show "length (frame_body fr) \<le> kMaxRawPerFrame"
    using pf from_to by (auto simp: frame_body_def Let_def frame_sizes split: if_splits)
  have opn: "encode_opening (room - 2) fr = (base64_groups ?open, fr\<lparr>fr_offset := ?from\<rparr>)"
    using assms(3) by (simp add: encode_opening_def encode_group_small groups_from_def frame_sizes Let_def)
  have len_open: "length (base64_groups ?open) = (if ?f then 4 else 0)"
    by (simp add: length_base64_groups base64_encoded_size_def)
  have groups: "encode_triplets ?k r (fr\<lparr>fr_offset := ?from\<rparr>) =
      (base64_groups (subspan ?from (3 * ?k) ?p), fr\<lparr>fr_offset := ?to\<rparr>)" if "4 * ?k \<le> r" for r
    using that pf(1) from_to by (simp add: encode_triplets_spec)
  have len_groups: "length (base64_groups (subspan ?from (3 * ?k) ?p)) = 4 * ?k"
    using pf(1) from_to by (simp add: length_base64_groups base64_encoded_size_def)
  have tail: "encode_tail r (fr\<lparr>fr_offset := ?to\<rparr>) =
      (base64_groups (drop ?to ?p @ ?crc), fr\<lparr>fr_offset := ?n\<rparr>)"
    if "carries_crc ?plan" "?n - ?to = 2 \<longrightarrow> 8 \<le> r" "4 \<le> r" for r
    using encode_tail_spec [of "fr\<lparr>fr_offset := ?to\<rparr>" r] pf(1) pf(4) [OF that(1)] that(2,3) by simp
  have room1: "4 * ?k \<le> room - (2 + length (base64_groups ?open))"
    using pf(5) assms(3) len_open by (simp add: frame_sizes split: if_splits)
  let ?r = "room - (2 + length (base64_groups ?open) + length (base64_groups (subspan ?from (3 * ?k) ?p)))"
  have room2: "?n - ?to = 2 \<longrightarrow> 8 \<le> ?r" "4 \<le> ?r" if "carries_crc ?plan"
  proof -
    have "?n - ?to + 3 * ?k \<le> 91" "?f \<Longrightarrow> ?n - ?to + 3 * ?k \<le> 88"
      using pf(6) [OF that] by (auto split: if_splits)
    moreover have "?r = room - (2 + (if ?f then 4 else 0) + 4 * ?k)"
      by (simp only: len_open len_groups)
    moreover have "127 \<le> room" using assms(3) by (simp add: frame_sizes)
    ultimately show "?n - ?to = 2 \<longrightarrow> 8 \<le> ?r" "4 \<le> ?r"
      using room_left [of room ?f "?n - ?to" ?k ?r] by blast+
  qed
  have body: "base64_groups (frame_body fr) = base64_groups ?open @
      base64_groups (subspan ?from (3 * ?k) ?p) @
      (if carries_crc ?plan then base64_groups (drop ?to ?p @ ?crc) else [])"
  proof -
    let ?mid = "subspan ?from (3 * ?k) ?p"
    let ?tail = "if carries_crc ?plan then drop ?to ?p @ ?crc else []"
    have "length ?open mod 3 = 0" "length ?mid mod 3 = 0" using pf(1) from_to by simp_all
    then have "base64_groups (?open @ ?mid @ ?tail) =
        base64_groups ?open @ base64_groups ?mid @ base64_groups ?tail"
      by (simp only: base64_groups_append)
    moreover have "base64_groups ?tail =
        (if carries_crc ?plan then base64_groups (drop ?to ?p @ ?crc) else [])" by simp
    moreover have "frame_body fr = ?open @ ?mid @ ?tail" by (simp only: frame_body_def Let_def)
    ultimately show ?thesis by (simp only:)
  qed
  show "next_frame room fr =
      ((if ?f then kPacketMarker else kFragmentMarker) @ base64_groups (frame_body fr) @ [newline],
       after_frame fr)"
  proof (cases "carries_crc ?plan")
    case True
    show ?thesis
      unfolding next_frame_def opn Let_def prod.case groups [OF room1] body after_frame_def
      using assms(1,3) True tail [OF True room2 [OF True]] by simp
  next
    case False
    show ?thesis
      unfolding next_frame_def opn Let_def prod.case groups [OF room1] body after_frame_def
      using assms(1,3) False by simp
  qed
qed

section \<open>All frames of a packet\<close>

text \<open>The caller's loop: frames into a buffer of \<open>kMaxFrame\<close> bytes until the framer is done.\<close>

definition framer_ok :: "framer \<Rightarrow> bool" where
  "framer_ok fr \<longleftrightarrow> (fr_first fr \<longrightarrow> fr_offset fr = 0) \<and> fr_crc fr = crc16_xmodem 0 (fr_packet fr) \<and>
     length (fr_packet fr) \<le> kMaxSerialPacket"

lemma after_frame_ok:
  assumes "framer_ok fr" and "\<not> framer_done fr"
  shows "framer_ok (after_frame fr)" and "fr_offset fr < fr_offset (after_frame fr)"
    and "fr_packet (after_frame fr) = fr_packet fr" and "\<not> fr_first (after_frame fr)"
  using assms plan_facts(2) [of "fr_offset fr" "length (fr_packet fr)" "fr_first fr"]
  by (auto simp: after_frame_def Let_def framer_ok_def framer_done_def)

function all_frames :: "framer \<Rightarrow> bytes list" where
  "all_frames fr =
     (if framer_done fr \<or> \<not> framer_ok fr then []
      else case next_frame kMaxFrame fr of (f, fr') \<Rightarrow> f # all_frames fr')"
  by pat_completeness auto
termination
proof (relation "measure (\<lambda>fr. length (fr_packet fr) - fr_offset fr)", goal_cases)
  case (2 fr f fr')
  then have fr: "framer_ok fr" "\<not> framer_done fr" and "fr' = after_frame fr"
    using next_frame_spec(1) [of fr kMaxFrame] by (auto simp: framer_ok_def)
  then show ?case using after_frame_ok [OF fr] by (auto simp: framer_done_def)
qed simp

declare all_frames.simps [simp del]

text \<open>A frame without its newline, as the line splitter delivers it.\<close>

definition frame_line :: "framer \<Rightarrow> bytes" where
  "frame_line fr = (if fr_first fr then kPacketMarker else kFragmentMarker) @ base64_groups (frame_body fr)"

lemma all_frames_step:
  "framer_ok fr \<Longrightarrow> \<not> framer_done fr \<Longrightarrow>
     all_frames fr = (frame_line fr @ [newline]) # all_frames (after_frame fr)"
  using next_frame_spec(1) [of fr kMaxFrame]
  by (subst all_frames.simps) (simp add: frame_line_def framer_ok_def)

lemma all_frames_done: "framer_done fr \<Longrightarrow> all_frames fr = []"
  by (subst all_frames.simps) simp

section \<open>Feeding lines\<close>

text \<open>The packets a sequence of lines completes, and the deframer after it.\<close>

fun run_lines :: "bytes list \<Rightarrow> deframer \<Rightarrow> bytes list \<times> deframer" where
  "run_lines [] d = ([], d)"
| "run_lines (l # ls) d =
     (case feed_line l d of (out, d1) \<Rightarrow>
        (case run_lines ls d1 of (ps, d2) \<Rightarrow> (if out = Packet then packet d1 # ps else ps, d2)))"

lemma decode_body:
  "length (frame_body fr) \<le> kMaxRawPerFrame \<Longrightarrow>
     length (base64_groups (frame_body fr)) \<le> kMaxBase64PerFrame \<and>
     base64_decode (base64_groups (frame_body fr)) kMaxRawPerFrame = Some (frame_body fr)"
  by (simp add: base64_decode_def base64_max_decoded_size_def decode_groups length_base64_groups
      base64_encoded_size_def frame_sizes)

text \<open>A deframer in the middle of a packet of which \<open>k\<close> bytes have arrived.\<close>

definition midway :: "bytes \<Rightarrow> nat \<Rightarrow> deframer \<Rightarrow> bool" where
  "midway p k d \<longleftrightarrow> buffer d = take k p \<and> 0 < k \<and> k \<le> length p \<and> declared d = length p + 2 \<and>
     ready_size d = 0"

definition delivered :: "bytes \<Rightarrow> outcome \<times> deframer \<Rightarrow> bool" where
  "delivered p r \<longleftrightarrow> fst r = Packet \<and> packet (snd r) = p"

lemma judge_partial:
  "midway p k d \<Longrightarrow> k < length p + 2 \<Longrightarrow> judge_packet d = (NeedMore, d)"
  by (auto simp: judge_packet_def midway_def)

lemma judge_whole:
  assumes "buffer d = p @ [high_byte c, low_byte c]" and "c = crc16_xmodem 0 p"
    and "declared d = length p + 2"
  shows "delivered p (judge_packet d) \<and> max_packet (snd (judge_packet d)) = max_packet d"
  using assms crc_residue [of c] by (simp add: judge_packet_def delivered_def packet_def)

lemma feed_continuation:
  assumes ok: "framer_ok fr" and nd: "\<not> framer_done fr" and nf: "\<not> fr_first fr"
    and mid: "midway (fr_packet fr) (fr_offset fr) d"
  shows "if framer_done (after_frame fr)
    then delivered (fr_packet fr) (feed_line (frame_line fr) d) \<and>
      max_packet (snd (feed_line (frame_line fr) d)) = max_packet d
    else \<exists>d'. feed_line (frame_line fr) d = (NeedMore, d') \<and> max_packet d' = max_packet d \<and>
      midway (fr_packet fr) (fr_offset (after_frame fr)) d'"
proof -
  let ?p = "fr_packet fr" and ?n = "length (fr_packet fr)" and ?i = "fr_offset fr"
  let ?plan = "plan_frame ?n ?i False" and ?to = "groups_to ?n ?i False"
  have i: "?i < ?n" using nd by (simp add: framer_done_def)
  note pf = plan_facts [OF i, of False]
  have to: "?to = ?i + 3 * triplets ?plan" by (simp add: groups_to_def groups_from_def)
  let ?body = "frame_body fr"
  have body: "?body = subspan ?i (3 * triplets ?plan) ?p @
      (if carries_crc ?plan then drop ?to ?p @ [high_byte (fr_crc fr), low_byte (fr_crc fr)] else [])"
    using nf by (simp add: frame_body_def Let_def groups_from_def)
  have joined: "take ?i ?p @ ?body = (if carries_crc ?plan
      then ?p @ [high_byte (fr_crc fr), low_byte (fr_crc fr)] else take ?to ?p)"
    unfolding body to subspan_def by (simp add: take_add [symmetric]) (metis append.assoc append_take_drop_id take_add)
  have len: "length (take ?i ?p @ ?body) \<le> ?n + 2" unfolding joined by (simp add: min.coboundedI1)
  have fits: "length ?body \<le> kMaxRawPerFrame"
    using next_frame_spec(2) [OF nd, of kMaxFrame] ok by (simp add: framer_ok_def)
  let ?b = "take ?i ?p @ ?body"
  let ?d = "d\<lparr>buffer := ?b, peak := (if length ?b > peak d then length ?b else peak d)\<rparr>"
  have "decode_into_buffer (base64_groups ?body) d = Some ?d"
    using decode_body [OF fits] mid len by (simp add: decode_into_buffer_def midway_def Let_def)
  then have feed: "feed_line (frame_line fr) d = judge_packet ?d"
    using mid nf i by (auto simp: feed_line_def frame_line_def midway_def kMarkerSize_def
        kFragmentMarker_def kPacketMarker_def Let_def)
  show ?thesis
  proof (cases "carries_crc ?plan")
    case True
    then have "framer_done (after_frame fr)"
      using nf by (simp add: framer_done_def after_frame_def Let_def)
    then show ?thesis
      using judge_whole [of ?d ?p "fr_crc fr"] True joined ok mid feed
      by (simp add: framer_ok_def midway_def)
  next
    case False
    then have "fr_offset (after_frame fr) = ?to" "\<not> framer_done (after_frame fr)"
      using nf pf(3) by (simp_all add: framer_done_def after_frame_def Let_def)
    moreover have "midway ?p ?to ?d"
      using mid joined False pf(1) to by (simp add: midway_def)
    ultimately show ?thesis using judge_partial [of ?p ?to ?d] pf(1) feed by simp
  qed
qed

lemma feed_start:
  assumes ok: "framer_ok fr" and nd: "\<not> framer_done fr" and f: "fr_first fr"
    and max: "length (fr_packet fr) + 2 \<le> max_packet d"
  shows "if framer_done (after_frame fr)
    then delivered (fr_packet fr) (feed_line (frame_line fr) d) \<and>
      max_packet (snd (feed_line (frame_line fr) d)) = max_packet d
    else \<exists>d'. feed_line (frame_line fr) d = (NeedMore, d') \<and> max_packet d' = max_packet d \<and>
      midway (fr_packet fr) (fr_offset (after_frame fr)) d'"
proof -
  let ?p = "fr_packet fr" and ?n = "length (fr_packet fr)"
  let ?plan = "plan_frame ?n 0 True" and ?to = "groups_to ?n 0 True"
  let ?dec = "of_nat (?n + 2) :: u16" and ?crc = "[high_byte (fr_crc fr), low_byte (fr_crc fr)]"
  have i: "fr_offset fr = 0" "0 < ?n" using ok f nd by (auto simp: framer_ok_def framer_done_def)
  note pf = plan_facts [OF i(2), of True]
  have to: "?to = 1 + 3 * triplets ?plan" by (simp add: groups_to_def groups_from_def)
  define rest where "rest = (if carries_crc ?plan then ?p @ ?crc else take ?to ?p)"
  let ?body = "frame_body fr"
  have "?p ! 0 # subspan 1 (3 * triplets ?plan) ?p = take ?to ?p"
    using i(2) unfolding to subspan_def by (cases ?p) simp_all
  then have body: "?body = [high_byte ?dec, low_byte ?dec] @ rest"
    using f i(1) by (simp add: frame_body_def Let_def groups_from_def rest_def)
      (metis append_Cons append_take_drop_id append.assoc)
  have fits: "length ?body \<le> kMaxRawPerFrame"
    using next_frame_spec(2) [OF nd, of kMaxFrame] ok by (simp add: framer_ok_def)
  have n2: "unat ?dec = ?n + 2"
    using ok unfolding unat_of_nat by (simp add: framer_ok_def kMaxSerialPacket_def)
  define d0 where "d0 = (if ready_size d \<noteq> 0 then d\<lparr>buffer := [], ready_size := 0\<rparr> else d)"
  let ?d2 = "d0\<lparr>buffer := ?body, declared := 0,
    peak := (if length ?body > peak d then length ?body else peak d)\<rparr>"
  let ?d3 = "?d2\<lparr>buffer := rest, declared := ?n + 2\<rparr>"
  have dec: "decode_into_buffer (base64_groups ?body) (d0\<lparr>buffer := [], declared := 0\<rparr>) = Some ?d2"
    using decode_body [OF fits] by (simp add: decode_into_buffer_def Let_def d0_def)
  have "length rest \<le> ?n + 2" using pf(1) by (simp add: rest_def)
  then have "take_declared_length ?d2 = Some ?d3"
    using max i(2) n2 by (simp add: take_declared_length_def body Let_def d0_def)
  then have feed: "feed_line (frame_line fr) d = judge_packet ?d3"
    unfolding feed_line_def Let_def d0_def [symmetric]
    using dec f by (simp add: frame_line_def kMarkerSize_def kPacketMarker_def)
  show ?thesis
  proof (cases "carries_crc ?plan")
    case True
    then have "framer_done (after_frame fr)"
      using f i(1) by (simp add: framer_done_def after_frame_def Let_def)
    then show ?thesis
      using judge_whole [of ?d3 ?p "fr_crc fr"] True ok feed
      by (simp add: framer_ok_def rest_def d0_def)
  next
    case False
    then have "fr_offset (after_frame fr) = ?to" "\<not> framer_done (after_frame fr)"
      using f i(1) pf(3) by (simp_all add: framer_done_def after_frame_def Let_def)
    moreover have "midway ?p ?to ?d3"
      using False pf(1) to by (simp add: midway_def rest_def d0_def)
    ultimately show ?thesis using judge_partial [of ?p ?to ?d3] pf(1) feed
      by (simp add: d0_def)
  qed
qed

text \<open>All lines of a packet, from the start or from the middle.\<close>

definition frame_lines :: "framer \<Rightarrow> bytes list" where
  "frame_lines fr = map butlast (all_frames fr)"

lemma frame_lines_step:
  "framer_ok fr \<Longrightarrow> \<not> framer_done fr \<Longrightarrow>
     frame_lines fr = frame_line fr # frame_lines (after_frame fr)"
  by (simp add: frame_lines_def all_frames_step)

lemma run_lines_packet:
  "framer_ok fr \<Longrightarrow> \<not> framer_done fr \<Longrightarrow>
     (if fr_first fr then length (fr_packet fr) + 2 \<le> max_packet d
      else midway (fr_packet fr) (fr_offset fr) d) \<Longrightarrow>
     \<exists>d'. run_lines (frame_lines fr) d = ([fr_packet fr], d') \<and> max_packet d' = max_packet d"
proof (induction "length (fr_packet fr) - fr_offset fr" arbitrary: fr d rule: less_induct)
  case less
  let ?next = "after_frame fr"
  note ok = after_frame_ok [OF less.prems(1,2)]
  have step: "if framer_done ?next
      then delivered (fr_packet fr) (feed_line (frame_line fr) d) \<and>
        max_packet (snd (feed_line (frame_line fr) d)) = max_packet d
      else \<exists>d'. feed_line (frame_line fr) d = (NeedMore, d') \<and> max_packet d' = max_packet d \<and>
        midway (fr_packet fr) (fr_offset ?next) d'"
  proof (cases "fr_first fr")
    case True
    then show ?thesis using feed_start [OF less.prems(1,2) True, of d] less.prems(3) by simp
  next
    case False
    then show ?thesis using feed_continuation [OF less.prems(1,2) False, of d] less.prems(3) by simp
  qed
  show ?case
  proof (cases "framer_done ?next")
    case True
    then have "frame_lines ?next = []" by (simp add: frame_lines_def all_frames_done)
    then show ?thesis using step True frame_lines_step [OF less.prems(1,2)]
      by (cases "feed_line (frame_line fr) d") (simp add: delivered_def)
  next
    case False
    then obtain d' where d': "feed_line (frame_line fr) d = (NeedMore, d')" "max_packet d' = max_packet d"
      "midway (fr_packet fr) (fr_offset ?next) d'" using step by auto
    have "length (fr_packet ?next) - fr_offset ?next < length (fr_packet fr) - fr_offset fr"
      using ok(2,3) less.prems(2) by (simp add: framer_done_def)
    then obtain d'' where "run_lines (frame_lines ?next) d' = ([fr_packet fr], d'')"
      "max_packet d'' = max_packet d'"
      using less.hyps [of ?next d'] ok False d'(3) by auto
    then show ?thesis using d' frame_lines_step [OF less.prems(1,2)] by simp
  qed
qed

lemma run_lines_append:
  "run_lines (xs @ ys) d = (case run_lines xs d of (ps, d1) \<Rightarrow>
     (case run_lines ys d1 of (qs, d2) \<Rightarrow> (ps @ qs, d2)))"
  by (induction xs arbitrary: d) (auto split: prod.splits)

lemma framer_init:
  "length p \<le> kMaxSerialPacket \<Longrightarrow> p \<noteq> [] \<Longrightarrow>
     framer_ok (SerialFramer p) \<and> \<not> framer_done (SerialFramer p) \<and> fr_packet (SerialFramer p) = p \<and>
     fr_first (SerialFramer p)"
  by (simp add: framer_ok_def framer_done_def SerialFramer_def)

lemma run_lines_packets:
  "\<forall>p\<in>set ps. p \<noteq> [] \<and> length p \<le> kMaxSerialPacket \<and> length p + 2 \<le> max_packet d \<Longrightarrow>
     \<exists>d'. run_lines (concat (map (\<lambda>p. frame_lines (SerialFramer p)) ps)) d = (ps, d') \<and>
       max_packet d' = max_packet d"
proof (induction ps arbitrary: d)
  case (Cons p ps)
  then obtain d1 where "run_lines (frame_lines (SerialFramer p)) d = ([p], d1)" "max_packet d1 = max_packet d"
    using run_lines_packet [of "SerialFramer p" d] framer_init [of p] by auto
  moreover from this obtain d2 where
    "run_lines (concat (map (\<lambda>p. frame_lines (SerialFramer p)) ps)) d1 = (ps, d2)" "max_packet d2 = max_packet d1"
    using Cons by (metis list.set_intros(2))
  ultimately show ?case by (simp add: run_lines_append)
qed simp

section \<open>Splitting into lines\<close>

lemma next_line_shorter: "next_line chunk s = (Some l, rest, s') \<Longrightarrow> length rest < length chunk"
  by (induction chunk s rule: next_line.induct) (fastforce simp: Let_def split: if_splits)+

text \<open>The caller's inner loop: every line a chunk completes.\<close>

function chunk_lines :: "bytes \<Rightarrow> splitter \<Rightarrow> bytes list \<times> splitter" where
  "chunk_lines chunk s =
     (case next_line chunk s of
        (None, _, s') \<Rightarrow> ([], s')
      | (Some l, rest, s') \<Rightarrow> (case chunk_lines rest s' of (ls, s'') \<Rightarrow> (l # ls, s'')))"
  by pat_completeness auto
termination
  by (relation "measure (length \<circ> fst)")
    (simp, metis comp_apply fst_conv in_measure next_line_shorter)

declare chunk_lines.simps [simp del]

lemma next_line_append:
  "next_line (xs @ ys) s = (case next_line xs s of
     (None, _, s') \<Rightarrow> next_line ys s'
   | (Some l, rest, s') \<Rightarrow> (Some l, rest @ ys, s'))"
  by (induction xs s rule: next_line.induct) (auto simp: Let_def)

lemma chunk_lines_append:
  "chunk_lines (xs @ ys) s = (case chunk_lines xs s of (ls, s1) \<Rightarrow>
     (case chunk_lines ys s1 of (ms, s2) \<Rightarrow> (ls @ ms, s2)))"
proof (induction xs s rule: chunk_lines.induct)
  case (1 xs s)
  obtain r rest s' where n: "next_line xs s = (r, rest, s')" by (cases "next_line xs s")
  show ?case
  proof (cases r)
    case None
    then show ?thesis using n
      by (simp add: chunk_lines.simps [of xs] chunk_lines.simps [of "xs @ ys"] next_line_append
          chunk_lines.simps [of ys] split: prod.split)
  next
    case (Some l)
    then show ?thesis using n "1.IH" [OF n [symmetric]]
      by (simp add: chunk_lines.simps [of xs] chunk_lines.simps [of "xs @ ys"] next_line_append
          split: prod.split)
  qed
qed

text \<open>A splitter at the start of a line.\<close>

definition fresh :: "splitter \<Rightarrow> bool" where
  "fresh s \<longleftrightarrow> line s = [] \<and> \<not> discarding s"

lemma next_line_plain:
  "newline \<notin> set l \<Longrightarrow> \<not> discarding s \<Longrightarrow> length (line s) + length l \<le> max_line s \<Longrightarrow>
     line s @ l = [] \<or> last (line s @ l) \<noteq> carriage_return \<Longrightarrow>
     next_line (l @ newline # rest) s = (Some (line s @ l), rest, s\<lparr>ready := line s @ l, line := []\<rparr>)"
proof (induction l arbitrary: s)
  case (Cons b l)
  then show ?case using Cons.IH [of "s\<lparr>line := line s @ [b]\<rparr>"] by auto
qed (auto simp: Let_def)

lemma chunk_lines_plain:
  assumes "\<forall>l\<in>set ls. newline \<notin> set l \<and> carriage_return \<notin> set l \<and> length l \<le> max_line s"
    and "fresh s"
  shows "\<exists>s'. chunk_lines (concat (map (\<lambda>l. l @ [newline]) ls)) s = (ls, s') \<and> fresh s' \<and>
    max_line s' = max_line s"
  using assms
proof (induction ls arbitrary: s)
  case Nil
  then show ?case by (simp add: chunk_lines.simps [of "[]"])
next
  case (Cons l ls)
  let ?rest = "concat (map (\<lambda>l. l @ [newline]) ls)" and ?s = "s\<lparr>ready := l, line := []\<rparr>"
  have "l = [] \<or> last l \<noteq> carriage_return" using Cons.prems(1) last_in_set [of l] by fastforce
  then have n: "next_line (l @ newline # ?rest) s = (Some l, ?rest, ?s)"
    using next_line_plain [of l s ?rest] Cons.prems by (simp add: fresh_def)
  obtain s' where "chunk_lines ?rest ?s = (ls, s')" "fresh s'" "max_line s' = max_line s"
    using Cons.IH [of ?s] Cons.prems by (auto simp: fresh_def)
  then show ?case using n by (simp add: chunk_lines.simps [of "l @ newline # ?rest"])
qed

lemma frame_line_chars:
  assumes "framer_ok fr" and "\<not> framer_done fr"
  shows "newline \<notin> set (frame_line fr)" and "carriage_return \<notin> set (frame_line fr)"
    and "length (frame_line fr) \<le> kMaxFrame"
proof -
  have "length (base64_groups (frame_body fr)) \<le> kMaxBase64PerFrame"
    using decode_body next_frame_spec(2) [OF assms(2), of kMaxFrame] assms(1) by (simp add: framer_ok_def)
  then show "length (frame_line fr) \<le> kMaxFrame"
    by (simp add: frame_line_def frame_sizes kPacketMarker_def kFragmentMarker_def)
  show "newline \<notin> set (frame_line fr)" "carriage_return \<notin> set (frame_line fr)"
    using base64_groups_chars [of "frame_body fr"] alphabet_facts(4,5)
    by (auto simp: frame_line_def kPacketMarker_def kFragmentMarker_def)
qed

lemma frame_lines_chars:
  "framer_ok fr \<Longrightarrow> \<forall>l\<in>set (frame_lines fr). newline \<notin> set l \<and> carriage_return \<notin> set l \<and> length l \<le> kMaxFrame"
proof (induction fr rule: all_frames.induct)
  case (1 fr)
  show ?case
  proof (cases "framer_done fr")
    case True
    then show ?thesis by (simp add: frame_lines_def all_frames_done)
  next
    case False
    then show ?thesis
      using 1 frame_lines_step [OF "1.prems" False] frame_line_chars [OF "1.prems" False]
        after_frame_ok(1) [OF "1.prems" False] next_frame_spec(1) [OF False, of kMaxFrame] "1.prems"
      by (auto simp: framer_ok_def)
  qed
qed

lemma all_frames_lines:
  "framer_ok fr \<Longrightarrow> concat (all_frames fr) = concat (map (\<lambda>l. l @ [newline]) (frame_lines fr))"
proof (induction fr rule: all_frames.induct)
  case (1 fr)
  show ?case
  proof (cases "framer_done fr")
    case True
    then show ?thesis by (simp add: frame_lines_def all_frames_done)
  next
    case False
    then show ?thesis
      using 1 frame_lines_step [OF "1.prems" False] all_frames_step [OF "1.prems" False]
        after_frame_ok(1) [OF "1.prems" False] next_frame_spec(1) [OF False, of kMaxFrame] "1.prems"
      by (simp add: framer_ok_def)
  qed
qed

section \<open>Lines that are not frames\<close>

text \<open>What a deframer's answers depend on: neither counters, nor high-water mark, nor a packet
  already handed out.\<close>

definition core :: "deframer \<Rightarrow> bytes \<times> nat \<times> nat" where
  "core d = (if ready_size d \<noteq> 0 then [] else buffer d, declared d, max_packet d)"

definition is_frame :: "bytes \<Rightarrow> bool" where
  "is_frame l \<longleftrightarrow> take 2 l = kPacketMarker \<or> take 2 l = kFragmentMarker"

lemma feed_line_noise:
  "\<not> is_frame l \<Longrightarrow> fst (feed_line l d) = Ignored \<and> core (snd (feed_line l d)) = core d"
  by (simp add: feed_line_def ignore_line_def is_frame_def core_def Let_def)

text \<open>Two deframers with nothing handed out that answer alike, and two answers alike.\<close>

definition alike :: "deframer \<Rightarrow> deframer \<Rightarrow> bool" where
  "alike d d' \<longleftrightarrow> buffer d = buffer d' \<and> declared d = declared d' \<and> max_packet d = max_packet d' \<and>
     ready_size d = 0 \<and> ready_size d' = 0"

definition same_answer :: "outcome \<times> deframer \<Rightarrow> outcome \<times> deframer \<Rightarrow> bool" where
  "same_answer r r' \<longleftrightarrow> fst r = fst r' \<and> core (snd r) = core (snd r') \<and> packet (snd r) = packet (snd r')"

lemma same_answer_steps:
  assumes "alike d d'"
  shows "same_answer (judge_packet d) (judge_packet d')"
    and "same_answer (framing_fail d) (framing_fail d')"
    and "same_answer (ignore_line d) (ignore_line d')"
    and "rel_option alike (decode_into_buffer body d) (decode_into_buffer body d')"
    and "rel_option alike (take_declared_length d) (take_declared_length d')"
    and "alike (d\<lparr>buffer := [], declared := 0\<rparr>) (d'\<lparr>buffer := [], declared := 0\<rparr>)"
  using assms
  by (simp_all add: alike_def same_answer_def judge_packet_def framing_fail_def ignore_line_def core_def
      packet_def decode_into_buffer_def take_declared_length_def Let_def split: option.split)

lemma feed_line_alike:
  assumes "alike d d'"
  shows "same_answer (feed_line l d) (feed_line l d')"
proof -
  let ?starts = "take 2 l = kPacketMarker"
  define e where "e = (if ?starts then d\<lparr>buffer := [], declared := 0\<rparr> else d)"
  define e' where "e' = (if ?starts then d'\<lparr>buffer := [], declared := 0\<rparr> else d')"
  have norm: "(if ready_size d \<noteq> 0 then d\<lparr>buffer := [], ready_size := 0\<rparr> else d) = d"
    "(if ready_size d' \<noteq> 0 then d'\<lparr>buffer := [], ready_size := 0\<rparr> else d') = d'"
    using assms by (simp_all add: alike_def)
  have e: "alike e e'" using assms same_answer_steps(6) by (simp add: e_def e'_def)
  then have buf: "buffer e = [] \<longleftrightarrow> buffer e' = []" by (simp add: alike_def)
  have split: "same_answer
      (case decode_into_buffer body e of None \<Rightarrow> framing_fail e
       | Some d2 \<Rightarrow> if ?starts then (case take_declared_length d2 of None \<Rightarrow> framing_fail d2
           | Some d3 \<Rightarrow> judge_packet d3) else judge_packet d2)
      (case decode_into_buffer body e' of None \<Rightarrow> framing_fail e'
       | Some d2 \<Rightarrow> if ?starts then (case take_declared_length d2 of None \<Rightarrow> framing_fail d2
           | Some d3 \<Rightarrow> judge_packet d3) else judge_packet d2)" for body
    using same_answer_steps(4) [OF e, of body]
  proof (cases rule: option.rel_cases)
    case (Some d2 d2')
    then show ?thesis using same_answer_steps(5) [OF Some(3)]
      by (cases "take_declared_length d2"; cases "take_declared_length d2'")
        (auto intro: same_answer_steps)
  qed (simp add: same_answer_steps(2) [OF e])
  show ?thesis
    unfolding feed_line_def Let_def norm e_def [symmetric] e'_def [symmetric]
    using split buf same_answer_steps(2) [OF e] same_answer_steps(3) [OF assms] by simp
qed

lemma run_lines_alike: "core d = core d' \<Longrightarrow> fst (run_lines ls d) = fst (run_lines ls d')"
proof (induction ls arbitrary: d d')
  case (Cons l ls)
  have norm: "feed_line l d = feed_line l (if ready_size d \<noteq> 0 then d\<lparr>buffer := [], ready_size := 0\<rparr> else d)" for d
    by (simp add: feed_line_def)
  have "same_answer (feed_line l d) (feed_line l d')"
    unfolding norm [of d] norm [of d'] using Cons.prems
    by (intro feed_line_alike) (auto simp: alike_def core_def split: if_splits)
  moreover obtain o1 d1 o2 d2 where "feed_line l d = (o1, d1)" "feed_line l d' = (o2, d2)"
    by (cases "feed_line l d"; cases "feed_line l d'")
  ultimately show ?case using Cons.IH [of d1 d2]
    by (cases "run_lines ls d1"; cases "run_lines ls d2") (auto simp: same_answer_def)
qed simp

lemma run_lines_filter: "fst (run_lines (filter is_frame ls) d) = fst (run_lines ls d)"
proof (induction ls arbitrary: d)
  case (Cons l ls)
  show ?case
  proof (cases "is_frame l")
    case True
    then show ?thesis using Cons.IH by (auto split: prod.splits) (metis fst_conv)+
  next
    case False
    obtain d1 where d1: "feed_line l d = (Ignored, d1)" "core d1 = core d"
      using feed_line_noise [OF False, of d] by (cases "feed_line l d") auto
    have "fst (run_lines (l # ls) d) = fst (run_lines ls d1)" using d1(1) by (simp split: prod.splits)
    also have "\<dots> = fst (run_lines (filter is_frame ls) d)"
      using run_lines_alike [OF d1(2)] Cons.IH by simp
    finally show ?thesis using False by simp
  qed
qed simp

section \<open>Bounds\<close>

definition deframer_inv :: "nat \<Rightarrow> deframer \<Rightarrow> bool" where
  "deframer_inv m d \<longleftrightarrow> max_packet d = m \<and> peak d \<le> max kMaxRawPerFrame m \<and>
     length (buffer d) \<le> peak d \<and>
     (if ready_size d \<noteq> 0
      then length (buffer d) = ready_size d + 2 \<and> length (buffer d) \<le> m \<and>
        declared d = 0 \<and> crc16_xmodem 0 (buffer d) = 0
      else length (buffer d) < declared d \<and> 2 < declared d \<and> declared d \<le> m \<or>
        buffer d = [] \<and> declared d = 0)"

lemma decode_quartets_length: "decode_quartets bs = Some r \<Longrightarrow> length r \<le> base64_max_decoded_size (length bs)"
proof (induction bs arbitrary: r rule: decode_quartets.induct)
  case (1 s0 s1 s2 s3 rest)
  have three: "n \<le> 3" if "decode_symbols f j q ss = Some (q', n)" "j + length ss = 4" for f j q ss q' n
    using that by (induction f j q ss rule: decode_symbols.induct) (auto split: if_splits option.splits)
  obtain q n tl where "decode_symbols (rest = []) 0 0 [s0, s1, s2, s3] = Some (q, n)"
    "decode_quartets rest = Some tl" "r = quad_bytes q n @ tl"
    using "1.prems" by (auto split: option.splits simp del: decode_symbols.simps)
  moreover from this have "n \<le> 3" using three [of "rest = []" 0 0 "[s0, s1, s2, s3]"]
    by (simp del: decode_symbols.simps)
  moreover have "length tl \<le> base64_max_decoded_size (length rest)"
    using "1.IH" calculation by (metis)
  moreover have "(4 + length rest) div 4 = Suc (length rest div 4)" by simp
  ultimately show ?case by (simp add: quad_bytes_def base64_max_decoded_size_def del: decode_symbols.simps)
qed (simp_all add: base64_max_decoded_size_def)

lemma base64_decode_length: "base64_decode body n = Some r \<Longrightarrow> length r \<le> n"
  using decode_quartets_length [of body r] by (auto simp: base64_decode_def split: if_splits)

text \<open>An answer that keeps the invariant and announces a packet only when one is held.\<close>

definition sound_answer :: "nat \<Rightarrow> outcome \<times> deframer \<Rightarrow> bool" where
  "sound_answer m r \<longleftrightarrow> deframer_inv m (snd r) \<and> (fst r = Packet \<longrightarrow> ready_size (snd r) \<noteq> 0)"

lemma deframer_inv_steps:
  assumes "deframer_inv m d" and "ready_size d = 0"
  shows "sound_answer m (framing_fail d)" and "sound_answer m (ignore_line d)"
  using assms by (simp_all add: sound_answer_def deframer_inv_def framing_fail_def ignore_line_def)

text \<open>Between decoding a line and judging the packet.\<close>

definition filled :: "nat \<Rightarrow> deframer \<Rightarrow> bool" where
  "filled m d \<longleftrightarrow> max_packet d = m \<and> peak d \<le> max kMaxRawPerFrame m \<and> length (buffer d) \<le> peak d \<and>
     ready_size d = 0"

lemma filled_decode:
  assumes "filled m d" and "decode_into_buffer body d = Some d'"
    and "buffer d = [] \<and> declared d = 0 \<or> length (buffer d) < declared d \<and> declared d \<le> m"
  shows "filled m d' \<and> declared d' = declared d \<and>
    (declared d \<noteq> 0 \<longrightarrow> length (buffer d') \<le> declared d)"
  using assms base64_decode_length [of body kMaxRawPerFrame]
  by (auto simp: decode_into_buffer_def filled_def Let_def split: if_splits option.splits)

lemma judge_filled:
  assumes "filled m d" and "2 < declared d" "declared d \<le> m" "length (buffer d) \<le> declared d"
  shows "sound_answer m (judge_packet d)"
  using assms
  by (auto simp: sound_answer_def judge_packet_def framing_fail_def deframer_inv_def filled_def)

lemma feed_line_sound:
  assumes "deframer_inv m d0"
  shows "sound_answer m (feed_line l d0)"
proof -
  define d where "d = (if ready_size d0 \<noteq> 0 then d0\<lparr>buffer := [], ready_size := 0\<rparr> else d0)"
  let ?starts = "take 2 l = kPacketMarker"
  define e where "e = (if ?starts then d\<lparr>buffer := [], declared := 0\<rparr> else d)"
  have d: "deframer_inv m d" "ready_size d = 0"
    using assms by (auto simp: d_def deframer_inv_def split: if_splits)
  have e: "deframer_inv m e" "ready_size e = 0" using d by (auto simp: e_def deframer_inv_def)
  have starts: "declared e = 0" "buffer e = []" if ?starts using that by (simp_all add: e_def)
  have step: "sound_answer m (case decode_into_buffer body e of
      None \<Rightarrow> framing_fail e
    | Some d2 \<Rightarrow> if ?starts then (case take_declared_length d2 of
         None \<Rightarrow> framing_fail d2 | Some d3 \<Rightarrow> judge_packet d3) else judge_packet d2)"
    if "?starts \<or> buffer e \<noteq> []" for body
  proof (cases "decode_into_buffer body e")
    case None
    then show ?thesis using deframer_inv_steps(1) [OF e] by simp
  next
    case (Some d2)
    have f2: "filled m d2" "declared d2 = declared e"
        "declared e \<noteq> 0 \<longrightarrow> length (buffer d2) \<le> declared e"
      using filled_decode [OF _ Some, of m] e by (auto simp: filled_def deframer_inv_def)
    show ?thesis
    proof (cases ?starts)
      case True
      have "sound_answer m (framing_fail d2)"
        using f2 by (simp add: sound_answer_def framing_fail_def deframer_inv_def filled_def)
      moreover have "sound_answer m (judge_packet d3)" if "take_declared_length d2 = Some d3" for d3
        using that f2 by (intro judge_filled)
          (auto simp: take_declared_length_def filled_def Let_def split: if_splits)
      ultimately show ?thesis using True Some by (simp split: option.split)
    next
      case False
      then have "2 < declared e" "declared e \<le> m" using e that by (auto simp: deframer_inv_def)
      then show ?thesis using False Some f2 judge_filled [of m d2] by simp
    qed
  qed
  show ?thesis
    unfolding feed_line_def Let_def d_def [symmetric] e_def [symmetric]
    using step deframer_inv_steps [OF d] deframer_inv_steps [OF e] by simp
qed

lemma feed_line_inv: "deframer_inv m d \<Longrightarrow> deframer_inv m (snd (feed_line l d))"
  using feed_line_sound [of m d l] by (simp add: sound_answer_def)

lemma run_lines_inv:
  "deframer_inv m d \<Longrightarrow> deframer_inv m (snd (run_lines ls d))"
proof (induction ls arbitrary: d)
  case (Cons l ls)
  then show ?case using feed_line_inv [OF Cons.prems, of l] by (auto split: prod.splits) (metis snd_conv)
qed simp

text \<open>A packet that is handed out passed the CRC, is not empty, and is within the limit.\<close>

lemma feed_line_packet:
  assumes "deframer_inv m d" and "feed_line l d = (Packet, d')"
  shows "packet d' \<noteq> [] \<and> length (packet d') + 2 \<le> m \<and>
    (\<exists>c. length c = 2 \<and> crc16_xmodem 0 (packet d' @ c) = 0)"
proof -
  let ?n = "ready_size d'"
  have held: "length (buffer d') = ?n + 2" "?n + 2 \<le> m" "?n \<noteq> 0" "crc16_xmodem 0 (buffer d') = 0"
    using feed_line_sound [OF assms(1), of l] assms(2)
    by (auto simp: sound_answer_def deframer_inv_def)
  moreover have "crc16_xmodem 0 (packet d' @ drop ?n (buffer d')) = 0"
    using held(4) by (simp add: packet_def)
  ultimately show ?thesis
    by (intro conjI exI [of _ "drop ?n (buffer d')"]) (auto simp: packet_def)
qed

text \<open>What the framer writes is the stream of those lines, each within the splitter's limit.\<close>

lemma frames_are_lines:
  assumes "p \<noteq> []" and "length p \<le> kMaxSerialPacket"
  shows "concat (all_frames (SerialFramer p)) =
      concat (map (\<lambda>l. l @ [newline]) (frame_lines (SerialFramer p)))"
    and "\<forall>l\<in>set (frame_lines (SerialFramer p)).
      newline \<notin> set l \<and> carriage_return \<notin> set l \<and> length l \<le> kMaxFrame"
  using all_frames_lines frame_lines_chars framer_init assms by blast+

lemma feed_line_counts:
  "feed_line l d = (out, d') \<Longrightarrow>
     packets (counters d') = (if out = Packet then packets (counters d) + 1 else packets (counters d))"
  by (auto simp: feed_line_def ignore_line_def framing_fail_def judge_packet_def decode_into_buffer_def
      take_declared_length_def Let_def split: if_splits option.splits)

lemma run_lines_counts:
  "packets (counters (snd (run_lines ls d))) = packets (counters d) + length (fst (run_lines ls d))"
proof (induction ls arbitrary: d)
  case (Cons l ls)
  obtain out d1 where "feed_line l d = (out, d1)" by (cases "feed_line l d")
  then show ?case using Cons.IH [of d1] feed_line_counts [of l d out d1]
    by (cases "run_lines ls d1") simp
qed simp

lemma run_lines_verified:
  "deframer_inv m d \<Longrightarrow> list_all (\<lambda>p. p \<noteq> [] \<and> length p + 2 \<le> m \<and>
     (\<exists>c. length c = 2 \<and> crc16_xmodem 0 (p @ c) = 0)) (fst (run_lines ls d))"
proof (induction ls arbitrary: d)
  case (Cons l ls)
  obtain out d1 where r: "feed_line l d = (out, d1)" by (cases "feed_line l d")
  have "deframer_inv m d1" using feed_line_inv [OF Cons.prems, of l] r by simp
  moreover have "out = Packet \<Longrightarrow> packet d1 \<noteq> [] \<and> length (packet d1) + 2 \<le> m \<and>
      (\<exists>c. length c = 2 \<and> crc16_xmodem 0 (packet d1 @ c) = 0)"
    using feed_line_packet [OF Cons.prems, of l d1] r by simp
  ultimately show ?case using Cons.IH [of d1] r by (cases "run_lines ls d1") simp
qed simp

text \<open>The counting loop follows the frames.\<close>

lemma count_loop_frames:
  "framer_ok fr \<Longrightarrow>
     count_loop (length (fr_packet fr)) (fr_offset fr) (fr_first fr) n = n + length (all_frames fr)"
proof (induction "length (fr_packet fr) - fr_offset fr" arbitrary: fr n rule: less_induct)
  case less
  show ?case
  proof (cases "framer_done fr")
    case True
    then show ?thesis by (simp add: all_frames_done count_loop.simps framer_done_def)
  next
    case False
    let ?plan = "plan_frame (length (fr_packet fr)) (fr_offset fr) (fr_first fr)"
    note next_fr = after_frame_ok [OF less.prems False]
    have "count_loop (length (fr_packet fr)) (fr_offset fr) (fr_first fr) n =
        count_loop (length (fr_packet (after_frame fr))) (fr_offset (after_frame fr))
          (fr_first (after_frame fr)) (n + 1)"
      using False by (subst count_loop.simps)
        (simp add: framer_done_def after_frame_def groups_to_def groups_from_def Let_def)
    also have "\<dots> = n + 1 + length (all_frames (after_frame fr))"
      using next_fr False by (intro less.hyps) (auto simp: framer_done_def)
    finally show ?thesis by (simp add: all_frames_step [OF less.prems False])
  qed
qed

section \<open>Properties\<close>

text \<open>The receiving side of a link: chunks as the port delivers them, lines, packets.\<close>

fun serial_receive :: "bytes list \<Rightarrow> splitter \<Rightarrow> deframer \<Rightarrow> bytes list \<times> splitter \<times> deframer" where
  "serial_receive [] s d = ([], s, d)"
| "serial_receive (c # cs) s d =
     (case chunk_lines c s of (ls, s1) \<Rightarrow>
       (case run_lines ls d of (ps, d1) \<Rightarrow>
         (case serial_receive cs s1 d1 of (qs, s2, d2) \<Rightarrow> (ps @ qs, s2, d2))))"

lemma serial_receive_lines:
  "fst (serial_receive chunks s d) = fst (run_lines (fst (chunk_lines (concat chunks) s)) d)"
proof (induction chunks arbitrary: s d)
  case Nil
  then show ?case by (simp add: chunk_lines.simps [of "[]"])
next
  case (Cons c cs)
  obtain ls s1 where 1: "chunk_lines c s = (ls, s1)" by (cases "chunk_lines c s")
  obtain ps d1 where 2: "run_lines ls d = (ps, d1)" by (cases "run_lines ls d")
  obtain ms s2 where 3: "chunk_lines (concat cs) s1 = (ms, s2)" by (cases "chunk_lines (concat cs) s1")
  obtain qs d2 where 4: "run_lines ms d1 = (qs, d2)" by (cases "run_lines ms d1")
  obtain rs s3 d3 where 5: "serial_receive cs s1 d1 = (rs, s3, d3)" by (cases "serial_receive cs s1 d1")
  show ?case using Cons.IH [of s1 d1] 1 2 3 4 5 by (simp add: chunk_lines_append run_lines_append)
qed

lemma frame_lines_are_frames: "framer_ok fr \<Longrightarrow> filter is_frame (frame_lines fr) = frame_lines fr"
proof (induction fr rule: all_frames.induct)
  case (1 fr)
  have "is_frame (frame_line fr)"
    by (simp add: is_frame_def frame_line_def kPacketMarker_def kFragmentMarker_def)
  moreover have "framer_done fr \<Longrightarrow> frame_lines fr = []" by (simp add: frame_lines_def all_frames_done)
  ultimately show ?case using 1 after_frame_ok(1) [of fr] next_frame_spec(1) [of fr kMaxFrame]
    by (cases "framer_done fr") (auto simp: frame_lines_step framer_ok_def)
qed

text \<open>A clean stream of lines reaches the deframer as those lines, and the noise drops out.\<close>

lemma serial_receive_packets:
  assumes "list_all (\<lambda>p. p \<noteq> [] \<and> length p \<le> kMaxSerialPacket \<and> length p + 2 \<le> m) ps"
    and "filter is_frame lines = concat (map (\<lambda>p. frame_lines (SerialFramer p)) ps)"
    and "list_all (\<lambda>l. newline \<notin> set l \<and> carriage_return \<notin> set l \<and> length l \<le> kMaxFrame) lines"
    and "concat chunks = concat (map (\<lambda>l. l @ [newline]) lines)"
  shows "fst (serial_receive chunks (LineSplitter kMaxFrame) (SerialDeframer m)) = ps"
proof -
  have "\<exists>s'. chunk_lines (concat chunks) (LineSplitter kMaxFrame) = (lines, s')"
    using chunk_lines_plain [of lines "LineSplitter kMaxFrame"] assms(3,4)
    by (auto simp: LineSplitter_def fresh_def list_all_iff)
  then have "fst (serial_receive chunks (LineSplitter kMaxFrame) (SerialDeframer m)) =
      fst (run_lines lines (SerialDeframer m))"
    by (auto simp: serial_receive_lines)
  also have "\<dots> = fst (run_lines (filter is_frame lines) (SerialDeframer m))"
    by (rule run_lines_filter [symmetric])
  also have "\<dots> = ps"
    using run_lines_packets [of ps "SerialDeframer m"] assms(1,2)
    by (auto simp: list_all_iff SerialDeframer_def)
  finally show ?thesis .
qed



text \<open>
  Whatever the line carries - console output, cut frames, wrong lengths, garbage - the receiver
  stays within its memory bound, every packet it hands out is non-empty, within the limit and
  passed its CRC, and the packet counter counts exactly the packets handed out.
\<close>

theorem deframer_bounded:
  "case run_lines ls (SerialDeframer m) of (ps, d) \<Rightarrow>
     length (buffer d) \<le> peak d \<and> peak d \<le> max kMaxRawPerFrame m \<and>
     packets (counters d) = length ps \<and>
     list_all (\<lambda>p. p \<noteq> [] \<and> length p + 2 \<le> m \<and>
       (\<exists>c. length c = 2 \<and> crc16_xmodem 0 (p @ c) = 0)) ps"
proof -
  have init: "deframer_inv m (SerialDeframer m)" by (simp add: SerialDeframer_def deframer_inv_def)
  obtain ps d where r: "run_lines ls (SerialDeframer m) = (ps, d)" by (cases "run_lines ls (SerialDeframer m)")
  have "deframer_inv m d" using run_lines_inv [OF init, of ls] r by simp
  then have "length (buffer d) \<le> peak d" "peak d \<le> max kMaxRawPerFrame m"
    by (simp_all add: deframer_inv_def)
  moreover have "packets (counters d) = length ps"
    using run_lines_counts [of ls "SerialDeframer m"] r by (simp add: SerialDeframer_def)
  moreover have "list_all (\<lambda>p. p \<noteq> [] \<and> length p + 2 \<le> m \<and>
      (\<exists>c. length c = 2 \<and> crc16_xmodem 0 (p @ c) = 0)) ps"
    using run_lines_verified [OF init, of ls] r by simp
  ultimately show ?thesis using r by simp
qed

text \<open>
  \<open>frame_count\<close> plans a packet exactly as \<open>next_frame\<close> frames it: the number it returns is the
  number of frames the framer goes on to produce.
\<close>

theorem frame_count_exact:
  "frame_count (SerialFramer p) = length (all_frames (SerialFramer p))"
proof (cases "p = [] \<or> length p > kMaxSerialPacket")
  case True
  then have "fr_packet (SerialFramer p) = []" by (auto simp: SerialFramer_def Let_def)
  moreover from this have "framer_done (SerialFramer p)" by (simp add: framer_done_def)
  ultimately show ?thesis by (simp add: frame_count_def count_loop.simps all_frames_done)
next
  case False
  then have "framer_ok (SerialFramer p)" "fr_packet (SerialFramer p) = p" "fr_offset (SerialFramer p) = 0"
      "fr_first (SerialFramer p)"
    using framer_init [of p] by (simp_all add: SerialFramer_def framer_ok_def)
  then show ?thesis using count_loop_frames [of "SerialFramer p" 0] by (simp add: frame_count_def)
qed

end
