(* ===== verification/TransportLink.thy ===== *)
theory TransportLink
  imports Prelude
begin

text \<open>
  What the transports share: \<open>transports/common/link_state.hpp\<close>, \<open>send_queue.hpp\<close>,
  \<open>ble_framing.hpp\<close>, and the queue that carries work from other threads to the client's,
  \<open>src/util/dispatcher.cpp\<close>. Shown: nothing is delivered or sent from the beginning of a close; one
  writer at a time, which writes what was accepted in order; the fragments of a message are the message;
  posted work runs once, in order, on a later drain.
\<close>

section \<open>Closing a link\<close>

datatype link_phase = Phase_Open | Phase_Closing | Phase_Closed

definition is_open :: "link_phase \<Rightarrow> bool" where "is_open p \<longleftrightarrow> p = Phase_Open"
definition is_closing_or_closed :: "link_phase \<Rightarrow> bool" where "is_closing_or_closed p \<longleftrightarrow> p \<noteq> Phase_Open"
definition may_send :: "link_phase \<Rightarrow> bool" where "may_send p \<longleftrightarrow> is_open p"
definition may_deliver :: "link_phase \<Rightarrow> bool" where "may_deliver p \<longleftrightarrow> is_open p"

definition begin_close :: "link_phase \<Rightarrow> link_phase \<times> bool" where
  "begin_close p = (if p \<noteq> Phase_Open then (p, False) else (Phase_Closing, True))"

definition finish_close :: "link_phase \<Rightarrow> link_phase" where "finish_close p = Phase_Closed"

text \<open>A history of a link, and the answers of its \<open>begin_close\<close> calls.\<close>

datatype link_call = Begin_Close | Finish_Close

fun link_step :: "link_call \<Rightarrow> link_phase \<times> bool list \<Rightarrow> link_phase \<times> bool list" where
  "link_step Begin_Close (p, rs) = (fst (begin_close p), rs @ [snd (begin_close p)])"
| "link_step Finish_Close (p, rs) = (finish_close p, rs)"

definition link_run :: "link_call list \<Rightarrow> link_phase \<times> bool list" where
  "link_run calls = fold link_step calls (Phase_Open, [])"

section \<open>Admission to the writer\<close>

datatype admission = StartWriter | Queued | Busy

record send_queue =
  waiting :: "bytes option"
  writing :: bool
  sends_deferred :: nat
  sends_refused :: nat

definition SendQueue :: send_queue where
  "SendQueue = \<lparr>waiting = None, writing = False, sends_deferred = 0, sends_refused = 0\<rparr>"

definition offer :: "bytes \<Rightarrow> send_queue \<Rightarrow> send_queue \<times> admission" where
  "offer msg q =
     (if \<not> writing q then (q\<lparr>writing := True, waiting := Some msg\<rparr>, StartWriter)
      else if waiting q = None then (q\<lparr>waiting := Some msg, sends_deferred := sends_deferred q + 1\<rparr>, Queued)
      else (q\<lparr>sends_refused := sends_refused q + 1\<rparr>, Busy))"

definition next_for_writer :: "send_queue \<Rightarrow> send_queue \<times> bytes option" where
  "next_for_writer q =
     (case waiting q of
        None \<Rightarrow> (q\<lparr>writing := False\<rparr>, None)
      | Some msg \<Rightarrow> (q\<lparr>waiting := None\<rparr>, Some msg))"

definition discard_queued :: "send_queue \<Rightarrow> send_queue" where "discard_queued q = q\<lparr>waiting := None\<rparr>"

definition queued :: "send_queue \<Rightarrow> bool" where "queued q \<longleftrightarrow> waiting q \<noteq> None"

text \<open>
  The rules an adapter keeps: a writer is started exactly on \<open>StartWriter\<close>, asks for the next
  message when it has written the one in hand, and exits exactly when there is none. Each live writer is
  the message in its hand; the adapter's mutex makes each step atomic.
\<close>

record adapter =
  adapter_queue :: send_queue
  writers :: "bytes option list"
  accepted :: "bytes list"
  taken :: "bytes list"
  discarded :: "bytes list"
  refused_with :: "(bytes option list \<times> bytes option) list"

definition Adapter :: adapter where
  "Adapter = \<lparr>adapter_queue = SendQueue, writers = [], accepted = [], taken = [], discarded = [], refused_with = []\<rparr>"

inductive adapter_step :: "adapter \<Rightarrow> adapter \<Rightarrow> bool" where
  start: "offer msg (adapter_queue a) = (q, StartWriter) \<Longrightarrow>
    adapter_step a (a\<lparr>adapter_queue := q, writers := None # writers a, accepted := accepted a @ [msg]\<rparr>)"
| queue: "offer msg (adapter_queue a) = (q, Queued) \<Longrightarrow>
    adapter_step a (a\<lparr>adapter_queue := q, accepted := accepted a @ [msg]\<rparr>)"
| busy: "offer msg (adapter_queue a) = (q, Busy) \<Longrightarrow>
    adapter_step a (a\<lparr>adapter_queue := q, refused_with := refused_with a @ [(writers a, waiting (adapter_queue a))]\<rparr>)"
| take_next: "writers a = ws @ w # ws' \<Longrightarrow> next_for_writer (adapter_queue a) = (q, Some msg) \<Longrightarrow>
    adapter_step a (a\<lparr>adapter_queue := q, writers := ws @ Some msg # ws', taken := taken a @ [msg]\<rparr>)"
| exit: "writers a = ws @ w # ws' \<Longrightarrow> next_for_writer (adapter_queue a) = (q, None) \<Longrightarrow>
    adapter_step a (a\<lparr>adapter_queue := q, writers := ws @ ws'\<rparr>)"
| discard: "adapter_step a (a\<lparr>adapter_queue := discard_queued (adapter_queue a),
    discarded := discarded a @ (case waiting (adapter_queue a) of None \<Rightarrow> [] | Some msg \<Rightarrow> [msg])\<rparr>)"

inductive_cases adapter_stepE: "adapter_step a a'"

section \<open>Fragments\<close>

definition kAttHeaderSize :: u16 where "kAttHeaderSize = 3"
definition kMinAttMtu :: u16 where "kMinAttMtu = 23"
definition kMinFragment :: nat where "kMinFragment = 20"
definition kMaxFragment :: nat where "kMaxFragment = 512"

definition fragment_size :: "u16 \<Rightarrow> nat" where
  "fragment_size max_pdu =
     (if max_pdu \<le> kAttHeaderSize then kMinFragment
      else let usable = unat max_pdu - unat kAttHeaderSize in
        if usable < kMinFragment then kMinFragment
        else if usable > kMaxFragment then kMaxFragment
        else usable)"

record fragmenter =
  frag_message :: bytes
  frag_size :: nat
  frag_offset :: nat

definition Fragmenter :: "bytes \<Rightarrow> nat \<Rightarrow> fragmenter" where
  "Fragmenter msg n = \<lparr>frag_message = msg, frag_size = (if n = 0 then 1 else n), frag_offset = 0\<rparr>"

definition frag_done :: "fragmenter \<Rightarrow> bool" where
  "frag_done f \<longleftrightarrow> frag_offset f \<ge> length (frag_message f)"

definition frag_remaining :: "fragmenter \<Rightarrow> nat" where
  "frag_remaining f = (if frag_done f then 0 else length (frag_message f) - frag_offset f)"

definition frag_next :: "fragmenter \<Rightarrow> fragmenter \<times> bytes" where
  "frag_next f =
     (if frag_done f then (f, [])
      else let n = (if frag_remaining f < frag_size f then frag_remaining f else frag_size f) in
        (f\<lparr>frag_offset := frag_offset f + n\<rparr>, subspan (frag_offset f) n (frag_message f)))"

definition fragment_count :: "fragmenter \<Rightarrow> nat" where
  "fragment_count f = (length (frag_message f) + frag_size f - 1) div frag_size f"

text \<open>The loop an adapter writes with: the next fragment until it is done. \<open>fragments\<close> is total: a
  fragment is never empty.\<close>

function fragments :: "fragmenter \<Rightarrow> bytes list" where
  "fragments f = (if frag_done f \<or> frag_size f = 0 then [] else snd (frag_next f) # fragments (fst (frag_next f)))"
  by pat_completeness auto
termination
  by (relation "measure frag_remaining")
    (auto simp: frag_next_def frag_remaining_def frag_done_def Let_def)

declare fragments.simps [simp del]

section \<open>Work from other threads\<close>

text \<open>
  A closure is known by its number, in the order of posting. What happens while closure \<open>n\<close> runs, in it
  or on another thread (each access to the queue is under the lock, so the calls have an order), is
  \<open>react n\<close>.
\<close>

datatype dispatcher_call = Post_Work | Post_Empty | Drain_Work | Clear_Work

record dispatcher =
  work_queue :: "nat list"
  draining :: bool
  has_wake :: bool
  wakes :: nat
  work_posted :: nat
  work_ran :: "nat list"
  work_dropped :: "nat list"

definition Dispatcher :: "bool \<Rightarrow> dispatcher" where
  "Dispatcher wake = \<lparr>work_queue = [], draining = False, has_wake = wake, wakes = 0, work_posted = 0,
     work_ran = [], work_dropped = []\<rparr>"

definition post_work :: "bool \<Rightarrow> dispatcher \<Rightarrow> dispatcher" where
  "post_work work d =
     (if \<not> work then d
      else d\<lparr>work_queue := work_queue d @ [work_posted d], work_posted := work_posted d + 1,
             wakes := wakes d + (if has_wake d then 1 else 0)\<rparr>)"

definition take_work :: "dispatcher \<Rightarrow> dispatcher \<times> nat list" where
  "take_work d = (d\<lparr>work_queue := []\<rparr>, work_queue d)"

definition clear_work :: "dispatcher \<Rightarrow> dispatcher" where
  "clear_work d = (let (d', ws) = take_work d in d'\<lparr>work_dropped := work_dropped d' @ ws\<rparr>)"

text \<open>A call while work is being drained; a drain is then refused.\<close>

fun nested_call :: "dispatcher_call \<Rightarrow> dispatcher \<Rightarrow> dispatcher" where
  "nested_call Post_Work d = post_work True d"
| "nested_call Post_Empty d = post_work False d"
| "nested_call Drain_Work d = d"
| "nested_call Clear_Work d = clear_work d"

definition run_item :: "(nat \<Rightarrow> dispatcher_call list) \<Rightarrow> nat \<Rightarrow> dispatcher \<Rightarrow> dispatcher" where
  "run_item react w d = fold nested_call (react w) (d\<lparr>work_ran := work_ran d @ [w]\<rparr>)"

definition drain :: "(nat \<Rightarrow> dispatcher_call list) \<Rightarrow> dispatcher \<Rightarrow> dispatcher \<times> nat" where
  "drain react d =
     (if draining d then (d, 0)
      else let (d1, ws) = take_work d in
        if ws = [] then (d1, 0)
        else ((fold (run_item react) ws (d1\<lparr>draining := True\<rparr>))\<lparr>draining := False\<rparr>, length ws))"

fun dispatcher_step :: "(nat \<Rightarrow> dispatcher_call list) \<Rightarrow> dispatcher_call \<Rightarrow> dispatcher \<Rightarrow> dispatcher" where
  "dispatcher_step react Post_Work d = post_work True d"
| "dispatcher_step react Post_Empty d = post_work False d"
| "dispatcher_step react Drain_Work d = fst (drain react d)"
| "dispatcher_step react Clear_Work d = clear_work d"

definition dispatcher_run :: "(nat \<Rightarrow> dispatcher_call list) \<Rightarrow> dispatcher_call list \<Rightarrow> bool \<Rightarrow> dispatcher" where
  "dispatcher_run react calls wake = fold (dispatcher_step react) calls (Dispatcher wake)"

section \<open>What closing guarantees\<close>

lemma link_closed: "p \<noteq> Phase_Open \<Longrightarrow> fold link_step calls (p, rs) = (p', rs') \<Longrightarrow>
    p' \<noteq> Phase_Open \<and> filter id rs' = filter id rs"
proof (induction calls arbitrary: p rs)
  case (Cons c calls)
  then show ?case by (cases c) (auto simp: begin_close_def finish_close_def)
qed simp

text \<open>
  From the first call of a close, begun or finished, nothing may be sent or delivered, whatever is called
  afterwards; and at most one \<open>begin_close\<close> is told to tear the link down, the first call of all.
\<close>

theorem link_closes_once:
  assumes "link_run (c # calls) = (p, rs)"
  shows "\<not> may_send p \<and> \<not> may_deliver p \<and> filter id rs = (if c = Begin_Close then [True] else [])"
  using assms link_closed [of Phase_Closing calls "[True]" p rs] link_closed [of Phase_Closed calls "[]" p rs]
  by (cases c) (auto simp: link_run_def begin_close_def finish_close_def may_send_def may_deliver_def is_open_def)

section \<open>One writer, in order\<close>

definition opt_list :: "'a option \<Rightarrow> 'a list" where
  "opt_list x = (case x of None \<Rightarrow> [] | Some y \<Rightarrow> [y])"

lemma opt_list_simps [simp]: "opt_list None = []" "opt_list (Some y) = [y]"
  by (simp_all add: opt_list_def)

lemma shuffles_last: "ys @ [x] \<in> shuffles [x] ys" "ys @ [x] \<in> shuffles ys [x]"
  by (induction ys) (auto simp: Cons_in_shuffles_iff)

lemma shuffles_snoc:
  "xs \<in> shuffles ys zs \<Longrightarrow> xs @ [x] \<in> shuffles (ys @ [x]) zs \<and> xs @ [x] \<in> shuffles ys (zs @ [x])"
proof (induction ys zs arbitrary: xs rule: shuffles.induct)
  case (3 y ys z zs)
  then show ?case by (auto simp: Cons_in_shuffles_iff)
qed (auto intro: shuffles_last)

definition adapter_inv :: "adapter \<Rightarrow> bool" where
  "adapter_inv a \<longleftrightarrow>
     (if writing (adapter_queue a) then length (writers a) = 1
      else writers a = [] \<and> waiting (adapter_queue a) = None) \<and>
     (\<exists>before. accepted a = before @ opt_list (waiting (adapter_queue a)) \<and> before \<in> shuffles (taken a) (discarded a)) \<and>
     list_all (\<lambda>(ws, w). length ws = 1 \<and> w \<noteq> None) (refused_with a)"

lemma adapter_inv_init: "adapter_inv Adapter"
  by (simp add: adapter_inv_def Adapter_def SendQueue_def)

lemma adapter_inv_step: "adapter_step a a' \<Longrightarrow> adapter_inv a \<Longrightarrow> adapter_inv a'"
proof (induction rule: adapter_step.induct)
  case (take_next a ws w ws' q msg)
  then show ?case
    using shuffles_snoc [of _ "taken a" "discarded a" msg]
    by (auto simp: adapter_inv_def next_for_writer_def split: option.splits if_splits)
next
  case (discard a)
  then show ?case
    using shuffles_snoc [of _ "taken a" "discarded a"]
    by (auto simp: adapter_inv_def discard_queued_def split: option.splits if_splits)
qed (auto simp: adapter_inv_def offer_def next_for_writer_def split: option.splits if_splits)

lemma adapter_reachable: "adapter_step\<^sup>*\<^sup>* Adapter a \<Longrightarrow> adapter_inv a"
  by (induction rule: rtranclp_induct) (auto intro: adapter_inv_init adapter_inv_step)

text \<open>
  C39. One writer, in order. However offers, the writer's requests and discards interleave: there is never
  a second writer, a message waits only while a writer is live, and what was accepted is what the writer
  took and what a closing link discarded, both in order, and the message still waiting. A message is
  refused only while a writer is live and a message waits.
\<close>

theorem send_queue_exact:
  assumes "adapter_step\<^sup>*\<^sup>* Adapter a"
  shows "length (writers a) = (if writing (adapter_queue a) then 1 else 0) \<and>
    (queued (adapter_queue a) \<longrightarrow> writers a \<noteq> []) \<and>
    (\<exists>before. accepted a = before @ opt_list (waiting (adapter_queue a)) \<and> before \<in> shuffles (taken a) (discarded a)) \<and>
    list_all (\<lambda>(ws, w). length ws = 1 \<and> w \<noteq> None) (refused_with a)"
  using adapter_reachable [OF assms] by (auto simp: adapter_inv_def queued_def split: if_splits)

text \<open>Two messages offered before the promised writer has taken the first.\<close>

definition early_adapter :: adapter where
  "early_adapter = \<lparr>adapter_queue = \<lparr>waiting = Some [1], writing = True, sends_deferred = 0, sends_refused = 1\<rparr>,
     writers = [None], accepted = [[1]], taken = [], discarded = [], refused_with = [([None], Some [1])]\<rparr>"

lemma early_refusal_reachable: "adapter_step\<^sup>*\<^sup>* Adapter early_adapter"
proof -
  let ?q = "fst (offer [1] SendQueue)"
  let ?a = "Adapter\<lparr>adapter_queue := ?q, writers := None # writers Adapter, accepted := accepted Adapter @ [[1]]\<rparr>"
  have "adapter_step Adapter ?a" by (rule adapter_step.start) (simp add: Adapter_def SendQueue_def offer_def)
  moreover have "adapter_step ?a early_adapter"
    using adapter_step.busy [of "[2]" ?a "fst (offer [2] ?q)"]
    by (simp add: Adapter_def SendQueue_def offer_def early_adapter_def)
  ultimately show ?thesis by (meson r_into_rtranclp rtranclp.rtrancl_into_rtrancl)
qed

theorem send_queue_exact_witness:
  "length (writers early_adapter) = 1 \<and> accepted early_adapter = [[1]] \<and> refused_with early_adapter \<noteq> []"
  using send_queue_exact [OF early_refusal_reachable] by (simp add: early_adapter_def)

text \<open>
  A refusal does not mean that two messages are outbound: until the promised writer has taken the first
  message, the second is refused although nothing is being written.
\<close>

theorem busy_with_one_message:
  "\<exists>a. adapter_step\<^sup>*\<^sup>* Adapter a \<and> length (accepted a) = 1 \<and> taken a = [] \<and> refused_with a \<noteq> []"
  using early_refusal_reachable by (intro exI [of _ early_adapter]) (simp add: early_adapter_def)

section \<open>Fragments are the message\<close>

lemma fragments_exact:
  "frag_size f \<noteq> 0 \<Longrightarrow> concat (fragments f) = drop (frag_offset f) (frag_message f) \<and>
    list_all (\<lambda>x. x \<noteq> [] \<and> length x \<le> frag_size f) (fragments f) \<and>
    length (fragments f) = (length (frag_message f) - frag_offset f + frag_size f - 1) div frag_size f"
proof (induction f rule: fragments.induct)
  case (1 f)
  show ?case
  proof (cases "frag_done f")
    case True
    then show ?thesis using 1(2) by (subst (1 2 3) fragments.simps) (simp add: frag_done_def)
  next
    case False
    define n where "n = min (frag_remaining f) (frag_size f)"
    have len: "frag_offset f < length (frag_message f)" using False by (simp add: frag_done_def)
    have r: "frag_remaining f = length (frag_message f) - frag_offset f" using False by (simp add: frag_remaining_def)
    have nx: "frag_next f = (f\<lparr>frag_offset := frag_offset f + n\<rparr>, subspan (frag_offset f) n (frag_message f))"
      using False by (auto simp: frag_next_def n_def Let_def)
    have n: "0 < n" "n \<le> frag_size f" "frag_offset f + n \<le> length (frag_message f)" using len r 1(2) by (auto simp: n_def)
    let ?g = "f\<lparr>frag_offset := frag_offset f + n\<rparr>"
    have IH: "concat (fragments ?g) = drop (frag_offset f + n) (frag_message f) \<and>
        list_all (\<lambda>x. x \<noteq> [] \<and> length x \<le> frag_size f) (fragments ?g) \<and>
        length (fragments ?g) = (length (frag_message f) - (frag_offset f + n) + frag_size f - 1) div frag_size f"
      using 1(1) False 1(2) nx by simp
    have fs: "fragments f = subspan (frag_offset f) n (frag_message f) # fragments ?g"
      using False 1(2) nx by (subst fragments.simps) simp
    have "subspan (frag_offset f) n (frag_message f) @ drop (frag_offset f + n) (frag_message f) = drop (frag_offset f) (frag_message f)"
      by (simp add: subspan_def) (metis add.commute append_take_drop_id drop_drop)
    moreover have "subspan (frag_offset f) n (frag_message f) \<noteq> []" "length (subspan (frag_offset f) n (frag_message f)) \<le> frag_size f"
      using n len by (simp_all add: subspan_def)
    moreover have "Suc ((length (frag_message f) - (frag_offset f + n) + frag_size f - 1) div frag_size f) =
        (length (frag_message f) - frag_offset f + frag_size f - 1) div frag_size f"
    proof (cases "frag_size f \<le> frag_remaining f")
      case True
      then have e: "length (frag_message f) - frag_offset f + frag_size f - 1 =
          (length (frag_message f) - (frag_offset f + n) + frag_size f - 1) + frag_size f"
        using 1(2) r by (simp add: n_def)
      show ?thesis unfolding e using 1(2) div_add_self2 [of "frag_size f"] by (metis Suc_eq_plus1)
    next
      case False
      then have m: "length (frag_message f) - (frag_offset f + n) = 0" "0 < frag_remaining f" "frag_remaining f < frag_size f"
        using r len by (auto simp: n_def)
      then have "(frag_remaining f + frag_size f - 1) div frag_size f = 1"
        by (intro div_nat_eqI) auto
      then show ?thesis using m r 1(2) by simp
    qed
    ultimately show ?thesis using IH fs by simp
  qed
qed

lemma fragment_size_range: "kMinFragment \<le> fragment_size pdu \<and> fragment_size pdu \<le> kMaxFragment"
  by (auto simp: fragment_size_def kMinFragment_def kMaxFragment_def Let_def)

lemma fragment_fits: "kMinAttMtu \<le> pdu \<Longrightarrow> fragment_size pdu + unat kAttHeaderSize \<le> unat pdu"
  by (auto simp: fragment_size_def kMinFragment_def kMaxFragment_def Let_def kMinAttMtu_def kAttHeaderSize_def word_le_nat_alt)

text \<open>
  The fragments of a message. Whatever PDU size a link reports, writing a message as fragments ends;
  the fragments put together are the message, as many as announced, none empty and none longer than
  between 20 and 512 bytes, and every one fits the PDU of a link that keeps to the minimum MTU.
\<close>

theorem fragments_are_the_message:
  "(let f = Fragmenter msg (fragment_size pdu) in
     concat (fragments f) = msg \<and> length (fragments f) = fragment_count f \<and>
     list_all (\<lambda>x. x \<noteq> [] \<and> length x \<le> fragment_size pdu) (fragments f)) \<and>
   20 \<le> fragment_size pdu \<and> fragment_size pdu \<le> 512 \<and> (pdu < 23 \<or> fragment_size pdu + 3 \<le> unat pdu)"
  using fragments_exact [of "Fragmenter msg (fragment_size pdu)"] fragment_size_range [of pdu] fragment_fits [of pdu]
  by (cases "pdu < 23") (auto simp: Let_def Fragmenter_def fragment_count_def kMinFragment_def kMaxFragment_def kMinAttMtu_def
      kAttHeaderSize_def not_less)

section \<open>Posted work runs once\<close>

text \<open>\<open>ws\<close> is the work a drain has taken and not run yet.\<close>

definition dispatcher_inv :: "nat list \<Rightarrow> dispatcher \<Rightarrow> bool" where
  "dispatcher_inv ws d \<longleftrightarrow> sorted_wrt (<) (work_ran d @ ws @ work_queue d) \<and>
     distinct (work_ran d @ ws @ work_queue d @ work_dropped d) \<and>
     set (work_ran d @ ws @ work_queue d @ work_dropped d) = {..<work_posted d} \<and>
     wakes d = (if has_wake d then work_posted d else 0)"

lemma dispatcher_inv_nested: "dispatcher_inv ws d \<Longrightarrow> dispatcher_inv ws (nested_call c d)"
proof (induction c d rule: nested_call.induct)
  case (1 d)
  have "x < work_posted d" if "x \<in> set (work_ran d @ ws @ work_queue d @ work_dropped d)" for x
    using 1 that by (auto simp: dispatcher_inv_def)
  then show ?case
    using 1 by (auto simp: dispatcher_inv_def post_work_def sorted_wrt_append lessThan_Suc)
next
  case (4 d)
  then show ?case by (auto simp: dispatcher_inv_def clear_work_def take_work_def sorted_wrt_append)
qed (simp_all add: post_work_def)

lemma dispatcher_inv_calls: "dispatcher_inv ws d \<Longrightarrow> dispatcher_inv ws (fold nested_call cs d)"
  by (induction cs arbitrary: d) (simp_all add: dispatcher_inv_nested)

lemma nested_keeps [simp]: "work_ran (fold nested_call cs d) = work_ran d" "draining (fold nested_call cs d) = draining d"
proof (induction cs arbitrary: d)
  case (Cons c cs)
  case 1
  then show ?case using Cons by (cases c) (simp_all add: post_work_def clear_work_def take_work_def)
  case 2
  then show ?case using Cons by (cases c) (simp_all add: post_work_def clear_work_def take_work_def)
qed simp_all

lemma dispatcher_inv_item: "dispatcher_inv (w # ws) d \<Longrightarrow> dispatcher_inv ws (run_item react w d)"
  unfolding run_item_def by (rule dispatcher_inv_calls) (auto simp: dispatcher_inv_def)

lemma dispatcher_inv_items:
  "dispatcher_inv ws d \<Longrightarrow> dispatcher_inv [] (fold (run_item react) ws d) \<and>
    work_ran (fold (run_item react) ws d) = work_ran d @ ws \<and> draining (fold (run_item react) ws d) = draining d"
proof (induction ws arbitrary: d)
  case (Cons w ws)
  then show ?case using Cons.IH [OF dispatcher_inv_item [OF Cons.prems]] by (simp add: run_item_def)
qed simp

lemma drain_exact:
  assumes "dispatcher_inv [] d" and "\<not> draining d"
  shows "dispatcher_inv [] (fst (drain react d)) \<and> \<not> draining (fst (drain react d)) \<and>
    work_ran (fst (drain react d)) = work_ran d @ work_queue d \<and> snd (drain react d) = length (work_queue d)"
proof -
  let ?d = "d\<lparr>work_queue := [], draining := True\<rparr>"
  have inv: "dispatcher_inv (work_queue d) ?d" using assms(1) by (simp add: dispatcher_inv_def)
  have up: "dispatcher_inv [] (e\<lparr>draining := False\<rparr>) \<longleftrightarrow> dispatcher_inv [] e" for e
    by (simp add: dispatcher_inv_def)
  show ?thesis
    using dispatcher_inv_items [OF inv, of react] assms up
    by (auto simp: drain_def take_work_def dispatcher_inv_def)
qed

lemma nested_is_step: "draining d \<Longrightarrow> nested_call c d = dispatcher_step react c d"
  by (cases c) (simp_all add: drain_def)

lemma dispatcher_step_inv:
  assumes "dispatcher_inv [] d" and "\<not> draining d"
  shows "dispatcher_inv [] (dispatcher_step react c d) \<and> \<not> draining (dispatcher_step react c d)"
proof (cases "c = Drain_Work")
  case True
  then show ?thesis using drain_exact [OF assms] by simp
next
  case False
  then have "dispatcher_step react c d = fold nested_call [c] d" by (cases c) simp_all
  then show ?thesis using dispatcher_inv_nested [OF assms(1), of c] assms(2) nested_keeps(2) [of "[c]" d] by simp
qed

lemma dispatcher_run_inv: "dispatcher_inv [] (dispatcher_run react calls wake) \<and> \<not> draining (dispatcher_run react calls wake)"
proof -
  have "dispatcher_inv [] (fold (dispatcher_step react) calls d) \<and> \<not> draining (fold (dispatcher_step react) calls d)"
    if "dispatcher_inv [] d" "\<not> draining d" for d
    using that by (induction calls arbitrary: d) (simp_all add: dispatcher_step_inv)
  moreover have "dispatcher_inv [] (Dispatcher wake)" "\<not> draining (Dispatcher wake)"
    by (auto simp: Dispatcher_def dispatcher_inv_def)
  ultimately show ?thesis by (simp add: dispatcher_run_def)
qed


text \<open>Work posted while a drain runs waits for the next one, also if the work itself asks for a drain.\<close>

theorem drain_leaves_new_work:
  "let d = dispatcher_run (\<lambda>n. if n = 0 then [Post_Work, Drain_Work] else []) [Post_Work, Drain_Work] True in
     work_ran d = [0] \<and> work_queue d = [1]"
  by (simp add: Let_def dispatcher_run_def Dispatcher_def post_work_def drain_def take_work_def run_item_def)

end
