(* ===== verification/MiniCbor.thy ===== *)
theory MiniCbor
  imports Errors
begin

text \<open>
  The stand-alone CBOR writer and reader of \<open>support/minicbor/minicbor.hpp\<close> and \<open>.cpp\<close>, which the test
  doubles and the stub device use so as not to share code with the library. A cursor is the bytes that
  are left. Shown: what the reader accepts is well-formed and within its depth, and every well-formed
  value written by the writer is read back.
\<close>

section \<open>Values\<close>

text \<open>A map holds its entries flattened: key, value, key, value.\<close>

datatype cbor =
    VUint u64
  | VNint int
  | VBytes bytes
  | VText string
  | VBool bool
  | VArray "cbor list"
  | VMap "cbor list"

definition cbor_size :: "cbor \<Rightarrow> nat" where
  "cbor_size v = (case v of VMap items \<Rightarrow> length items div 2 | VArray items \<Rightarrow> length items | _ \<Rightarrow> 0)"

text \<open>The \<open>text\<close> member, empty unless the item is a text.\<close>

definition text_of :: "cbor \<Rightarrow> string" where
  "text_of v = (case v of VText t \<Rightarrow> t | _ \<Rightarrow> [])"

fun find_entry :: "string \<Rightarrow> cbor list \<Rightarrow> cbor option" where
  "find_entry key (k # v # items) = (if text_of k = key then Some v else find_entry key items)"
| "find_entry key _ = None"

definition cbor_find :: "string \<Rightarrow> cbor \<Rightarrow> cbor option" where
  "cbor_find key v = (case v of VMap items \<Rightarrow> find_entry key items | _ \<Rightarrow> None)"

definition get_uint :: "string \<Rightarrow> cbor \<Rightarrow> u64 option" where
  "get_uint key v = (case cbor_find key v of Some (VUint n) \<Rightarrow> Some n | _ \<Rightarrow> None)"

definition get_bool :: "string \<Rightarrow> cbor \<Rightarrow> bool option" where
  "get_bool key v = (case cbor_find key v of Some (VBool b) \<Rightarrow> Some b | _ \<Rightarrow> None)"

section \<open>The writer\<close>

text \<open>Its state is what it has written.\<close>

primrec push_be :: "nat \<Rightarrow> u64 \<Rightarrow> bytes" where
  "push_be 0 v = []"
| "push_be (Suc i) v = ucast (drop_bit (i * 8) v AND 0xFF) # push_be i v"

definition cbor_initial :: "u8 \<Rightarrow> u8 \<Rightarrow> u8" where
  "cbor_initial major_type extra = push_bit 5 major_type OR extra"

definition cbor_head :: "u8 \<Rightarrow> u64 \<Rightarrow> bytes \<Rightarrow> bytes" where
  "cbor_head major_type v out =
     out @ (if v < 24 then [cbor_initial major_type (ucast v)]
       else if v \<le> 0xFF then [cbor_initial major_type 24, ucast v]
       else if v \<le> 0xFFFF then cbor_initial major_type 25 # push_be 2 v
       else if v \<le> 0xFFFFFFFF then cbor_initial major_type 26 # push_be 4 v
       else cbor_initial major_type 27 # push_be 8 v)"

definition write_map :: "u64 \<Rightarrow> bytes \<Rightarrow> bytes" where "write_map pairs = cbor_head 5 pairs"
definition write_array :: "u64 \<Rightarrow> bytes \<Rightarrow> bytes" where "write_array items = cbor_head 4 items"
definition write_uint :: "u64 \<Rightarrow> bytes \<Rightarrow> bytes" where "write_uint v = cbor_head 0 v"
definition write_nint :: "int \<Rightarrow> bytes \<Rightarrow> bytes" where "write_nint v = cbor_head 1 (of_int (- (v + 1)))"

definition write_text :: "string \<Rightarrow> bytes \<Rightarrow> bytes" where
  "write_text v out = cbor_head 3 (of_nat (length v)) out @ map of_char v"

definition write_blob :: "bytes \<Rightarrow> bytes \<Rightarrow> bytes" where
  "write_blob v out = cbor_head 2 (of_nat (length v)) out @ v"

definition write_boolean :: "bool \<Rightarrow> bytes \<Rightarrow> bytes" where
  "write_boolean v out = out @ [if v then 0xF5 else 0xF4]"

definition write_raw :: "bytes \<Rightarrow> bytes \<Rightarrow> bytes" where "write_raw vs out = out @ vs"

section \<open>The reader\<close>

definition take_byte :: "bytes \<Rightarrow> (u8 \<times> bytes) option" where
  "take_byte bs = (case bs of [] \<Rightarrow> None | b # r \<Rightarrow> Some (b, r))"

definition take_bytes :: "u64 \<Rightarrow> bytes \<Rightarrow> (bytes \<times> bytes) option" where
  "take_bytes n bs = (if unat n > length bs then None else Some (take (unat n) bs, drop (unat n) bs))"

fun argument_bytes :: "nat \<Rightarrow> u64 \<Rightarrow> bytes \<Rightarrow> (u64 \<times> bytes) option" where
  "argument_bytes 0 v bs = Some (v, bs)"
| "argument_bytes (Suc k) v bs =
     (case take_byte bs of None \<Rightarrow> None | Some (b, r) \<Rightarrow> argument_bytes k (push_bit 8 v OR ucast b) r)"

definition read_argument :: "u8 \<Rightarrow> bytes \<Rightarrow> (u64 \<times> bytes) option" where
  "read_argument extra bs =
     (if extra < 24 then Some (ucast extra, bs)
      else if extra = 24 then argument_bytes 1 0 bs
      else if extra = 25 then argument_bytes 2 0 bs
      else if extra = 26 then argument_bytes 4 0 bs
      else if extra = 27 then argument_bytes 8 0 bs
      else None)"

definition kMaxDepth :: nat where "kMaxDepth = 8"

text \<open>The items without items of their own, behind their argument.\<close>

definition parse_leaf :: "u8 \<Rightarrow> u64 \<Rightarrow> bytes \<Rightarrow> (cbor \<times> bytes) option" where
  "parse_leaf major_type n bs =
     (if major_type = 0 then Some (VUint n, bs)
      else if major_type = 1 then (if n > 0x7FFFFFFFFFFFFFFF then None else Some (VNint (- 1 - uint n), bs))
      else if major_type = 2 then map_option (\<lambda>(x, r). (VBytes x, r)) (take_bytes n bs)
      else if major_type = 3 then map_option (\<lambda>(x, r). (VText (map (\<lambda>b. char_of (unat b)) x), r)) (take_bytes n bs)
      else None)"

definition parse_simple :: "u8 \<Rightarrow> bytes \<Rightarrow> (cbor \<times> bytes) option" where
  "parse_simple extra bs = (if extra = 20 \<or> extra = 21 then Some (VBool (extra = 21), bs) else None)"

function (sequential) parse_item :: "nat \<Rightarrow> bytes \<Rightarrow> (cbor \<times> bytes) option"
  and parse_items :: "nat \<Rightarrow> nat \<Rightarrow> bytes \<Rightarrow> (cbor list \<times> bytes) option"
  and parse_entries :: "nat \<Rightarrow> nat \<Rightarrow> bytes \<Rightarrow> (cbor list \<times> bytes) option" where
  "parse_item depth bs =
     (if depth > kMaxDepth then None
      else case take_byte bs of
        None \<Rightarrow> None
      | Some (b, r) \<Rightarrow>
          (let major_type = drop_bit 5 b; extra = b AND 0x1F in
           if major_type = 7 then parse_simple extra r
           else case read_argument extra r of
             None \<Rightarrow> None
           | Some (n, r') \<Rightarrow>
               if major_type = 4 then map_option (\<lambda>(vs, r). (VArray vs, r)) (parse_items (Suc depth) (unat n) r')
               else if major_type = 5 then map_option (\<lambda>(vs, r). (VMap vs, r)) (parse_entries (Suc depth) (unat n) r')
               else parse_leaf major_type n r'))"
| "parse_items depth k bs =
     (if k = 0 then Some ([], bs)
      else case parse_item depth bs of
        None \<Rightarrow> None
      | Some (v, r) \<Rightarrow> map_option (\<lambda>(vs, r). (v # vs, r)) (parse_items depth (k - 1) r))"
| "parse_entries depth k bs =
     (if k = 0 then Some ([], bs)
      else case parse_item depth bs of
        Some (VText t, r) \<Rightarrow>
          (case parse_item depth r of
             None \<Rightarrow> None
           | Some (v, r') \<Rightarrow> map_option (\<lambda>(vs, r). (VText t # v # vs, r)) (parse_entries depth (k - 1) r'))
      | _ \<Rightarrow> None)"
  by pat_completeness auto
termination parse_item
  by (relation "inv_image (less_than <*lex*> less_than) (\<lambda>x. case x of
      Inl (depth, bs) \<Rightarrow> (kMaxDepth + 1 - depth, 0) | Inr (Inl (depth, k, bs)) \<Rightarrow> (kMaxDepth + 1 - depth, k + 1)
    | Inr (Inr (depth, k, bs)) \<Rightarrow> (kMaxDepth + 1 - depth, k + 1))") auto

declare parse_item.simps [simp del] parse_items.simps [simp del] parse_entries.simps [simp del]

definition parse_cbor :: "bytes \<Rightarrow> cbor option" where
  "parse_cbor bs =
     (case parse_item 0 bs of
        Some (v, []) \<Rightarrow> Some v
      | _ \<Rightarrow> None)"

section \<open>Well-formed values\<close>

text \<open>How deep a value nests, an empty array or map being no deeper than a number.\<close>

fun cbor_depth :: "cbor \<Rightarrow> nat" where
  "cbor_depth (VArray vs) = foldr (\<lambda>v n. max (Suc (cbor_depth v)) n) vs 0"
| "cbor_depth (VMap vs) = foldr (\<lambda>v n. max (Suc (cbor_depth v)) n) vs 0"
| "cbor_depth _ = 0"

fun text_keys :: "cbor list \<Rightarrow> bool" where
  "text_keys [] = True"
| "text_keys (VText t # v # items) = text_keys items"
| "text_keys _ = False"

fun cbor_ok :: "cbor \<Rightarrow> bool" where
  "cbor_ok (VUint n) = True"
| "cbor_ok (VNint i) = (- (2 ^ 63) \<le> i \<and> i < 0)"
| "cbor_ok (VBytes bs) = (length bs < 2 ^ 64)"
| "cbor_ok (VText t) = (length t < 2 ^ 64)"
| "cbor_ok (VBool b) = True"
| "cbor_ok (VArray vs) = (length vs < 2 ^ 64 \<and> list_all cbor_ok vs)"
| "cbor_ok (VMap vs) = (length vs div 2 < 2 ^ 64 \<and> text_keys vs \<and> list_all cbor_ok vs)"

lemma depth_le: "foldr (\<lambda>v n. max (Suc (cbor_depth v)) n) vs 0 \<le> m \<longleftrightarrow> list_all (\<lambda>v. Suc (cbor_depth v) \<le> m) vs"
  by (induction vs) auto

lemma take_bytes_length: "take_bytes n bs = Some (x, r) \<Longrightarrow> length x = unat n"
  by (auto simp: take_bytes_def split: if_splits)

lemma unat_u64: "unat (n :: u64) < 2 ^ 64"
  using unsigned_less [of n] by simp

lemma parse_leaf_ok: "parse_leaf m n bs = Some (v, r) \<Longrightarrow> cbor_ok v \<and> cbor_depth v = 0"
proof -
  have "- (2 ^ 63) \<le> - 1 - uint n" if "\<not> n > 0x7FFFFFFFFFFFFFFF"
  proof -
    have "uint n \<le> 0x7FFFFFFFFFFFFFFF" using that by (simp add: word_less_def not_less)
    then show ?thesis by simp
  qed
  moreover have "- 1 - uint n < 0" using uint_ge_0 [of n] by linarith
  ultimately show "parse_leaf m n bs = Some (v, r) \<Longrightarrow> cbor_ok v \<and> cbor_depth v = 0"
    using unat_u64 [of n]
    by (auto simp: parse_leaf_def split: if_splits dest!: take_bytes_length)
qed

lemma parse_ok:
  "parse_item d bs = Some (v, r) \<Longrightarrow> cbor_ok v \<and> d + cbor_depth v \<le> kMaxDepth"
  "parse_items d k bs = Some (vs, r) \<Longrightarrow> length vs = k \<and> list_all cbor_ok vs \<and>
     list_all (\<lambda>v. d + cbor_depth v \<le> kMaxDepth) vs"
  "parse_entries d k bs = Some (vs, r) \<Longrightarrow> length vs = 2 * k \<and> text_keys vs \<and> list_all cbor_ok vs \<and>
     list_all (\<lambda>v. d + cbor_depth v \<le> kMaxDepth) vs"
proof (induction d bs and d k bs and d k bs arbitrary: v r and vs r and vs r
    rule: parse_item_parse_items_parse_entries.induct)
  case (1 depth bs)
  obtain b r0 where b: "take_byte bs = Some (b, r0)" "\<not> kMaxDepth < depth"
    using "1.prems" by (auto simp: parse_item.simps split: if_splits option.splits)
  show ?case
  proof (cases "drop_bit 5 b = 7")
    case True
    then show ?thesis using "1.prems" b by (auto simp: parse_item.simps parse_simple_def Let_def split: if_splits)
  next
    case False
    then obtain n r1 where n: "read_argument (b AND 0x1F) r0 = Some (n, r1)"
      using "1.prems" b by (auto simp: parse_item.simps Let_def split: option.splits)
    note IH1 = "1.IH"(1) [OF b(2,1) refl refl refl False n refl] and IH2 = "1.IH"(2) [OF b(2,1) refl refl refl False n refl]
    consider "drop_bit 5 b = 4" | "drop_bit 5 b = 5" | "drop_bit 5 b \<noteq> 4" "drop_bit 5 b \<noteq> 5" by blast
    then show ?thesis
    proof cases
      case 1
      then obtain vs where vs: "v = VArray vs" "parse_items (Suc depth) (unat n) r1 = Some (vs, r)"
        using "1.prems" b False n by (auto simp: parse_item.simps Let_def)
      have deep: "depth + foldr (\<lambda>v n. max (Suc (cbor_depth v)) n) vs 0 \<le> kMaxDepth"
        using IH1 [OF 1 vs(2)] depth_le [of vs "kMaxDepth - depth"] b(2) by (auto simp: list_all_iff)
      then show ?thesis using IH1 [OF 1 vs(2)] vs(1) unat_u64 [of n] by simp
    next
      case 2
      then have four: "drop_bit 5 b \<noteq> 4" by simp
      obtain vs where vs: "v = VMap vs" "parse_entries (Suc depth) (unat n) r1 = Some (vs, r)"
        using 2 "1.prems" b False n by (auto simp: parse_item.simps Let_def)
      have deep: "depth + foldr (\<lambda>v n. max (Suc (cbor_depth v)) n) vs 0 \<le> kMaxDepth"
        using IH2 [OF four 2 vs(2)] depth_le [of vs "kMaxDepth - depth"] b(2) by (auto simp: list_all_iff)
      then show ?thesis using IH2 [OF four 2 vs(2)] vs(1) unat_u64 [of n] by simp
    next
      case 3
      then have "parse_leaf (drop_bit 5 b) n r1 = Some (v, r)"
        using "1.prems" b False n by (simp add: parse_item.simps Let_def)
      then show ?thesis using parse_leaf_ok [of "drop_bit 5 b" n r1 v r] b(2) by simp
    qed
  qed
next
  case (2 depth k bs)
  show ?case
  proof (cases "k = 0")
    case False
    then obtain w r0 ws where w: "parse_item depth bs = Some (w, r0)" "parse_items depth (k - 1) r0 = Some (ws, r)" "vs = w # ws"
      using "2.prems" by (subst (asm) parse_items.simps) (auto split: option.splits)
    then show ?thesis using "2.IH"(1) [OF False w(1)] "2.IH"(2) [OF False w(1) refl w(2)] False by auto
  qed (use "2.prems" in \<open>simp add: parse_items.simps\<close>)
next
  case (3 depth k bs)
  show ?case
  proof (cases "k = 0")
    case False
    then obtain t r0 w r1 ws where w: "parse_item depth bs = Some (VText t, r0)" "parse_item depth r0 = Some (w, r1)"
      "parse_entries depth (k - 1) r1 = Some (ws, r)" "vs = VText t # w # ws"
      using "3.prems" by (subst (asm) parse_entries.simps) (auto split: option.splits cbor.splits)
    then show ?thesis
      using "3.IH"(1) [OF False w(1)] "3.IH"(2) [OF False w(1) refl refl w(2)] "3.IH"(3) [OF False w(1) refl refl w(2) refl w(3)] False
      by auto
  qed (use "3.prems" in \<open>simp add: parse_entries.simps\<close>)
qed

text \<open>
  C23. What the reader accepts is well-formed. From any bytes, a value that is returned has no part out of
  range: integers are in the range of their type, every key of a map is a text, and nothing nests deeper
  than the reader's limit.
\<close>

theorem parse_cbor_sound:
  assumes "parse_cbor bs = Some v"
  shows "cbor_ok v \<and> cbor_depth v \<le> kMaxDepth"
  using assms parse_ok(1) [of 0 bs v "[]"] by (auto simp: parse_cbor_def split: option.splits list.splits prod.splits)

section \<open>What is written is read\<close>

text \<open>A value written with the writer's methods.\<close>

fun write_value :: "cbor \<Rightarrow> bytes \<Rightarrow> bytes" where
  "write_value (VUint n) out = write_uint n out"
| "write_value (VNint i) out = write_nint i out"
| "write_value (VBytes bs) out = write_blob bs out"
| "write_value (VText t) out = write_text t out"
| "write_value (VBool b) out = write_boolean b out"
| "write_value (VArray vs) out = fold write_value vs (write_array (of_nat (length vs)) out)"
| "write_value (VMap vs) out = fold write_value vs (write_map (of_nat (length vs div 2)) out)"

text \<open>The same as a function of the value alone.\<close>

fun encode_value :: "cbor \<Rightarrow> bytes" where
  "encode_value (VArray vs) = cbor_head 4 (of_nat (length vs)) [] @ concat (map encode_value vs)"
| "encode_value (VMap vs) = cbor_head 5 (of_nat (length vs div 2)) [] @ concat (map encode_value vs)"
| "encode_value v = write_value v []"

lemma write_encode: "write_value v out = out @ encode_value v"
proof (induction v arbitrary: out)
  case (VArray vs)
  have "fold write_value us out = out @ concat (map encode_value us)" if "set us \<subseteq> set vs" for us out
    using that VArray by (induction us arbitrary: out) simp_all
  then show ?case by (simp add: write_array_def) (simp add: cbor_head_def)
next
  case (VMap vs)
  have "fold write_value us out = out @ concat (map encode_value us)" if "set us \<subseteq> set vs" for us out
    using that VMap by (induction us arbitrary: out) simp_all
  then show ?case by (simp add: write_map_def) (simp add: cbor_head_def)
qed (simp_all add: write_uint_def write_nint_def write_blob_def write_text_def write_boolean_def cbor_head_def)

lemma initial_fields:
  assumes "m < 8" and "e < 32"
  shows "drop_bit 5 (cbor_initial m e) = m" "cbor_initial m e AND 0x1F = e"
proof -
  have "list_all (\<lambda>m. list_all (\<lambda>e. drop_bit 5 (cbor_initial (of_nat m) (of_nat e)) = of_nat m \<and>
      cbor_initial (of_nat m) (of_nat e) AND 0x1F = of_nat e) [0..<32]) [0..<8]"
    by code_simp
  then have "drop_bit 5 (cbor_initial (of_nat i) (of_nat j)) = of_nat i \<and>
      cbor_initial (of_nat i) (of_nat j) AND 0x1F = of_nat j" if "i < 8" "j < 32" for i j
    using that by (auto simp: list_all_iff)
  from this [of "unat m" "unat e"] show "drop_bit 5 (cbor_initial m e) = m" "cbor_initial m e AND 0x1F = e"
    using assms by (simp_all add: word_less_nat_alt)
qed

lemma argument_written:
  "argument_bytes k a (push_be k v @ r) = Some (push_bit (8 * k) a OR take_bit (8 * k) v, r)"
proof (induction k arbitrary: a)
  case (Suc k)
  have ff: "(x AND 0xFF) = take_bit 8 x" for x :: u64
    by (simp add: take_bit_eq_mask mask_eq_exp_minus_1)
  have "push_bit (8 * k) (push_bit 8 a OR ucast (ucast (drop_bit (k * 8) v AND 0xFF) :: u8)) OR take_bit (8 * k) v =
      push_bit (8 + 8 * k) a OR take_bit (8 + 8 * k) v"
    unfolding ff by (rule bit_word_eqI) (auto simp: bit_simps ac_simps)
  then show ?case using Suc by (simp add: take_byte_def)
qed simp

lemma head_read:
  assumes "m < 8"
  shows "\<exists>b s. cbor_head m n [] @ r = b # s \<and> drop_bit 5 b = m \<and> read_argument (b AND 0x1F) s = Some (n, r)"
proof -
  have small: "take_bit k n = n" if "unat n < 2 ^ k" for k
    using that by (simp add: word_unat_eq_iff unsigned_take_bit_eq take_bit_nat_eq_self)
  have narrow: "ucast (ucast n :: u8) = n" if "take_bit 8 n = n"
  proof -
    have "ucast (ucast n :: u8) = take_bit 8 n" by (rule bit_word_eqI) (auto simp: bit_simps)
    then show ?thesis using that by simp
  qed
  note f = initial_fields [OF assms]
  consider "n < 24" | "\<not> n < 24" "n \<le> 0xFF" | "\<not> n < 24" "\<not> n \<le> 0xFF" "n \<le> 0xFFFF"
    | "\<not> n < 24" "\<not> n \<le> 0xFF" "\<not> n \<le> 0xFFFF" "n \<le> 0xFFFFFFFF"
    | "\<not> n < 24" "\<not> n \<le> 0xFF" "\<not> n \<le> 0xFFFF" "\<not> n \<le> 0xFFFFFFFF"
    by blast
  then show ?thesis
  proof cases
    case 1
    have u: "unat n < 24" using 1 by (simp add: word_less_nat_alt)
    then have t: "take_bit 8 n = n" by (intro small) simp
    have "take_bit 8 (unat n) = unat n" using u by (intro take_bit_nat_eq_self) simp
    then have "unat (ucast n :: u8) = unat n" by (simp add: unsigned_ucast_eq)
    then have "(ucast n :: u8) < 24" "(ucast n :: u8) < 32" using u by (simp_all add: word_less_nat_alt)
    moreover have "(ucast (ucast n :: u8) :: u64) = n" by (rule narrow [OF t])
    ultimately show ?thesis using 1 f [of "ucast n"] by (simp add: cbor_head_def read_argument_def)
  next
    case 2
    have "unat n \<le> 255" using 2(2) by (simp add: word_le_nat_alt)
    then have "take_bit 8 n = n" by (intro small) simp
    then have "ucast (ucast n :: u8) = n" by (rule narrow)
    then show ?thesis using 2 f [of 24] by (simp add: cbor_head_def read_argument_def take_byte_def)
  next
    case 3
    have "unat n \<le> 65535" using 3(3) by (simp add: word_le_nat_alt)
    then have "take_bit 16 n = n" by (intro small) simp
    then show ?thesis using 3 f [of 25] argument_written [of 2 0 n r] by (simp add: cbor_head_def read_argument_def)
  next
    case 4
    have "unat n \<le> 4294967295" using 4(4) by (simp add: word_le_nat_alt)
    then have "take_bit 32 n = n" by (intro small) simp
    then show ?thesis using 4 f [of 26] argument_written [of 4 0 n r] by (simp add: cbor_head_def read_argument_def)
  next
    case 5
    have "take_bit 64 n = n" by (rule small) (rule unat_u64)
    then show ?thesis using 5 f [of 27] argument_written [of 8 0 n r] by (simp add: cbor_head_def read_argument_def)
  qed
qed

lemma items_read:
  assumes "\<And>v r. v \<in> set vs \<Longrightarrow> parse_item d (encode_value v @ r) = Some (v, r)"
  shows "parse_items d (length vs) (concat (map encode_value vs) @ r) = Some (vs, r)"
  using assms by (induction vs) (simp_all add: parse_items.simps)

lemma entries_read:
  assumes "text_keys vs" and "\<And>v r. v \<in> set vs \<Longrightarrow> parse_item d (encode_value v @ r) = Some (v, r)"
  shows "parse_entries d (length vs div 2) (concat (map encode_value vs) @ r) = Some (vs, r)"
  using assms
proof (induction vs rule: text_keys.induct)
  case (2 t v items)
  have "parse_item d (encode_value (VText t) @ encode_value v @ concat (map encode_value items) @ r) =
      Some (VText t, encode_value v @ concat (map encode_value items) @ r)"
    using "2.prems"(2) [of "VText t"] by (simp del: encode_value.simps)
  moreover have "parse_item d (encode_value v @ concat (map encode_value items) @ r) = Some (v, concat (map encode_value items) @ r)"
    using "2.prems"(2) [of v] by simp
  ultimately show ?case
    using "2.IH" "2.prems" by (subst parse_entries.simps) (simp del: encode_value.simps)
qed (simp_all add: parse_entries.simps)

lemma head_item:
  assumes "m < 7" and "d \<le> kMaxDepth"
  shows "parse_item d (cbor_head m n [] @ s) =
    (if m = 4 then map_option (\<lambda>(vs, r). (VArray vs, r)) (parse_items (Suc d) (unat n) s)
     else if m = 5 then map_option (\<lambda>(vs, r). (VMap vs, r)) (parse_entries (Suc d) (unat n) s)
     else parse_leaf m n s)"
proof -
  have "m < 8" "m \<noteq> 7" using assms(1) by (auto simp: word_less_nat_alt)
  then obtain b t where "cbor_head m n [] @ s = b # t" "drop_bit 5 b = m" "read_argument (b AND 0x1F) t = Some (n, s)"
    using head_read by blast
  then show ?thesis using assms(2) \<open>m \<noteq> 7\<close> by (simp add: parse_item.simps take_byte_def Let_def)
qed

lemma take_written: "length x < 2 ^ 64 \<Longrightarrow> take_bytes (of_nat (length x)) (x @ r) = Some (x, r)"
  by (simp add: take_bytes_def unat_of_nat)

lemma char_bytes: "map (\<lambda>b. char_of (unat b)) (map of_char t :: bytes) = t"
proof -
  have "char_of (unat (of_char c :: u8)) = c" for c
  proof -
    have "unat (of_nat (of_char c) :: u8) = of_char c mod 256" by (simp only: unat_of_nat) simp
    then show ?thesis by (simp only: of_nat_of_char of_char_mod_256) simp
  qed
  then show ?thesis by (simp add: comp_def)
qed

lemma value_read:
  "cbor_ok v \<Longrightarrow> d + cbor_depth v \<le> kMaxDepth \<Longrightarrow> parse_item d (encode_value v @ r) = Some (v, r)"
proof (induction v arbitrary: d r)
  case (VUint n)
  then show ?case by (simp add: write_uint_def head_item parse_leaf_def)
next
  case (VNint i)
  have "uint (of_int (- (i + 1)) :: u64) = - (i + 1)" 
    unfolding uint_word_of_int using VNint by (intro mod_pos_pos_trivial) simp_all
  moreover from this have "\<not> (of_int (- (i + 1)) :: u64) > 0x7FFFFFFFFFFFFFFF" using VNint by (simp add: word_less_def)
  ultimately show ?case using VNint by (simp only: encode_value.simps write_value.simps write_nint_def) (simp add: head_item parse_leaf_def)
next
  case (VBytes x)
  then show ?case using take_written [of x r] by (simp add: write_blob_def head_item parse_leaf_def)
next
  case (VText t)
  then show ?case using take_written [of "map of_char t" r] char_bytes [of t] by (simp add: write_text_def head_item parse_leaf_def)
next
  case (VBool b)
  then show ?case by (simp add: write_boolean_def parse_item.simps take_byte_def parse_simple_def Let_def)
next
  case (VArray vs)
  have "parse_item (Suc d) (encode_value v @ r) = Some (v, r)" if "v \<in> set vs" for v r
    using VArray that depth_le [of vs "kMaxDepth - d"] by (auto simp: list_all_iff)
  from items_read [of vs, OF this] show ?case using VArray.prems by (simp add: head_item unat_of_nat)
next
  case (VMap vs)
  have "parse_item (Suc d) (encode_value v @ r) = Some (v, r)" if "v \<in> set vs" for v r
    using VMap that depth_le [of vs "kMaxDepth - d"] by (auto simp: list_all_iff)
  from entries_read [OF _ this] show ?case using VMap.prems by (simp add: head_item unat_of_nat)
qed

text \<open>
  C22. CBOR round-trips. Every well-formed value within the depth limit, written with the writer's
  methods, is read back as the same value with nothing left over.
\<close>

theorem cbor_roundtrip:
  assumes "cbor_ok v" and "cbor_depth v \<le> kMaxDepth"
  shows "parse_cbor (write_value v []) = Some v"
  using value_read [OF assms(1), of 0 "[]"] assms(2) by (simp add: parse_cbor_def write_encode)

definition demo_cbor :: cbor where
  "demo_cbor = VMap [VText ''rc'', VNint (- 300), VText ''images'', VArray [VMap [VText ''slot'', VUint 70000, VText ''hash'', VBytes [1, 2],
     VText ''active'', VBool True]]]"

lemma demo_cbor_ok: "cbor_ok demo_cbor" "cbor_depth demo_cbor \<le> kMaxDepth"
  by (simp_all add: demo_cbor_def kMaxDepth_def)

theorem cbor_roundtrip_witness: "parse_cbor (write_value demo_cbor []) = Some demo_cbor"
  by (rule cbor_roundtrip) (rule demo_cbor_ok)+

theorem parse_cbor_sound_witness: "cbor_ok demo_cbor \<and> cbor_depth demo_cbor \<le> kMaxDepth"
proof -
  have "parse_cbor (write_value demo_cbor []) = Some demo_cbor"
    using value_read [OF demo_cbor_ok(1), of 0 "[]"] demo_cbor_ok(2) by (simp add: parse_cbor_def write_encode)
  then show ?thesis by (rule parse_cbor_sound)
qed

end
