(* ===== verification/Spec2Isabelle.thy ===== *)
theory Spec2Isabelle
  imports ClientProperties UploadProperties RunProperties UpdateOnDevice PackageProperties SerialFraming TransportLink MiniCbor
begin

text \<open>
  A verification development for smply, a C++ library that speaks the Simple Management Protocol
  (SMP) to devices running MCUboot and updates their firmware. All paths are relative to \<open>src/\<close>.

  \<^bold>\<open>The program.\<close> An application owns a transport and a \<open>SmpClient\<close>. Groups encode commands and
  decode answers; the image group uploads a firmware file in chunks; \<open>FirmwareUpdater\<close> asks a pure
  state machine what to do next and carries it out through the groups. Bytes from the transport
  reach the client through \<open>MessageAssembler\<close>; on a serial console they first pass the line
  splitter and the deframer. Image files are read through \<open>ImageSource\<close>: the MCUboot header, the
  TLV areas with the image hash, and SHA-256 of the file.

  \<^bold>\<open>The theories.\<close>
  \<^item> \<open>Prelude\<close>: widths, byte strings, endian codecs, collections of simp rules.
  \<^item> \<open>Errors\<close>: \<open>include/smply/error.hpp\<close>, \<open>result.hpp\<close>, \<open>group.hpp\<close>, \<open>src/core.cpp\<close>. A
    \<open>Result<T>\<close> is a sum with the \<open>Error\<close> on the left.
  \<^item> \<open>SmpHeader\<close>: \<open>include/smply/smp/header.hpp\<close>, \<open>src/smp/codec.cpp\<close>. Both codecs on bytes, shown
    inverse to each other, with the exact set of rejected strings.
  \<^item> \<open>Assembler\<close>: \<open>src/smp/assembler.hpp\<close>, \<open>.cpp\<close>. The incremental parser refines a parser of the
    whole stream, so fragmentation does not matter, and its memory is bounded.
  \<^item> \<open>Retired\<close>, \<open>SmpClient\<close>, \<open>ClientInvariant\<close>, \<open>ClientSafety\<close>, \<open>ClientProperties\<close>:
    \<open>include/smply/smp_client.hpp\<close>, \<open>src/smp/client.cpp\<close>. The table of outstanding requests, retired
    sequence numbers, the queue of deferred work and every entry point. Callbacks call back into
    the client: what callback number \<open>n\<close> does is the parameter \<open>react env n\<close>, a list of requests,
    cancellations and deferrals. The locale \<open>client_property\<close> states once what an invariant must
    keep at every primitive step; its interpretations (table, account, correlation, staleness,
    framing, growth, dueness) carry it over every history of calls. Shown: no callback is lost or
    called twice, answers reach only the request they answer, stale handles do nothing, deadlines
    expire, destruction completes what is outstanding.
  \<^item> \<open>UploadSession\<close>: \<open>src/groups/image/upload_session.hpp\<close>, \<open>.cpp\<close>. What to send next and when to
    stop, on 32- and 64-bit words; requests stay inside the image, the session ends, chunk sizes
    fit the peer.
  \<^item> \<open>UploadTypes\<close>, \<open>ImageUpload\<close>, \<open>UploadProperties\<close>: \<open>include/smply/groups/image_upload.hpp\<close>,
    \<open>src/groups/image/upload_driver.hpp\<close>, \<open>.cpp\<close> and the upload operations of
    \<open>src/groups/image/image_management.cpp\<close>. The driver that carries out the session's decisions, the
    handles, and an application that calls back from progress reports and completions. Shown: a
    server that keeps to the offsets receives the file, success is what the device reported,
    callbacks run once and never inside a call, and two calls that are lost.
  \<^item> \<open>ImageValues\<close>, \<open>Sha256\<close>, \<open>ImageFormat\<close>: \<open>src/image/\<close>. Versions and hashes, the incremental
    hasher against FIPS 180-4, the MCUboot header and the TLV search against an encoder of files.
    The locale \<open>image_contract\<close> is the documented contract of an image source; the source over
    memory interprets it.
  \<^item> \<open>UpdateMachine\<close>, \<open>UpdateInvariant\<close>, \<open>UpdateSafety\<close>: \<open>src/dfu/update_state_machine.hpp\<close>,
    \<open>.cpp\<close>. Events in, steps out; an invariant that ties the machine's record of an update to the
    slot tables the device reported; the safety theorems of an update over every sequence of events.
  \<^item> \<open>FirmwareUpdater\<close>, \<open>UpdaterProperties\<close>: \<open>src/dfu/firmware_updater.cpp\<close>. The half that carries out
    the machine's steps: validation and reading of the files, the events it posts, the commands it
    gives to the groups, what it tells the application, and an application that calls back from
    inside its event callback (\<open>on_told env n\<close>). The locale \<open>updater_invariant\<close> carries an invariant
    over every history; shown are that a reported success is an installed and confirmed file, that
    the updater refines the machine, that the end is told once, and two calls it accepts and loses.
  \<^item> \<open>UpdateRun\<close>, \<open>RunProperties\<close>: \<open>support/dfu_app/reconnect_policy.hpp\<close>, \<open>update_run.hpp\<close>, \<open>.cpp\<close>. The
    loop an application drives an update with: a turn polls, hands out the events, then ends,
    reconnects, asks for approval or waits. The clock, the hooks' answers and what the client lets
    the groups report are given turn by turn. Shown: the policy's delays, the bounds of a reconnect
    episode, that a report the loop returns is an installed update; and an owed reconnect that
    outlives its update and cancels the next one.
  \<^item> \<open>BootReader\<close>, \<open>BootModel\<close>, \<open>BootProperties\<close>: \<open>support/boot_model/\<close>. The device's side: its own
    reader of images in flash, proved to agree with smply's parser; the slots, the swap types, the
    set-state rules, the boots in each mode, commits by the device, and the listing. Shown: the
    flags foretell the next boot, a trial is undone unless confirmed.
  \<^item> \<open>UpdateOnDevice\<close>: the state machine and the boot model, each answering the other. An update
    of a healthy device completes, with the file running and confirmed.
  \<^item> \<open>SerialCodec\<close>, \<open>SerialFraming\<close>: \<open>transports/serial/\<close>. CRC-16, base64, the framer, the line
    splitter and the deframer, and that packets cross a noisy console line unchanged.
  \<^item> \<open>Json\<close>, \<open>JsonGrammar\<close>, \<open>StoredZip\<close>, \<open>DfuPackage\<close>, \<open>PackageProperties\<close>:
    \<open>support/dfu_package/\<close> and \<open>support/dfu_app/update_inputs.cpp\<close>. The JSON reader, shown to accept
    exactly the grammar of RFC 8259 within its bounds; the reader of stored zips with its CRC-32, a
    round trip against a writer of archives; the package, whose claims are shown to be checked
    against the files themselves, and the update it starts.
  \<^item> \<open>TransportLink\<close>: \<open>transports/common/\<close> and \<open>src/util/dispatcher.cpp\<close>. What every adapter shares: the
    phases of a link, the admission of messages to one writer (a step relation of offers, the
    writer's requests and discards), the fragments of a message, and the queue of posted work with
    closures that post, drain and clear themselves.
  \<^item> \<open>MiniCbor\<close>: \<open>support/minicbor/\<close>. The CBOR writer and reader of the simulated devices, a round
    trip and the well-formedness of all that is accepted.
  \<^item> This theory: the client composed with the serial framing and with the fragments of a radio link,
    and the assembler behind them.

  \<^bold>\<open>Parameters.\<close> The transport's answer to a send, the clock and the decoder of the device's error
  reports are fields of \<open>env\<close>; the encoded size of the map that probes an upload request is an
  argument of \<open>compute_chunk_size\<close>; an image source is a size with a read function that may fail.
  Each theorem that assumes something of a parameter has a witness with a concrete one.

  \<^bold>\<open>Bounds.\<close> Words keep their width where the code computes with them. Counters for diagnostics and
  the slots' generations are natural numbers: 64-bit counters of events do not wrap in a run, and
  a generation would have to be reused \<open>2 ^ 32\<close> times in one slot. Clock points are integers.
  Loops that end are functions with a termination proof; running deferred work may not end, when
  callbacks queue new work for ever, and is a partial function into \<open>option\<close>, with theorems that it
  returns.

  \<^bold>\<open>Not modelled.\<close> The CBOR reader and writer (\<open>src/cbor/\<close>) wrap QCBOR, which is not part of the
  repository, and the groups' encoders and decoders are calls of them. Operating-system transports
  (\<open>transports/serial_port\<close>, \<open>transports/winrt_ble\<close>) are I/O; what they share is modelled, with the
  steps their mutex makes atomic. The debug-only check that one thread uses the client has no effect
  in its model. Coroutine adapters (\<open>include/smply/async\<close>), the
  other parts of \<open>support/\<close>, \<open>examples/\<close> and the tests are outside the library's core.
\<close>

section \<open>The client over a serial line\<close>

lemma concat_pointwise:
  "(\<And>x. x \<in> set xs \<Longrightarrow> concat (g x) = concat (map h (k x))) \<Longrightarrow>
     concat (concat (map g xs)) = concat (map h (concat (map k xs)))"
  by (induction xs) simp_all

lemma sent_sizes:
  assumes "client_run env ops (SmpClient cfg) = Some w"
    and "kHeaderSize + unat (max_smp_payload cfg) \<le> max_assembly_bytes cfg"
  shows "\<forall>f\<in>set (frames w). f \<noteq> [] \<and> length f \<le> kHeaderSize + unat (max_smp_payload cfg)"
proof -
  let ?l = "\<lparr>max_payload = max_smp_payload cfg, max_buffer = max_assembly_bytes cfg\<rparr>"
  have "wire x \<noteq> [] \<and> length (wire x) \<le> kHeaderSize + unat (max_smp_payload cfg)" if "fits ?l x" for x
    using that length_wire [OF that]
    by (auto simp: fits_def total_size_def word_le_nat_alt kHeaderSize_def simp flip: length_greater_0_conv)
  then show ?thesis using sent_messages [OF assms] by (metis (no_types, lifting) imageE list.set_map)
qed

text \<open>
  C37. Requests cross a serial line. The messages a client hands to its transport, each framed as a
  packet and sent over a console line among other output, are received by the device one by
  one, in order and complete, however the port cuts the bytes: the line splitter, the deframer
  and the assembler compose to the identity on what the client sent.
\<close>

theorem client_over_serial:
  assumes "client_run env ops (SmpClient cfg) = Some w"
    and "kHeaderSize + unat (max_smp_payload cfg) \<le> max_assembly_bytes cfg"
    and "kHeaderSize + unat (max_smp_payload cfg) \<le> kMaxSerialPacket"
    and "kHeaderSize + unat (max_smp_payload cfg) + 2 \<le> m"
    and "filter is_frame lines = concat (map (\<lambda>f. frame_lines (SerialFramer f)) (frames w))"
    and "list_all (\<lambda>l. newline \<notin> set l \<and> carriage_return \<notin> set l \<and> length l \<le> kMaxFrame) lines"
    and "concat chunks = concat (map (\<lambda>l. l @ [newline]) lines)"
  shows "\<exists>a ms. feed_chunks collect
      (fst (serial_receive chunks (LineSplitter kMaxFrame) (SerialDeframer m)))
      (assembler (SmpClient cfg)) [] = (a, ms, Inr ()) \<and> assembler.buffer a = [] \<and> frames w = map wire ms"
proof -
  let ?l = "\<lparr>max_payload = max_smp_payload cfg, max_buffer = max_assembly_bytes cfg\<rparr>"
  obtain ms where ms: "frames w = map wire ms" "\<forall>x\<in>set ms. fits ?l x"
    using sent_messages [OF assms(1,2)] by blast
  have "list_all (\<lambda>p. p \<noteq> [] \<and> length p \<le> kMaxSerialPacket \<and> length p + 2 \<le> m) (frames w)"
    using sent_sizes [OF assms(1,2)] assms(3,4) by (fastforce simp: list_all_iff)
  then have "fst (serial_receive chunks (LineSplitter kMaxFrame) (SerialDeframer m)) = frames w"
    by (rule serial_receive_packets [OF _ assms(5-7)])
  then show ?thesis using feed_wires [OF ms(2), of "frames w"] ms(1)
    by (auto simp: SmpClient_def)
qed

theorem client_over_serial_witness:
  "after (client_run (ClientProperties.demo_env reissue) ClientProperties.demo_ops (SmpClient ClientProperties.demo_config))
     (\<lambda>w. \<exists>a ms. feed_chunks collect
        (fst (serial_receive (concat (map (\<lambda>f. all_frames (SerialFramer f)) (frames w)))
           (LineSplitter kMaxFrame) (SerialDeframer kMaxAssemblyBuffer)))
        (assembler (SmpClient ClientProperties.demo_config)) [] = (a, ms, Inr ()) \<and> frames w = map wire ms)"
proof -
  have "client_run (ClientProperties.demo_env reissue) ClientProperties.demo_ops (SmpClient ClientProperties.demo_config) \<noteq> None" by code_simp
  then obtain w where run: "client_run (ClientProperties.demo_env reissue) ClientProperties.demo_ops (SmpClient ClientProperties.demo_config) = Some w"
    by blast
  have fit: "\<forall>f\<in>set (frames w). f \<noteq> [] \<and> length f \<le> kMaxSerialPacket"
    using sent_sizes [OF run]
    by (fastforce simp: ClientProperties.demo_config_def kHeaderSize_def kMaxSerialPacket_def)
  let ?lines = "concat (map (\<lambda>f. frame_lines (SerialFramer f)) (frames w))"
  have "filter is_frame ?lines = ?lines"
    using fit frame_lines_are_frames framer_init by (simp add: filter_concat cong: map_cong)
  moreover have "list_all (\<lambda>l. newline \<notin> set l \<and> carriage_return \<notin> set l \<and> length l \<le> kMaxFrame) ?lines"
    using fit frames_are_lines(2) by (auto simp: list_all_iff)
  moreover have "concat (concat (map (\<lambda>f. all_frames (SerialFramer f)) (frames w))) =
      concat (map (\<lambda>l. l @ [newline]) ?lines)"
    by (rule concat_pointwise) (use fit frames_are_lines(1) in blast)
  ultimately have "\<exists>a ms. feed_chunks collect
      (fst (serial_receive (concat (map (\<lambda>f. all_frames (SerialFramer f)) (frames w)))
         (LineSplitter kMaxFrame) (SerialDeframer kMaxAssemblyBuffer)))
      (assembler (SmpClient ClientProperties.demo_config)) [] = (a, ms, Inr ()) \<and>
      assembler.buffer a = [] \<and> frames w = map wire ms"
    by (intro client_over_serial [OF run])
      (simp_all add: ClientProperties.demo_config_def kHeaderSize_def kMaxSerialPacket_def
        kMaxAssemblyBuffer_def)
  then show ?thesis unfolding after_def run option.case(2) by blast
qed

section \<open>The client over a radio link\<close>

text \<open>The writes that put messages on the link, when message number \<open>i\<close> finds the PDU size \<open>pdu_of i\<close>.\<close>

definition radio_writes :: "(nat \<Rightarrow> u16) \<Rightarrow> bytes list \<Rightarrow> bytes list" where
  "radio_writes pdu_of fs = concat (map (\<lambda>i. fragments (Fragmenter (fs ! i) (fragment_size (pdu_of i)))) [0..<length fs])"

lemma radio_writes_whole: "concat (radio_writes pdu_of fs) = concat fs"
proof -
  have "concat (fragments (Fragmenter f (fragment_size pdu))) = f" for f pdu
    using fragments_exact [of "Fragmenter f (fragment_size pdu)"] fragment_size_range [of pdu]
    by (simp add: Fragmenter_def kMinFragment_def)
  then have "concat (concat (map (\<lambda>i. fragments (Fragmenter (fs ! i) (fragment_size (pdu_of i)))) is)) = concat (map ((!) fs) is)" for "is"
    by (induction "is") simp_all
  then show ?thesis by (simp add: radio_writes_def map_nth)
qed

text \<open>
  C38. Requests cross a radio link. The messages a client hands to its transport, each written as
  fragments of the size the link's PDU allows, are received by the device one by one, in order and
  complete, although fragments carry no framing: the fragmenter and the assembler compose to the
  identity, whatever PDU size the link reports for each message.
\<close>

theorem client_over_radio:
  assumes "client_run env ops (SmpClient cfg) = Some w"
    and "kHeaderSize + unat (max_smp_payload cfg) \<le> max_assembly_bytes cfg"
  shows "\<exists>a ms. feed_chunks collect
      (radio_writes pdu_of (frames w))
      (assembler (SmpClient cfg)) [] = (a, ms, Inr ()) \<and> assembler.buffer a = [] \<and> frames w = map wire ms"
proof -
  let ?l = "\<lparr>max_payload = max_smp_payload cfg, max_buffer = max_assembly_bytes cfg\<rparr>"
  obtain ms where ms: "frames w = map wire ms" "\<forall>x\<in>set ms. fits ?l x"
    using sent_messages [OF assms] by blast
  then show ?thesis using feed_wires [OF ms(2), of "radio_writes pdu_of (frames w)"]
    by (auto simp: SmpClient_def radio_writes_whole)
qed

theorem client_over_radio_witness:
  "after (client_run (ClientProperties.demo_env reissue) ClientProperties.demo_ops (SmpClient ClientProperties.demo_config))
     (\<lambda>w. \<exists>a ms. feed_chunks collect
        (radio_writes (\<lambda>_. 23) (frames w))
        (assembler (SmpClient ClientProperties.demo_config)) [] = (a, ms, Inr ()) \<and> assembler.buffer a = [] \<and> frames w = map wire ms)"
proof -
  have "client_run (ClientProperties.demo_env reissue) ClientProperties.demo_ops (SmpClient ClientProperties.demo_config) \<noteq> None" by code_simp
  then obtain w where run: "client_run (ClientProperties.demo_env reissue) ClientProperties.demo_ops (SmpClient ClientProperties.demo_config) = Some w"
    by blast
  from client_over_radio [OF run, of "\<lambda>_. 23"]
  show ?thesis unfolding after_def run option.case(2) by (simp add: ClientProperties.demo_config_def kHeaderSize_def)
qed

end
